(* ===== verification/Prelude.thy ===== *)
theory Prelude
  imports Main "HOL-Library.Word"
begin

text \<open>
  Shared vocabulary of the development: machine-integer types, the constants of
  \<open>include/linux/errno.h\<close> and \<open>arch/x86/include/asm/page.h\<close>, flag tests on words, and the
  generic facts on words, powers of two and linked chains that the component theories use.
\<close>

unbundle bit_operations_syntax

named_theorems flag_simps \<open>tests and updates of single flag bits\<close>
named_theorems chain_simps \<open>linked chains threaded through an index array\<close>

type_synonym u8 = "8 word"
type_synonym u32 = "32 word"

subsection \<open>Constants\<close>

definition EIO :: int where "EIO = 5"
definition ENOENT :: int where "ENOENT = 2"
definition ENOMEM :: int where "ENOMEM = 12"
definition EEXIST :: int where "EEXIST = 17"
definition EINVAL :: int where "EINVAL = 22"
definition ENOSPC :: int where "ENOSPC = 28"

lemmas errno_defs = EIO_def ENOENT_def ENOMEM_def EEXIST_def EINVAL_def ENOSPC_def

abbreviation PAGE_SIZE :: u32 where "PAGE_SIZE \<equiv> 0x1000"
abbreviation PAGE_OFFSET :: u32 where "PAGE_OFFSET \<equiv> 0xC0000000"
abbreviation TASK_SIZE :: u32 where "TASK_SIZE \<equiv> 0xC0000000"

subsection \<open>Allocation outcomes\<close>

text \<open>
  A component that calls \<open>kmalloc\<close> takes the outcomes of its calls as a list of booleans,
  one per call in program order: \<open>False\<close> is a call that returned NULL.  When the list is used
  up, calls succeed.  A theorem quantified over the list covers every pattern of failures.
\<close>

type_synonym outcomes = "bool list"

fun kmalloc_ok :: "outcomes \<Rightarrow> bool \<times> outcomes" where
  "kmalloc_ok [] = (True, [])"
| "kmalloc_ok (b # bs) = (b, bs)"

subsection \<open>Flag bits\<close>

definition has_flag :: "u32 \<Rightarrow> u32 \<Rightarrow> bool" where
  "has_flag f m \<longleftrightarrow> f AND m \<noteq> 0"

definition set_flag :: "u32 \<Rightarrow> u32 \<Rightarrow> u32" where
  "set_flag f m = f OR m"

definition clear_flag :: "u32 \<Rightarrow> u32 \<Rightarrow> u32" where
  "clear_flag f m = f AND NOT m"

lemma has_flag_set [flag_simps]: "m \<noteq> 0 \<Longrightarrow> has_flag (set_flag f m) m"
  by (simp add: has_flag_def set_flag_def bit.conj_disj_distrib2)

lemma has_flag_clear [flag_simps]: "\<not> has_flag (clear_flag f m) m"
  by (simp add: has_flag_def clear_flag_def and.assoc)

lemma has_flag_set_other [flag_simps]:
  "n AND m = 0 \<Longrightarrow> has_flag (set_flag f n) m = has_flag f m"
  by (simp add: has_flag_def set_flag_def bit.conj_disj_distrib2)

lemma has_flag_clear_other [flag_simps]:
  "n AND m = 0 \<Longrightarrow> has_flag (clear_flag f n) m = has_flag f m"
proof -
  assume nm: "n AND m = 0"
  have "NOT n AND m = m"
  proof (rule bit_word_eqI)
    fix k assume "k < LENGTH(32)"
    have "\<not> bit (n AND m) k" by (simp add: nm)
    then have "\<not> (bit n k \<and> bit m k)" by (simp add: bit_and_iff)
    with \<open>k < LENGTH(32)\<close> show "bit (NOT n AND m) k = bit m k"
      by (auto simp: bit_and_iff bit_not_iff)
  qed
  then show ?thesis
    by (simp add: has_flag_def clear_flag_def and.assoc)
qed

subsection \<open>Rounding to powers of two\<close>

lemma and_not_mask_shift: "x AND NOT (mask k) = push_bit k (drop_bit k (x :: 'a::len word))"
  by (rule bit_word_eqI) (auto simp: bit_simps)

lemma unat_shift_shift:
  "unat (push_bit k (drop_bit k x)) = push_bit k (drop_bit k (unat (x :: 'a::len word)))"
  by (rule bit_eqI) (auto simp: bit_simps dest: bit_imp_le_length)

lemma unat_and_not_mask:
  "unat (x AND NOT (mask k)) = unat (x :: 'a::len word) div 2 ^ k * 2 ^ k"
  unfolding and_not_mask_shift unat_shift_shift by (simp add: push_bit_eq_mult drop_bit_eq_div)

text \<open>
  \<open>align_up\<close> and \<open>align_down\<close> as \<open>mm/bootmem.c\<close> and \<open>memlayout_align_up_u32\<close> write them: an
  alignment of 0 leaves the value alone, any other is meant to be a power of two.
\<close>

definition align_up :: "u32 \<Rightarrow> u32 \<Rightarrow> u32" where
  "align_up v a = (if a = 0 then v else (v + (a - 1)) AND NOT (a - 1))"

definition align_down :: "u32 \<Rightarrow> u32 \<Rightarrow> u32" where
  "align_down v a = (if a = 0 then v else v AND NOT (a - 1))"

lemma pow2_minus_1_mask: "(2 ^ k - 1 :: 'a::len word) = mask k"
  by (simp add: mask_eq_exp_minus_1)

lemma align_up_pow2: "k < 32 \<Longrightarrow> align_up v (2 ^ k) = (v + mask k) AND NOT (mask k)"
  by (simp add: align_up_def pow2_minus_1_mask)

lemma align_down_pow2: "k < 32 \<Longrightarrow> align_down v (2 ^ k) = v AND NOT (mask k)"
  by (simp add: align_down_def pow2_minus_1_mask)

lemma unat_mask_u32: "k < 32 \<Longrightarrow> unat (mask k :: u32) = 2 ^ k - 1"
proof -
  assume "k < 32"
  then have "unat (mask k :: u32) = mask k"
    by (intro bit_eqI) (auto simp: bit_simps)
  then show ?thesis by (simp add: mask_eq_exp_minus_1)
qed

lemma dvd_align_up: "k < 32 \<Longrightarrow> 2 ^ k dvd unat (align_up v (2 ^ k))"
  by (simp add: align_up_pow2 unat_and_not_mask)

lemma unat_align_up:
  assumes "k < 32" "unat v + (2 ^ k - 1) < 2 ^ 32"
  shows "unat (align_up v (2 ^ k)) = (unat v + (2 ^ k - 1)) div 2 ^ k * 2 ^ k"
proof -
  have "unat (v + mask k) = unat v + (2 ^ k - 1)"
    using assms by (simp add: unat_word_ariths unat_mask_u32)
  then show ?thesis using assms by (simp add: align_up_pow2 unat_and_not_mask)
qed

lemma align_up_ge:
  assumes "k < 32" "unat v + (2 ^ k - 1) < 2 ^ 32"
  shows "unat v \<le> unat (align_up v (2 ^ k))"
proof -
  have "(unat v + (2 ^ k - 1)) mod 2 ^ k < 2 ^ k" by simp
  then have "unat v + (2 ^ k - 1) - (unat v + (2 ^ k - 1)) mod 2 ^ k \<ge> unat v"
    by linarith
  then show ?thesis
    by (simp add: unat_align_up [OF assms] minus_mod_eq_div_mult [symmetric])
qed

lemma align_up_le:
  assumes "k < 32" "unat v + (2 ^ k - 1) < 2 ^ 32"
  shows "unat (align_up v (2 ^ k)) \<le> unat v + (2 ^ k - 1)"
  by (simp add: unat_align_up [OF assms])

subsection \<open>Linked chains\<close>

text \<open>
  A singly linked list whose links live in an index array: \<open>next\<close> maps an element to the index
  of its successor, a negative index ends the list.  \<open>chain next c xs\<close> says that following the
  links from \<open>c\<close> visits exactly \<open>xs\<close>.
\<close>

fun chain :: "(nat \<Rightarrow> int) \<Rightarrow> int \<Rightarrow> nat list \<Rightarrow> bool" where
  "chain nxt c [] = (c < 0)"
| "chain nxt c (x # xs) = (c = int x \<and> chain nxt (nxt x) xs)"

lemma chain_neg [chain_simps]: "c < 0 \<Longrightarrow> chain nxt c xs = (xs = [])"
  by (cases xs) auto

lemma chain_int [chain_simps]:
  "chain nxt (int a) xs = (\<exists>ys. xs = a # ys \<and> chain nxt (nxt a) ys)"
  by (cases xs) auto

lemma chain_upd [chain_simps]:
  "a \<notin> set xs \<Longrightarrow> chain (nxt(a := v)) c xs = chain nxt c xs"
  by (induction xs arbitrary: c) auto

lemma chain_unique: "chain nxt c xs \<Longrightarrow> chain nxt c ys \<Longrightarrow> xs = ys"
  by (induction xs arbitrary: c ys) (auto simp: chain_simps)

lemma chain_append:
  "chain nxt c (xs @ y # ys) \<Longrightarrow> chain nxt (int y) (y # ys)"
  by (induction xs arbitrary: c) auto

lemma chain_unlink:
  assumes "chain nxt c (xs @ y # ys)" "distinct (xs @ y # ys)"
  shows "chain (if xs = [] then nxt else nxt(last xs := nxt y))
           (if xs = [] then nxt y else c) (xs @ ys)"
  using assms
proof (induction xs arbitrary: c)
  case Nil
  then show ?case by simp
next
  case (Cons x xs)
  show ?case
  proof (cases "xs = []")
    case True
    with Cons.prems have "chain (nxt(x := nxt y)) (nxt y) ys"
      by (auto simp: chain_upd)
    with True Cons.prems show ?thesis by (simp add: fun_upd_def)
  next
    case False
    from Cons.prems have "chain nxt (nxt x) (xs @ y # ys)" "distinct (xs @ y # ys)" by auto
    from Cons.IH [OF this] False
    have "chain (nxt(last xs := nxt y)) (nxt x) (xs @ ys)"
      by (simp add: fun_upd_def)
    moreover have "last xs \<noteq> x" using Cons.prems False by auto
    ultimately show ?thesis using Cons.prems False by (simp add: fun_upd_def)
  qed
qed

end
