(* ===== verification/Bootmem.thy ===== *)
theory Bootmem
  imports Prelude "HOL-Library.Multiset"
begin

text \<open>
  The boot-time allocator \<open>mm/bootmem.c\<close>.  All addresses and sizes are 32-bit words, so the
  sums of the code wrap as they do there.  An array with its element count is the list of its
  used elements.  The search loop of \<open>bootmem_alloc\<close> may run forever on a table whose regions
  wrap around; it is a partial function whose value \<open>None\<close> means that it does not return.
\<close>

definition BOOTMEM_MAX_REGIONS :: nat where "BOOTMEM_MAX_REGIONS = 256"
definition BOOTMEM_MAX_E820 :: nat where "BOOTMEM_MAX_E820 = 64"
definition BOOTMEM_MAX_MODULES :: nat where "BOOTMEM_MAX_MODULES = 8"
definition MULTIBOOT_MEMORY_AVAILABLE :: u32 where "MULTIBOOT_MEMORY_AVAILABLE = 1"

record bootmem_region =
  rbase :: u32
  bsize :: u32

record bootmem_e820_entry =
  ebase :: u32
  esize :: u32
  etype :: u32

record bootmem_module_range =
  mstart :: u32
  mend :: u32

record bootmem_data =
  available :: "bootmem_region list"
  reserved :: "bootmem_region list"
  e820 :: "bootmem_e820_entry list"
  mods :: "bootmem_module_range list"
  kernel_phys_start :: u32
  kernel_phys_end :: u32
  bm_total_pages :: u32
  lowmem_end :: u32
  ram_kb :: u32
  reserved_kb :: u32
  bm_start :: u32
  bm_end :: u32
  bm_current :: u32

record multiboot_memory_map =
  addr_low :: u32
  addr_high :: u32
  len_low :: u32
  len_high :: u32
  mtype :: u32

text \<open>
  The fields of \<open>struct multiboot_info\<close> the memory code reads.  The module array and the
  memory map, which the C code walks through raw memory, are lists of their entries.
\<close>

record multiboot_info =
  mbi_flags :: u32
  mem_lower :: u32
  mem_upper :: u32
  mods_addr :: u32
  mbi_mods :: "(u32 \<times> u32) list"
  mbi_mmap :: "multiboot_memory_map list"

definition region_end :: "bootmem_region \<Rightarrow> u32" where
  "region_end r = rbase r + bsize r"

subsection \<open>Region tables\<close>

definition bootmem_reserve :: "u32 \<Rightarrow> u32 \<Rightarrow> bootmem_data \<Rightarrow> bootmem_data" where
  "bootmem_reserve b sz bm =
     (if length (reserved bm) \<ge> BOOTMEM_MAX_REGIONS then bm
      else bm\<lparr>reserved := reserved bm @ [\<lparr>rbase = b, bsize = sz\<rparr>]\<rparr>)"

definition overlaps :: "u32 \<Rightarrow> u32 \<Rightarrow> bootmem_region \<Rightarrow> bool" where
  "overlaps b end_addr r \<longleftrightarrow> \<not> end_addr \<le> rbase r \<and> \<not> b \<ge> region_end r"

definition bootmem_is_reserved :: "bootmem_data \<Rightarrow> u32 \<Rightarrow> u32 \<Rightarrow> bool" where
  "bootmem_is_reserved bm b sz = list_ex (overlaps b (b + sz)) (reserved bm)"

definition bootmem_add_available :: "u32 \<Rightarrow> u32 \<Rightarrow> bootmem_data \<Rightarrow> bootmem_data" where
  "bootmem_add_available b sz bm =
     (if length (available bm) \<ge> BOOTMEM_MAX_REGIONS then bm
      else bm\<lparr>available := available bm @ [\<lparr>rbase = b, bsize = sz\<rparr>]\<rparr>)"

definition bootmem_add_e820 :: "u32 \<Rightarrow> u32 \<Rightarrow> u32 \<Rightarrow> bootmem_data \<Rightarrow> bootmem_data" where
  "bootmem_add_e820 b sz t bm =
     (if sz = 0 then bm
      else if length (e820 bm) \<ge> BOOTMEM_MAX_E820 then bm
      else bm\<lparr>e820 := e820 bm @ [\<lparr>ebase = b, esize = sz, etype = t\<rparr>]\<rparr>)"

text \<open>The exchange sort both \<open>bootmem_sort_e820\<close> and \<open>bootmem_sort_available\<close> use.\<close>

definition sort_step :: "('a \<Rightarrow> u32) \<Rightarrow> nat \<Rightarrow> nat \<Rightarrow> 'a list \<Rightarrow> 'a list" where
  "sort_step key i j xs = (if key (xs ! j) < key (xs ! i) then xs[i := xs ! j, j := xs ! i] else xs)"

definition sort_pass :: "('a \<Rightarrow> u32) \<Rightarrow> nat \<Rightarrow> 'a list \<Rightarrow> 'a list" where
  "sort_pass key i xs = fold (sort_step key i) [Suc i..<length xs] xs"

definition exchange_sort :: "('a \<Rightarrow> u32) \<Rightarrow> 'a list \<Rightarrow> 'a list" where
  "exchange_sort key xs = fold (sort_pass key) [0..<length xs - 1] xs"

definition bootmem_sort_e820 :: "bootmem_data \<Rightarrow> bootmem_data" where
  "bootmem_sort_e820 bm = bm\<lparr>e820 := exchange_sort ebase (e820 bm)\<rparr>"

definition bootmem_sort_available :: "bootmem_data \<Rightarrow> bootmem_data" where
  "bootmem_sort_available bm = bm\<lparr>available := exchange_sort rbase (available bm)\<rparr>"

text \<open>
  The in-place compaction writes index \<open>out\<close> only after it has read index \<open>i \<ge> out\<close>; the first
  argument is the part written so far, last entry (\<open>cur\<close>) first.
\<close>

fun coalesce :: "bootmem_region list \<Rightarrow> bootmem_region list \<Rightarrow> bootmem_region list" where
  "coalesce out [] = rev out"
| "coalesce out (r # rs) =
     (if bsize r = 0 then coalesce out rs
      else case out of
        [] \<Rightarrow> coalesce [r] rs
      | cur # out' \<Rightarrow>
          if rbase r \<le> region_end cur then
            if region_end r > region_end cur
            then coalesce (cur\<lparr>bsize := region_end r - rbase cur\<rparr> # out') rs
            else coalesce out rs
          else coalesce (r # out) rs)"

definition bootmem_coalesce_available :: "bootmem_data \<Rightarrow> bootmem_data" where
  "bootmem_coalesce_available bm =
     (if length (available bm) < 2 then bm
      else bm\<lparr>available := coalesce [] (available bm)\<rparr>)"

definition bootmem_min_u32 :: "u32 \<Rightarrow> u32 \<Rightarrow> u32" where
  "bootmem_min_u32 a b = (if a < b then a else b)"

definition bootmem_max_u32 :: "u32 \<Rightarrow> u32 \<Rightarrow> u32" where
  "bootmem_max_u32 a b = (if a > b then a else b)"

subsection \<open>Allocation\<close>

definition bootmem_find_reserved_overlap :: "bootmem_data \<Rightarrow> u32 \<Rightarrow> u32 \<Rightarrow> u32 option" where
  "bootmem_find_reserved_overlap bm b sz =
     map_option region_end (find (overlaps b (b + sz)) (reserved bm))"

text \<open>
  The inner \<open>while\<close> loop: \<open>Some (Some a)\<close> is an address found, \<open>Some None\<close> the end of the region,
  \<open>None\<close> a loop that never ends.
\<close>

partial_function (option) bootmem_scan ::
  "bootmem_data \<Rightarrow> u32 \<Rightarrow> u32 \<Rightarrow> u32 \<Rightarrow> u32 \<Rightarrow> u32 option option" where
  "bootmem_scan bm sz al rend addr =
     (if addr < rend then
        if addr + sz > rend then Some None
        else case bootmem_find_reserved_overlap bm addr sz of
               Some overlap_end \<Rightarrow> bootmem_scan bm sz al rend (align_up overlap_end al)
             | None \<Rightarrow> Some (Some addr)
      else Some None)"

fun bootmem_alloc_regions ::
  "bootmem_data \<Rightarrow> u32 \<Rightarrow> u32 \<Rightarrow> bootmem_region list \<Rightarrow> u32 option option" where
  "bootmem_alloc_regions bm sz al [] = Some None"
| "bootmem_alloc_regions bm sz al (r # rs) =
     (if rbase r \<ge> bm_end bm then bootmem_alloc_regions bm sz al rs
      else
        let rend = (if region_end r > bm_end bm then bm_end bm else region_end r)
        in case bootmem_scan bm sz al rend (align_up (bootmem_max_u32 (bm_current bm) (rbase r)) al) of
             None \<Rightarrow> None
           | Some (Some addr) \<Rightarrow> Some (Some addr)
           | Some None \<Rightarrow> bootmem_alloc_regions bm sz al rs)"

text \<open>The result is the address returned (0 is NULL) and the new state.\<close>

definition bootmem_alloc :: "u32 \<Rightarrow> u32 \<Rightarrow> bootmem_data \<Rightarrow> (u32 \<times> bootmem_data) option" where
  "bootmem_alloc sz al bm =
     (let req_align = (if al \<noteq> 0 then al else PAGE_SIZE)
      in if sz = 0 then Some (0, bm)
         else case bootmem_alloc_regions bm sz req_align (available bm) of
                None \<Rightarrow> None
              | Some None \<Rightarrow> Some (0, bm)
              | Some (Some addr) \<Rightarrow>
                  Some (addr, bootmem_reserve addr sz (bm\<lparr>bm_current := addr + sz\<rparr>)))"

subsection \<open>Queries\<close>

fun present_loop :: "u32 \<Rightarrow> u32 \<Rightarrow> u32 \<Rightarrow> bootmem_region list \<Rightarrow> u32" where
  "present_loop start_addr end_addr pages [] = pages"
| "present_loop start_addr end_addr pages (r # rs) =
     (if region_end r \<le> start_addr then present_loop start_addr end_addr pages rs
      else if rbase r \<ge> end_addr then pages
      else
        let a = align_up (bootmem_max_u32 (rbase r) start_addr) PAGE_SIZE;
            b = align_down (bootmem_min_u32 (region_end r) end_addr) PAGE_SIZE
        in present_loop start_addr end_addr
             (if b > a then pages + (b - a) div PAGE_SIZE else pages) rs)"

definition bootmem_present_pages :: "bootmem_data \<Rightarrow> u32 \<Rightarrow> u32 \<Rightarrow> u32" where
  "bootmem_present_pages bm start_pfn end_pfn0 =
     (let end_pfn = (if end_pfn0 > bm_total_pages bm then bm_total_pages bm else end_pfn0)
      in if start_pfn \<ge> end_pfn then 0
         else
           let start_addr = start_pfn * PAGE_SIZE; end_addr0 = end_pfn * PAGE_SIZE
           in if start_addr \<ge> lowmem_end bm then 0
              else
                let end_addr = (if end_addr0 > lowmem_end bm then lowmem_end bm else end_addr0)
                in present_loop start_addr end_addr 0 (available bm))"

definition bootmem_e820_get :: "bootmem_data \<Rightarrow> u32 \<Rightarrow> (u32 \<times> u32 \<times> u32) option" where
  "bootmem_e820_get bm idx =
     (if unat idx \<ge> length (e820 bm) then None
      else let e = e820 bm ! unat idx in Some (ebase e, esize e, etype e))"

definition bootmem_module_get :: "bootmem_data \<Rightarrow> u32 \<Rightarrow> (u32 \<times> u32) option" where
  "bootmem_module_get bm idx =
     (if unat idx \<ge> length (mods bm) then None
      else let m = mods bm ! unat idx in Some (mstart m, mend m))"

subsection \<open>Initialisation\<close>

definition bootmem_zero :: bootmem_data where
  "bootmem_zero = \<lparr>available = [], reserved = [], e820 = [], mods = [], kernel_phys_start = 0,
     kernel_phys_end = 0, bm_total_pages = 0, lowmem_end = 0, ram_kb = 0, reserved_kb = 0,
     bm_start = 0, bm_end = 0, bm_current = 0\<rparr>"

definition bootmem_init_modules :: "multiboot_info \<Rightarrow> bootmem_data \<Rightarrow> bootmem_data" where
  "bootmem_init_modules mbi bm =
     (if mbi_mods mbi \<noteq> [] \<and> mods_addr mbi \<noteq> 0 then
        let bm1 = bootmem_reserve (mods_addr mbi) (word_of_nat (length (mbi_mods mbi)) * 16) bm;
            taken = take BOOTMEM_MAX_MODULES (mbi_mods mbi)
        in (fold (\<lambda>(ms, me) b. if me > ms then bootmem_reserve ms (me - ms) b else b) taken bm1)
             \<lparr>mods := map (\<lambda>(ms, me). \<lparr>mstart = ms, mend = me\<rparr>) taken\<rparr>
      else bm)"

text \<open>One entry of the memory map: the tables and \<open>(max_ram_end, ram_kb, reserved_kb)\<close>.\<close>

definition bootmem_init_entry ::
  "multiboot_memory_map \<Rightarrow> bootmem_data \<times> u32 \<times> u32 \<times> u32 \<Rightarrow> bootmem_data \<times> u32 \<times> u32 \<times> u32" where
  "bootmem_init_entry m st =
     (case st of (bm, max_ram_end, ram, resv) \<Rightarrow>
        let bm1 = bootmem_add_e820 (addr_low m) (len_low m) (mtype m) bm
        in if mtype m = MULTIBOOT_MEMORY_AVAILABLE then
             let bm2 = bootmem_add_available (addr_low m) (len_low m) bm1;
                 rend = addr_low m + len_low m
             in (bm2, if rend > max_ram_end then rend else max_ram_end,
                 ram + len_low m div 1024, resv)
           else (bm1, max_ram_end, ram, resv + len_low m div 1024))"

text \<open>
  \<open>bootmem_init\<close> in three parts: the reservations made before the memory map is read, the
  walk over the map, and the limits set at the end.  \<open>kend\<close> is the address of the linker
  symbol \<open>end\<close>.
\<close>

definition bootmem_init_reserve :: "u32 \<Rightarrow> multiboot_info \<Rightarrow> bootmem_data" where
  "bootmem_init_reserve kend mbi =
     (let ke0 = (if kend \<ge> PAGE_OFFSET then kend - PAGE_OFFSET else kend);
          kernel_end = align_up ke0 PAGE_SIZE;
          bm0 = bootmem_zero\<lparr>kernel_phys_start := 0x00100000, kernel_phys_end := kernel_end\<rparr>;
          bm1 = bootmem_reserve 0 0x00100000 bm0;
          bm2 = (if kernel_end > 0x00100000
                 then bootmem_reserve 0x00100000 (kernel_end - 0x00100000) bm1 else bm1)
      in (bootmem_init_modules mbi bm2)
           \<lparr>bm_start := kernel_end, bm_current := kernel_end, bm_end := kernel_end\<rparr>)"

definition bootmem_init_limits :: "u32 \<Rightarrow> u32 \<Rightarrow> u32 \<Rightarrow> bootmem_data \<Rightarrow> bootmem_data" where
  "bootmem_init_limits max_ram_end0 ram resv bm =
     (let max_ram_end = (if max_ram_end0 = 0 then bm_start bm else max_ram_end0);
          le = bootmem_min_u32 max_ram_end 0x38000000;
          bm1 = bm\<lparr>lowmem_end := le, bm_end := le, bm_total_pages := le div PAGE_SIZE,
                    ram_kb := ram, reserved_kb := resv\<rparr>;
          cur1 = (if bm_current bm1 < bm_start bm1 then bm_start bm1 else bm_current bm1);
          cur2 = (if cur1 > bm_end bm1 then bm_end bm1 else cur1)
      in bm1\<lparr>bm_current := cur2\<rparr>)"

definition bootmem_init :: "u32 \<Rightarrow> multiboot_info \<Rightarrow> bootmem_data" where
  "bootmem_init kend mbi =
     (let bm3 = bootmem_init_reserve kend mbi;
          (bm4, max_ram_end, ram, resv) =
             (if mbi_flags mbi AND 0x40 \<noteq> 0
              then fold bootmem_init_entry (mbi_mmap mbi) (bm3, 0, 0, 0) else (bm3, 0, 0, 0))
      in bootmem_init_limits max_ram_end ram resv
           (bootmem_sort_e820 (bootmem_coalesce_available (bootmem_sort_available bm4))))"


subsection \<open>The exchange sort\<close>

definition prefix_min :: "('a \<Rightarrow> u32) \<Rightarrow> nat \<Rightarrow> 'a list \<Rightarrow> bool" where
  "prefix_min key m xs \<longleftrightarrow> (\<forall>a < m. \<forall>b. a < b \<and> b < length xs \<longrightarrow> key (xs ! a) \<le> key (xs ! b))"

lemma length_sort_step [simp]: "length (sort_step key i j xs) = length xs"
  by (simp add: sort_step_def)

lemma mset_sort_step:
  "i < length xs \<Longrightarrow> j < length xs \<Longrightarrow> mset (sort_step key i j xs) = mset xs"
  by (simp add: sort_step_def mset_swap)

lemma sort_step_nth:
  "i < j \<Longrightarrow> j < length xs \<Longrightarrow> b < length xs \<Longrightarrow>
   sort_step key i j xs ! b =
     (if key (xs ! j) < key (xs ! i) then if b = j then xs ! i else if b = i then xs ! j else xs ! b
      else xs ! b)"
  by (simp add: sort_step_def nth_list_update)

lemma sort_step_prefix_min:
  assumes "prefix_min key i xs" "i < j" "j < length xs"
  shows "prefix_min key i (sort_step key i j xs)"
  using assms by (auto simp: prefix_min_def sort_step_nth)

lemma sort_pass_upto:
  assumes "prefix_min key i xs" "Suc i \<le> j" "j \<le> length xs"
  shows "let ys = fold (sort_step key i) [Suc i..<j] xs in
     length ys = length xs \<and> mset ys = mset xs \<and> prefix_min key i ys \<and>
     (\<forall>k. i < k \<and> k < j \<longrightarrow> key (ys ! i) \<le> key (ys ! k))"
  using assms(2,3)
proof (induction j rule: dec_induct)
  case base
  then show ?case using assms(1) by (auto simp: Let_def)
next
  case (step j)
  define ys where "ys = fold (sort_step key i) [Suc i..<j] xs"
  have IH: "length ys = length xs" "mset ys = mset xs" "prefix_min key i ys"
    "\<forall>k. i < k \<and> k < j \<longrightarrow> key (ys ! i) \<le> key (ys ! k)"
    using step by (auto simp: ys_def Let_def)
  have j: "i < j" "j < length ys" using step IH by auto
  have eq: "fold (sort_step key i) [Suc i..<Suc j] xs = sort_step key i j ys"
    using j by (simp add: ys_def)
  have "\<forall>k. i < k \<and> k < Suc j \<longrightarrow>
      key (sort_step key i j ys ! i) \<le> key (sort_step key i j ys ! k)"
    using IH(4) j by (auto simp: sort_step_nth less_Suc_eq)
  then show ?case
    unfolding eq Let_def using IH j by (simp add: mset_sort_step sort_step_prefix_min)
qed

lemma sort_pass_correct:
  assumes "prefix_min key i xs" "i < length xs"
  shows "length (sort_pass key i xs) = length xs" "mset (sort_pass key i xs) = mset xs"
    "prefix_min key (Suc i) (sort_pass key i xs)"
  using sort_pass_upto [OF assms(1), of "length xs"] assms(2)
  by (auto simp: sort_pass_def prefix_min_def Let_def less_Suc_eq)

lemma exchange_sort_upto:
  assumes "m \<le> length xs - 1"
  shows "let ys = fold (sort_pass key) [0..<m] xs in
     length ys = length xs \<and> mset ys = mset xs \<and> prefix_min key m ys"
  using assms
proof (induction m)
  case 0
  then show ?case by (simp add: prefix_min_def)
next
  case (Suc m)
  then show ?case
    using sort_pass_correct [of key m "fold (sort_pass key) [0..<m] xs"] by (auto simp: Let_def)
qed

lemma mset_exchange_sort: "mset (exchange_sort key xs) = mset xs"
  using exchange_sort_upto [of "length xs - 1" xs key] by (simp add: exchange_sort_def Let_def)

lemma sorted_exchange_sort: "sorted (map key (exchange_sort key xs))"
proof -
  have "prefix_min key (length xs - 1) (exchange_sort key xs)"
    "length (exchange_sort key xs) = length xs"
    using exchange_sort_upto [of "length xs - 1" xs key] by (simp_all add: exchange_sort_def Let_def)
  then show ?thesis
    by (auto simp: prefix_min_def sorted_iff_nth_mono_less)
qed

subsection \<open>Regions as sets of addresses\<close>

definition no_wrap :: "bootmem_region \<Rightarrow> bool" where
  "no_wrap r \<longleftrightarrow> unat (rbase r) + unat (bsize r) < 2 ^ 32"

definition raddrs :: "bootmem_region \<Rightarrow> nat set" where
  "raddrs r = {unat (rbase r)..<unat (rbase r) + unat (bsize r)}"

definition separated :: "bootmem_region list \<Rightarrow> bool" where
  "separated = sorted_wrt (\<lambda>r q. unat (rbase r) + unat (bsize r) < unat (rbase q))"

lemma unat_region_end: "no_wrap r \<Longrightarrow> unat (region_end r) = unat (rbase r) + unat (bsize r)"
  by (simp add: no_wrap_def region_end_def unat_word_ariths)

lemma raddrs_merge:
  assumes nw: "no_wrap r" "no_wrap cur" and le: "unat (rbase cur) \<le> unat (rbase r)"
    and ov: "rbase r \<le> region_end cur" and gt: "region_end cur < region_end r"
  defines "c \<equiv> cur\<lparr>bsize := region_end r - rbase cur\<rparr>"
  shows "raddrs c = raddrs cur \<union> raddrs r" "no_wrap c" "bsize c \<noteq> 0" "rbase c = rbase cur"
proof -
  note ends = unat_region_end [OF nw(1)] unat_region_end [OF nw(2)]
  show bc: "rbase c = rbase cur" by (simp add: c_def)
  have "rbase cur \<le> region_end r" using le ends(1) by (simp add: word_le_nat_alt)
  then have sc: "unat (bsize c) = unat (rbase r) + unat (bsize r) - unat (rbase cur)"
    by (simp add: c_def unat_sub ends(1))
  have o: "unat (rbase r) \<le> unat (rbase cur) + unat (bsize cur)"
    "unat (rbase cur) + unat (bsize cur) < unat (rbase r) + unat (bsize r)"
    using ov gt by (simp_all add: word_le_nat_alt word_less_nat_alt ends)
  show "no_wrap c" using nw(1) le o by (simp add: no_wrap_def bc sc)
  have "unat (bsize c) \<noteq> 0" using o le by (simp add: sc)
  then show "bsize c \<noteq> 0" by (metis unat_0)
  show "raddrs c = raddrs cur \<union> raddrs r" using o le unfolding raddrs_def bc sc by auto
qed

definition coalesce_pre :: "bootmem_region list \<Rightarrow> bootmem_region list \<Rightarrow> bool" where
  "coalesce_pre out rs \<longleftrightarrow> (\<forall>r \<in> set out \<union> set rs. no_wrap r) \<and> separated (rev out) \<and>
     (\<forall>r \<in> set out. bsize r \<noteq> 0) \<and> sorted (map (unat \<circ> rbase) rs) \<and>
     (\<forall>r \<in> set rs. \<forall>c \<in> set out. unat (rbase c) \<le> unat (rbase r))"

definition coalesce_post :: "bootmem_region set \<Rightarrow> bootmem_region list \<Rightarrow> bool" where
  "coalesce_post R ys \<longleftrightarrow> separated ys \<and> (\<forall>r \<in> set ys. bsize r \<noteq> 0 \<and> no_wrap r) \<and>
     \<Union> (raddrs ` set ys) = \<Union> (raddrs ` R)"

lemma coalesce_pre_skip: "coalesce_pre out (r # rs) \<Longrightarrow> coalesce_pre out rs"
  by (simp add: coalesce_pre_def)

lemma coalesce_pre_push:
  assumes "coalesce_pre out (r # rs)" "bsize r \<noteq> 0" "\<forall>c \<in> set out. \<not> rbase r \<le> region_end c"
  shows "coalesce_pre (r # out) rs"
proof -
  have "\<forall>c \<in> set out. unat (rbase c) + unat (bsize c) < unat (rbase r)"
    using assms(1,3) by (simp add: coalesce_pre_def word_le_nat_alt unat_region_end not_le)
  then show ?thesis
    using assms(1,2) by (simp add: coalesce_pre_def separated_def sorted_wrt_append)
qed

lemma coalesce_pre_merge:
  assumes "coalesce_pre (cur # out) (r # rs)" "rbase c = rbase cur" "no_wrap c" "bsize c \<noteq> 0"
  shows "coalesce_pre (c # out) rs"
  using assms by (simp add: coalesce_pre_def separated_def sorted_wrt_append)

lemma separated_below:
  assumes "coalesce_pre (cur # out) (r # rs)" "\<not> rbase r \<le> region_end cur"
  shows "\<forall>c \<in> set (cur # out). \<not> rbase r \<le> region_end c"
proof
  fix c assume c: "c \<in> set (cur # out)"
  have nw: "no_wrap c" "no_wrap cur" using assms(1) c by (auto simp: coalesce_pre_def)
  have "c = cur \<or> unat (rbase c) + unat (bsize c) < unat (rbase cur)"
    using assms(1) c by (auto simp: coalesce_pre_def separated_def sorted_wrt_append)
  then show "\<not> rbase r \<le> region_end c"
    using assms(2) by (auto simp: word_le_nat_alt unat_region_end nw)
qed

lemma coalesce_correct:
  "coalesce_pre out rs \<Longrightarrow> coalesce_post (set out \<union> set rs) (coalesce out rs)"
proof (induction out rs rule: coalesce.induct)
  case (1 out)
  then show ?case by (auto simp: coalesce_pre_def coalesce_post_def)
next
  case (2 out r rs)
  note skip = coalesce_pre_skip [OF 2(6)]
  show ?case
  proof (cases "bsize r = 0")
    case True
    have "raddrs r = {}" using True by (simp add: raddrs_def)
    then show ?thesis using 2(1) [OF True skip] True by (simp add: coalesce_post_def)
  next
    case sz: False
    show ?thesis
    proof (cases out)
      case Nil
      have "coalesce_pre [r] rs" using coalesce_pre_push [OF 2(6) sz] Nil by simp
      from 2(2) [OF sz Nil this] show ?thesis using Nil sz by (simp add: coalesce_post_def)
    next
      case (Cons cur out')
      note pre = 2(6) [unfolded Cons]
      have nw: "no_wrap r" "no_wrap cur" and le: "unat (rbase cur) \<le> unat (rbase r)"
        using pre by (simp_all add: coalesce_pre_def)
      show ?thesis
      proof (cases "rbase r \<le> region_end cur")
        case ov: True
        show ?thesis
        proof (cases "region_end r > region_end cur")
          case True
          note m = raddrs_merge [OF nw le ov True]
          from 2(3) [OF sz Cons ov True coalesce_pre_merge [OF pre m(4) m(2) m(3)]]
          show ?thesis using sz Cons ov True m(1) by (simp add: coalesce_post_def Un_ac)
        next
          case False
          have "raddrs r \<subseteq> raddrs cur"
            using le False unat_region_end [OF nw(1)] unat_region_end [OF nw(2)]
            by (auto simp: raddrs_def word_less_nat_alt)
          then have u: "\<Union> (raddrs ` (set out \<union> set (r # rs))) = \<Union> (raddrs ` (set out \<union> set rs))"
            using Cons by auto
          from 2(4) [OF sz Cons ov False skip]
          have "coalesce_post (set out \<union> set (r # rs)) (coalesce out rs)"
            unfolding coalesce_post_def u .
          then show ?thesis using sz Cons ov False by simp
        qed
      next
        case False
        have "coalesce_pre (r # out) rs"
          using coalesce_pre_push [OF 2(6) sz] separated_below [OF pre False] Cons by simp
        from 2(5) [OF sz Cons False this] show ?thesis
          using sz Cons False by (simp add: coalesce_post_def Un_ac)
      qed
    qed
  qed
qed


subsection \<open>The search for a free range\<close>

text \<open>
  \<open>bootmem_ok k bm\<close>: no table entry, rounded up to \<open>2 ^ k\<close>, reaches the end of the 32-bit
  address space, neither do the allocation cursor and limit, and no reservation is empty.
\<close>

definition bootmem_ok :: "nat \<Rightarrow> bootmem_data \<Rightarrow> bool" where
  "bootmem_ok k bm \<longleftrightarrow> k < 32 \<and> unat (bm_current bm) + 2 ^ k \<le> 2 ^ 32 \<and>
     unat (bm_end bm) + 2 ^ k \<le> 2 ^ 32 \<and> (\<forall>r \<in> set (reserved bm). bsize r \<noteq> 0) \<and>
     (\<forall>r \<in> set (available bm) \<union> set (reserved bm). unat (rbase r) + unat (bsize r) + 2 ^ k \<le> 2 ^ 32)"

lemma bootmem_ok_no_wrap:
  "bootmem_ok k bm \<Longrightarrow> r \<in> set (available bm) \<union> set (reserved bm) \<Longrightarrow> no_wrap r"
proof -
  assume "bootmem_ok k bm" "r \<in> set (available bm) \<union> set (reserved bm)"
  then have "unat (rbase r) + unat (bsize r) + 2 ^ k \<le> 2 ^ 32" by (auto simp: bootmem_ok_def)
  moreover have "(0::nat) < 2 ^ k" by simp
  ultimately show ?thesis unfolding no_wrap_def by linarith
qed

lemma overlaps_iff:
  assumes "no_wrap r" "unat a + unat sz < 2 ^ 32"
  shows "overlaps a (a + sz) r \<longleftrightarrow>
    unat (rbase r) < unat a + unat sz \<and> unat a < unat (rbase r) + unat (bsize r)"
  using assms by (auto simp: overlaps_def word_le_nat_alt unat_region_end unat_word_ariths)

text \<open>Whether a range would do: aligned, inside the region, clear of every reservation.\<close>

definition fits :: "bootmem_data \<Rightarrow> u32 \<Rightarrow> nat \<Rightarrow> u32 \<Rightarrow> u32 \<Rightarrow> bool" where
  "fits bm sz k rend a \<longleftrightarrow> 2 ^ k dvd unat a \<and> unat a + unat sz \<le> unat rend \<and>
     (\<forall>r \<in> set (reserved bm). \<not> overlaps a (a + sz) r)"

lemma align_up_least:
  assumes k: "k < 32" "unat e + (2 ^ k - 1) < 2 ^ 32" and a: "2 ^ k dvd unat a" "unat e \<le> unat a"
  shows "unat (align_up e (2 ^ k)) \<le> unat a"
proof -
  from a(1) obtain m where m: "unat a = m * 2 ^ k" by (metis dvdE mult.commute)
  have "(unat e + (2 ^ k - 1)) div 2 ^ k \<le> (unat a + (2 ^ k - 1)) div 2 ^ k"
    using a(2) by (intro div_le_mono) simp
  also have "\<dots> = m" unfolding m by (subst div_mult_self3) simp_all
  finally show ?thesis by (simp add: unat_align_up [OF k] m)
qed

lemma scan_skip:
  assumes ok: "bootmem_ok k bm" and sz: "unat sz + unat rend < 2 ^ 32"
    and addr: "unat addr + unat sz < 2 ^ 32"
    and r: "r \<in> set (reserved bm)" "overlaps addr (addr + sz) r"
  shows "unat addr < unat (align_up (region_end r) (2 ^ k))"
    "addr \<le> a \<Longrightarrow> a < align_up (region_end r) (2 ^ k) \<Longrightarrow> \<not> fits bm sz k rend a"
proof -
  have k: "k < 32" using ok by (simp add: bootmem_ok_def)
  have nr: "no_wrap r" using bootmem_ok_no_wrap [OF ok] r(1) by blast
  note re = unat_region_end [OF nr]
  have "unat (rbase r) + unat (bsize r) + 2 ^ k \<le> 2 ^ 32" using ok r(1) by (simp add: bootmem_ok_def)
  moreover have "(0::nat) < 2 ^ k" by simp
  ultimately have nw: "unat (region_end r) + (2 ^ k - 1) < 2 ^ 32" unfolding re by linarith
  show "unat addr < unat (align_up (region_end r) (2 ^ k))"
    using r(2) align_up_ge [OF k nw] overlaps_iff [OF nr addr] re by simp
  show "\<not> fits bm sz k rend a" if a: "addr \<le> a" "a < align_up (region_end r) (2 ^ k)"
  proof
    assume f: "fits bm sz k rend a"
    have na: "unat a + unat sz < 2 ^ 32" using f sz by (simp add: fits_def)
    have "unat a < unat (region_end r)"
      using align_up_least [OF k nw, of a] f a(2)
      by (auto simp: fits_def word_less_nat_alt not_le [symmetric])
    then have "overlaps a (a + sz) r"
      using r(2) a(1) overlaps_iff [OF nr addr] overlaps_iff [OF nr na] re
      by (simp add: word_le_nat_alt)
    with f r(1) show False by (simp add: fits_def)
  qed
qed

definition scan_result :: "bootmem_data \<Rightarrow> u32 \<Rightarrow> nat \<Rightarrow> u32 \<Rightarrow> u32 \<Rightarrow> u32 option \<Rightarrow> bool" where
  "scan_result bm sz k rend addr res \<longleftrightarrow>
     (case res of None \<Rightarrow> \<forall>a \<ge> addr. \<not> fits bm sz k rend a
      | Some a \<Rightarrow> addr \<le> a \<and> fits bm sz k rend a)"

lemma bootmem_scan_correct:
  assumes ok: "bootmem_ok k bm" and sz: "unat sz + unat rend < 2 ^ 32" "sz \<noteq> 0"
  shows "2 ^ k dvd unat addr \<Longrightarrow>
    \<exists>res. bootmem_scan bm sz (2 ^ k) rend addr = Some res \<and> scan_result bm sz k rend addr res"
proof (induction "unat rend - unat addr" arbitrary: addr rule: less_induct)
  case less
  have k: "k < 32" using ok by (simp add: bootmem_ok_def)
  have sz0: "0 < unat sz" using sz(2) by (simp add: unat_gt_0)
  consider (past) "\<not> addr < rend" | (over) "addr < rend" "addr + sz > rend"
    | (within) "addr < rend" "\<not> addr + sz > rend" by blast
  then show ?case
  proof cases
    case past
    then show ?thesis using sz0
      by (subst bootmem_scan.simps)
        (auto simp: scan_result_def fits_def word_le_nat_alt word_less_nat_alt)
  next
    case over
    then have "unat (addr + sz) = unat addr + unat sz"
      using sz(1) by (simp add: unat_word_ariths word_less_nat_alt)
    with over show ?thesis
      by (subst bootmem_scan.simps)
        (auto simp: scan_result_def fits_def word_le_nat_alt word_less_nat_alt)
  next
    case within
    have nw: "unat addr + unat sz < 2 ^ 32" using sz(1) within by (simp add: word_less_nat_alt)
    show ?thesis
    proof (cases "find (overlaps addr (addr + sz)) (reserved bm)")
      case None
      then have "fits bm sz k rend addr"
        using within less.prems nw
        by (auto simp: fits_def find_None_iff word_less_nat_alt not_less unat_word_ariths)
      then show ?thesis using within None
        by (subst bootmem_scan.simps) (simp add: bootmem_find_reserved_overlap_def scan_result_def)
    next
      case (Some r)
      then have r: "r \<in> set (reserved bm)" "overlaps addr (addr + sz) r"
        by (auto simp: find_Some_iff)
      let ?a' = "align_up (region_end r) (2 ^ k)"
      note skip = scan_skip [OF ok sz(1) nw r]
      have step: "bootmem_scan bm sz (2 ^ k) rend addr = bootmem_scan bm sz (2 ^ k) rend ?a'"
        using within Some
        by (subst bootmem_scan.simps) (simp add: bootmem_find_reserved_overlap_def)
      have "unat rend - unat ?a' < unat rend - unat addr"
        using skip(1) within by (simp add: word_less_nat_alt)
      from less.hyps [OF this dvd_align_up [OF k]] obtain res where
        res: "bootmem_scan bm sz (2 ^ k) rend ?a' = Some res" "scan_result bm sz k rend ?a' res"
        by blast
      have "addr \<le> ?a'" using skip(1) by (simp add: word_le_nat_alt)
      then have "scan_result bm sz k rend addr res"
        using res(2) skip(2) by (cases res) (auto simp: scan_result_def not_less [symmetric])
      then show ?thesis using step res(1) by simp
    qed
  qed
qed


lemma bootmem_alloc_regions_correct:
  assumes ok: "bootmem_ok k bm" and sz: "unat sz + unat (bm_end bm) < 2 ^ 32" "sz \<noteq> 0"
    and rs: "set rs \<subseteq> set (available bm)"
  defines "lo \<equiv> \<lambda>r. align_up (bootmem_max_u32 (bm_current bm) (rbase r)) (2 ^ k)"
    and "hi \<equiv> \<lambda>r. if region_end r > bm_end bm then bm_end bm else region_end r"
  shows "\<exists>res. bootmem_alloc_regions bm sz (2 ^ k) rs = Some res \<and>
    (case res of
       None \<Rightarrow> \<forall>r \<in> set rs. rbase r < bm_end bm \<longrightarrow> (\<forall>a \<ge> lo r. \<not> fits bm sz k (hi r) a)
     | Some a \<Rightarrow> \<exists>r \<in> set rs. rbase r < bm_end bm \<and> lo r \<le> a \<and> fits bm sz k (hi r) a)"
  using rs
proof (induction rs)
  case Nil
  then show ?case by simp
next
  case (Cons r rs)
  have k: "k < 32" using ok by (simp add: bootmem_ok_def)
  from Cons obtain res where res: "bootmem_alloc_regions bm sz (2 ^ k) rs = Some res"
    "case res of
       None \<Rightarrow> \<forall>r \<in> set rs. rbase r < bm_end bm \<longrightarrow> (\<forall>a \<ge> lo r. \<not> fits bm sz k (hi r) a)
     | Some a \<Rightarrow> \<exists>r \<in> set rs. rbase r < bm_end bm \<and> lo r \<le> a \<and> fits bm sz k (hi r) a"
    by auto
  show ?case
  proof (cases "rbase r < bm_end bm")
    case False
    then show ?thesis using res by (auto split: option.splits)
  next
    case True
    have "unat sz + unat (hi r) < 2 ^ 32" using sz(1) by (auto simp: hi_def word_less_nat_alt)
    moreover have "2 ^ k dvd unat (lo r)" using dvd_align_up [OF k] by (simp add: lo_def)
    ultimately obtain q where q: "bootmem_scan bm sz (2 ^ k) (hi r) (lo r) = Some q"
      "scan_result bm sz k (hi r) (lo r) q"
      using bootmem_scan_correct [OF ok _ sz(2)] by blast
    have eq: "bootmem_alloc_regions bm sz (2 ^ k) (r # rs) =
        (case q of Some a \<Rightarrow> Some (Some a) | None \<Rightarrow> Some res)"
      using True q(1) res(1) by (simp add: hi_def lo_def Let_def not_le [symmetric] split: option.splits)
    show ?thesis
      unfolding eq using True q(2) res(2)
      by (cases q) (auto simp: scan_result_def split: option.splits)
  qed
qed


text \<open>
  What a caller asks for: an aligned range of \<open>n\<close> bytes above the cursor and below the limit,
  inside one available region and clear of every reservation.
\<close>

definition allocatable :: "bootmem_data \<Rightarrow> nat \<Rightarrow> nat \<Rightarrow> nat \<Rightarrow> bool" where
  "allocatable bm n k a \<longleftrightarrow> 2 ^ k dvd a \<and> unat (bm_current bm) \<le> a \<and> a + n \<le> unat (bm_end bm) \<and>
     (\<exists>r \<in> set (available bm). {a..<a + n} \<subseteq> raddrs r) \<and>
     (\<forall>q \<in> set (reserved bm). {a..<a + n} \<inter> raddrs q = {})"

lemma overlaps_raddrs:
  assumes "no_wrap r" "bsize r \<noteq> 0" "unat a + unat sz < 2 ^ 32" "sz \<noteq> 0"
  shows "overlaps a (a + sz) r \<longleftrightarrow> {unat a..<unat a + unat sz} \<inter> raddrs r \<noteq> {}"
proof -
  have "0 < unat sz" "0 < unat (bsize r)" using assms(2,4) by (simp_all add: unat_gt_0)
  then show ?thesis
    unfolding overlaps_iff [OF assms(1,3)] raddrs_def by (auto simp: disjoint_iff not_less)
qed

lemma allocatable_iff:
  assumes ok: "bootmem_ok k bm" and sz: "unat sz + unat (bm_end bm) < 2 ^ 32" "sz \<noteq> 0"
  shows "allocatable bm (unat sz) k (unat a) \<longleftrightarrow>
    (\<exists>r \<in> set (available bm). rbase r < bm_end bm \<and>
       align_up (bootmem_max_u32 (bm_current bm) (rbase r)) (2 ^ k) \<le> a \<and>
       fits bm sz k (if region_end r > bm_end bm then bm_end bm else region_end r) a)"
    (is "_ \<longleftrightarrow> (\<exists>r \<in> _. ?P r)")
proof -
  have k: "k < 32" using ok by (simp add: bootmem_ok_def)
  have sz0: "0 < unat sz" using sz(2) by (simp add: unat_gt_0)
  define clear where "clear \<longleftrightarrow> (\<forall>q \<in> set (reserved bm). {unat a..<unat a + unat sz} \<inter> raddrs q = {})"
  have "?P r \<longleftrightarrow> 2 ^ k dvd unat a \<and> unat (bm_current bm) \<le> unat a \<and>
      unat a + unat sz \<le> unat (bm_end bm) \<and> {unat a..<unat a + unat sz} \<subseteq> raddrs r \<and> clear"
    if r: "r \<in> set (available bm)" for r
  proof -
    have nr: "no_wrap r" using bootmem_ok_no_wrap [OF ok] r by blast
    note re = unat_region_end [OF nr]
    let ?m = "bootmem_max_u32 (bm_current bm) (rbase r)"
    have m: "unat ?m = max (unat (bm_current bm)) (unat (rbase r))"
      by (auto simp: bootmem_max_u32_def word_less_nat_alt)
    have "unat (rbase r) + unat (bsize r) + 2 ^ k \<le> 2 ^ 32" "unat (bm_current bm) + 2 ^ k \<le> 2 ^ 32"
      using ok r by (auto simp: bootmem_ok_def)
    moreover have "(0::nat) < 2 ^ k" by simp
    ultimately have nw: "unat ?m + (2 ^ k - 1) < 2 ^ 32" unfolding m by linarith
    have lo: "align_up ?m (2 ^ k) \<le> a \<longleftrightarrow> unat (bm_current bm) \<le> unat a \<and> unat (rbase r) \<le> unat a"
      if "2 ^ k dvd unat a"
      using align_up_least [OF k nw that] align_up_ge [OF k nw] m by (auto simp: word_le_nat_alt)
    have cl: "clear \<longleftrightarrow> (\<forall>q \<in> set (reserved bm). \<not> overlaps a (a + sz) q)"
      if "unat a + unat sz \<le> unat (bm_end bm)"
    proof -
      have na: "unat a + unat sz < 2 ^ 32" using that sz(1) by linarith
      have "overlaps a (a + sz) q \<longleftrightarrow> {unat a..<unat a + unat sz} \<inter> raddrs q \<noteq> {}"
        if "q \<in> set (reserved bm)" for q
        using overlaps_raddrs [OF bootmem_ok_no_wrap [OF ok] _ na sz(2)] ok that
        by (auto simp: bootmem_ok_def)
      then show ?thesis by (auto simp: clear_def)
    qed
    have hi: "unat (if region_end r > bm_end bm then bm_end bm else region_end r) =
        min (unat (rbase r) + unat (bsize r)) (unat (bm_end bm))"
      by (auto simp: re word_less_nat_alt)
    show ?thesis
      unfolding fits_def hi using lo cl sz0
      by (auto simp: raddrs_def word_less_nat_alt)
  qed
  then show ?thesis unfolding allocatable_def clear_def by blast
qed


lemma bootmem_alloc_cases:
  assumes ok: "bootmem_ok k bm" and sz: "unat sz + unat (bm_end bm) < 2 ^ 32" "sz \<noteq> 0"
  obtains (none) "bootmem_alloc sz (2 ^ k) bm = Some (0, bm)"
      "\<forall>a. \<not> allocatable bm (unat sz) k a"
  | (found) a where "allocatable bm (unat sz) k (unat a)"
      "bootmem_alloc sz (2 ^ k) bm = Some (a, bootmem_reserve a sz (bm\<lparr>bm_current := a + sz\<rparr>))"
proof -
  have k: "k < 32" using ok by (simp add: bootmem_ok_def)
  have k0: "(2 ^ k :: u32) \<noteq> 0" using k by simp
  obtain res where res: "bootmem_alloc_regions bm sz (2 ^ k) (available bm) = Some res"
    "case res of
       None \<Rightarrow> \<forall>r \<in> set (available bm). rbase r < bm_end bm \<longrightarrow>
         (\<forall>a \<ge> align_up (bootmem_max_u32 (bm_current bm) (rbase r)) (2 ^ k).
            \<not> fits bm sz k (if region_end r > bm_end bm then bm_end bm else region_end r) a)
     | Some a \<Rightarrow> \<exists>r \<in> set (available bm). rbase r < bm_end bm \<and>
         align_up (bootmem_max_u32 (bm_current bm) (rbase r)) (2 ^ k) \<le> a \<and>
         fits bm sz k (if region_end r > bm_end bm then bm_end bm else region_end r) a"
    using bootmem_alloc_regions_correct [OF ok sz subset_refl] by blast
  show thesis
  proof (cases res)
    case None
    have "\<not> allocatable bm (unat sz) k a" for a
    proof
      assume a: "allocatable bm (unat sz) k a"
      then have "a < 2 ^ 32" using sz(1) by (auto simp: allocatable_def)
      then have "unat (word_of_nat a :: u32) = a" by (simp add: unat_of_nat)
      with a allocatable_iff [OF ok sz, of "word_of_nat a"] res(2) None show False by auto
    qed
    then show thesis using none res(1) None sz(2) k0 by (simp add: bootmem_alloc_def)
  next
    case (Some a)
    then have "allocatable bm (unat sz) k (unat a)"
      using res(2) by (simp add: allocatable_iff [OF ok sz])
    then show thesis using found res(1) Some sz(2) k0 by (simp add: bootmem_alloc_def)
  qed
qed

lemma bootmem_reserve_sel [simp]:
  "available (bootmem_reserve b z bm) = available bm" "bm_end (bootmem_reserve b z bm) = bm_end bm"
  "bm_current (bootmem_reserve b z bm) = bm_current bm"
  "lowmem_end (bootmem_reserve b z bm) = lowmem_end bm"
  "bm_total_pages (bootmem_reserve b z bm) = bm_total_pages bm"
  by (simp_all add: bootmem_reserve_def)

lemma bootmem_ok_alloc:
  assumes ok: "bootmem_ok K bm" "k \<le> K" and sz: "unat sz + unat (bm_end bm) < 2 ^ 32" "sz \<noteq> 0"
    and a: "allocatable bm (unat sz) k (unat a)"
  shows "bootmem_ok K (bootmem_reserve a sz (bm\<lparr>bm_current := a + sz\<rparr>))"
    "unat (a + sz) = unat a + unat sz"
proof -
  have "unat a + unat sz \<le> unat (bm_end bm)" using a by (simp add: allocatable_def)
  moreover from this show "unat (a + sz) = unat a + unat sz"
    using sz(1) by (simp add: unat_word_ariths)
  ultimately show "bootmem_ok K (bootmem_reserve a sz (bm\<lparr>bm_current := a + sz\<rparr>))"
    using ok(1) sz(2) by (auto simp: bootmem_ok_def bootmem_reserve_def)
qed

lemma bootmem_ok_mono: "bootmem_ok K bm \<Longrightarrow> k \<le> K \<Longrightarrow> bootmem_ok k bm"
proof -
  assume a: "bootmem_ok K bm" "k \<le> K"
  then have "(2::nat) ^ k \<le> 2 ^ K" by (simp add: power_increasing)
  with a show ?thesis unfolding bootmem_ok_def by (meson add_le_mono le_refl le_trans order.strict_trans1)
qed

text \<open>A run of requests \<open>(size, log2 alignment)\<close>; \<open>None\<close> if one of the calls does not return.\<close>

fun bootmem_allocs :: "(u32 \<times> nat) list \<Rightarrow> bootmem_data \<Rightarrow> ((u32 \<times> u32) list \<times> bootmem_data) option" where
  "bootmem_allocs [] bm = Some ([], bm)"
| "bootmem_allocs ((sz, k) # rq) bm =
     (case bootmem_alloc sz (2 ^ k) bm of
        None \<Rightarrow> None
      | Some (a, bm') \<Rightarrow>
          (case bootmem_allocs rq bm' of
             None \<Rightarrow> None
           | Some (as, bm'') \<Rightarrow> Some (if a = 0 then as else (a, sz) # as, bm'')))"

definition in_order :: "(u32 \<times> u32) list \<Rightarrow> bool" where
  "in_order = sorted_wrt (\<lambda>(a, s) (b, t). unat a + unat s \<le> unat b)"

subsection \<open>Initialisation\<close>

definition avail_of :: "multiboot_memory_map list \<Rightarrow> bootmem_region list" where
  "avail_of ms = map (\<lambda>m. \<lparr>rbase = addr_low m, bsize = len_low m\<rparr>)
     (filter (\<lambda>m. mtype m = MULTIBOOT_MEMORY_AVAILABLE) ms)"

lemma fold_init_entry:
  "length (available bm) + length (avail_of ms) \<le> BOOTMEM_MAX_REGIONS \<Longrightarrow>
   available (fst (fold bootmem_init_entry ms (bm, t))) = available bm @ avail_of ms \<and>
   reserved (fst (fold bootmem_init_entry ms (bm, t))) = reserved bm \<and>
   bm_start (fst (fold bootmem_init_entry ms (bm, t))) = bm_start bm \<and>
   bm_current (fst (fold bootmem_init_entry ms (bm, t))) = bm_current bm"
proof (induction ms arbitrary: bm t)
  case Nil
  then show ?case by (simp add: avail_of_def)
next
  case (Cons m ms)
  obtain bm' t' where st: "bootmem_init_entry m (bm, t) = (bm', t')" by (metis surj_pair)
  have "available bm' = available bm @ avail_of [m] \<and> reserved bm' = reserved bm \<and>
      bm_start bm' = bm_start bm \<and> bm_current bm' = bm_current bm"
    using st Cons.prems
    by (auto simp: bootmem_init_entry_def bootmem_add_e820_def bootmem_add_available_def avail_of_def
          Let_def split: prod.splits if_splits)
  moreover have "avail_of (m # ms) = avail_of [m] @ avail_of ms" by (simp add: avail_of_def)
  ultimately show ?case using Cons.IH [of bm' t'] Cons.prems st by simp
qed

lemma coalesce_available_correct:
  assumes "\<forall>r \<in> set (available bm). no_wrap r"
  defines "ys \<equiv> available (bootmem_coalesce_available (bootmem_sort_available bm))"
  shows "separated ys" "\<Union> (raddrs ` set ys) = \<Union> (raddrs ` set (available bm))"
    "\<forall>r \<in> set ys. no_wrap r"
proof -
  let ?xs = "exchange_sort rbase (available bm)"
  have set_xs: "set ?xs = set (available bm)" by (metis mset_exchange_sort set_mset_mset)
  have len_xs: "length ?xs = length (available bm)" by (metis mset_exchange_sort size_mset)
  have mono: "sorted (map (unat \<circ> rbase) ?xs)"
    using sorted_exchange_sort [of rbase "available bm"]
    by (simp add: sorted_map word_le_nat_alt)
  have eq: "ys = (if length ?xs < 2 then ?xs else coalesce [] ?xs)"
    by (simp add: ys_def bootmem_coalesce_available_def bootmem_sort_available_def)
  have "separated ys \<and> \<Union> (raddrs ` set ys) = \<Union> (raddrs ` set (available bm)) \<and> (\<forall>r \<in> set ys. no_wrap r)"
  proof (cases "length ?xs < 2")
    case True
    then have "separated ?xs"
      by (cases ?xs) (auto simp: separated_def length_Suc_conv less_Suc_eq numeral_2_eq_2)
    then show ?thesis using True set_xs assms(1) by (simp add: eq)
  next
    case False
    have "coalesce_pre [] ?xs"
      using assms(1) set_xs mono by (simp add: coalesce_pre_def separated_def)
    from coalesce_correct [OF this] show ?thesis using False set_xs by (simp add: eq coalesce_post_def)
  qed
  then show "separated ys" "\<Union> (raddrs ` set ys) = \<Union> (raddrs ` set (available bm))"
    "\<forall>r \<in> set ys. no_wrap r" by blast+
qed


lemma reserved_reserve:
  "length (reserved bm) < BOOTMEM_MAX_REGIONS \<Longrightarrow>
   reserved (bootmem_reserve b z bm) = reserved bm @ [\<lparr>rbase = b, bsize = z\<rparr>]"
  by (simp add: bootmem_reserve_def)

lemma available_fold_modules [simp]:
  "available (fold (\<lambda>(ms, me) b. if me > ms then bootmem_reserve ms (me - ms) b else b) xs bm) = available bm"
  by (induction xs arbitrary: bm) (auto simp: split_beta)

lemma available_init_reserve: "available (bootmem_init_reserve kend mbi) = []"
  by (simp add: bootmem_init_reserve_def Let_def bootmem_init_modules_def bootmem_reserve_def bootmem_zero_def)

lemma bootmem_init_limits_sel [simp]:
  "available (bootmem_init_limits m r v bm) = available bm"
  "reserved (bootmem_init_limits m r v bm) = reserved bm"
  "bm_end (bootmem_init_limits m r v bm) = lowmem_end (bootmem_init_limits m r v bm)"
  "bm_total_pages (bootmem_init_limits m r v bm) = lowmem_end (bootmem_init_limits m r v bm) div PAGE_SIZE"
  "bm_current (bootmem_init_limits m r v bm) \<le> lowmem_end (bootmem_init_limits m r v bm)"
  "lowmem_end (bootmem_init_limits m r v bm) \<le> 0x38000000"
  by (auto simp: bootmem_init_limits_def Let_def bootmem_min_u32_def)

lemma bootmem_sort_e820_sel [simp]:
  "available (bootmem_sort_e820 bm) = available bm" "reserved (bootmem_sort_e820 bm) = reserved bm"
  by (simp_all add: bootmem_sort_e820_def)

lemma reserved_coalesce_sort [simp]:
  "reserved (bootmem_coalesce_available (bootmem_sort_available bm)) = reserved bm"
  by (simp add: bootmem_coalesce_available_def bootmem_sort_available_def)

lemma bootmem_init_shape:
  assumes "mbi_flags mbi AND 0x40 \<noteq> 0" "length (avail_of (mbi_mmap mbi)) \<le> BOOTMEM_MAX_REGIONS"
  obtains mid m r v where
    "available mid = avail_of (mbi_mmap mbi)"
    "reserved mid = reserved (bootmem_init_reserve kend mbi)"
    "bootmem_init kend mbi = bootmem_init_limits m r v
       (bootmem_sort_e820 (bootmem_coalesce_available (bootmem_sort_available mid)))"
proof -
  let ?bm3 = "bootmem_init_reserve kend mbi"
  obtain mid m r v where mid: "fold bootmem_init_entry (mbi_mmap mbi) (?bm3, 0, 0, 0) = (mid, m, r, v)"
    by (metis surj_pair)
  moreover from this have "available mid = avail_of (mbi_mmap mbi)" "reserved mid = reserved ?bm3"
    using fold_init_entry [of ?bm3 "mbi_mmap mbi" "(0, 0, 0)"] assms(2)
    by (simp_all add: available_init_reserve)
  ultimately show thesis
    using that assms(1) by (simp add: bootmem_init_def)
qed

subsection \<open>Properties\<close>


definition demo_bootmem :: bootmem_data where
  "demo_bootmem = bootmem_zero
     \<lparr>available := [\<lparr>rbase = 0x100000, bsize = 0x1000000\<rparr>],
      reserved := [\<lparr>rbase = 0, bsize = 0x100000\<rparr>, \<lparr>rbase = 0x200000, bsize = 0x1800\<rparr>],
      bm_end := 0x1100000, bm_current := 0x200000\<rparr>"

lemma demo_bootmem_ok: "bootmem_ok 12 demo_bootmem"
  by (simp add: bootmem_ok_def demo_bootmem_def bootmem_zero_def)


text \<open>
  C2: A run of \<open>bootmem_alloc\<close> calls hands out pairwise disjoint ranges in increasing order, all
  between the cursor and the limit and none touching a range reserved before the run, whatever
  the reservation table does when it is full.
\<close>
theorem bootmem_allocs_disjoint:
  assumes "bootmem_ok K bm"
    "\<forall>(sz, k) \<in> set rq. sz \<noteq> 0 \<and> k \<le> K \<and> unat sz + unat (bm_end bm) < 2 ^ 32"
  shows "\<exists>as bm'. bootmem_allocs rq bm = Some (as, bm') \<and> in_order as \<and>
    (\<forall>(a, s) \<in> set as. unat (bm_current bm) \<le> unat a \<and> unat a + unat s \<le> unat (bm_end bm) \<and>
       (\<forall>q \<in> set (reserved bm). {unat a..<unat a + unat s} \<inter> raddrs q = {}))"
  using assms
proof (induction rq arbitrary: bm)
  case Nil
  then show ?case by (simp add: in_order_def)
next
  case (Cons x rq)
  obtain sz k where x: "x = (sz, k)" by fastforce
  have sz: "sz \<noteq> 0" "k \<le> K" "unat sz + unat (bm_end bm) < 2 ^ 32" using Cons.prems(2) x by auto
  note okk = bootmem_ok_mono [OF Cons.prems(1) sz(2)]
  from okk sz(3,1) show ?case
  proof (cases rule: bootmem_alloc_cases)
    case none
    have "\<exists>as bm'. bootmem_allocs rq bm = Some (as, bm') \<and> in_order as \<and>
      (\<forall>(a, s) \<in> set as. unat (bm_current bm) \<le> unat a \<and> unat a + unat s \<le> unat (bm_end bm) \<and>
       (\<forall>q \<in> set (reserved bm). {unat a..<unat a + unat s} \<inter> raddrs q = {}))"
      using Cons.IH [of bm] Cons.prems by simp
    then show ?thesis using none(1) x by auto
  next
    case (found a)
    let ?bm = "bootmem_reserve a sz (bm\<lparr>bm_current := a + sz\<rparr>)"
    note ok' = bootmem_ok_alloc [OF Cons.prems(1) sz(2,3,1) found(1)]
    have "\<forall>(sz, k) \<in> set rq. sz \<noteq> 0 \<and> k \<le> K \<and> unat sz + unat (bm_end ?bm) < 2 ^ 32"
      using Cons.prems(2) by auto
    from Cons.IH [OF ok'(1) this] obtain as bm' where
      as: "bootmem_allocs rq ?bm = Some (as, bm')" "in_order as"
      "\<forall>(b, s) \<in> set as. unat a + unat sz \<le> unat b \<and> unat b + unat s \<le> unat (bm_end bm) \<and>
         (\<forall>q \<in> set (reserved ?bm). {unat b..<unat b + unat s} \<inter> raddrs q = {})"
      by (auto simp: ok'(2))
    have sub: "set (reserved bm) \<subseteq> set (reserved ?bm)" by (auto simp: bootmem_reserve_def)
    have "in_order ((a, sz) # as)" using as(2,3) by (auto simp: in_order_def)
    moreover have "bootmem_allocs (x # rq) bm = Some (if a = 0 then as else (a, sz) # as, bm')"
      using as(1) found(2) x by simp
    moreover have "unat (bm_current bm) \<le> unat a" using found(1) by (simp add: allocatable_def)
    ultimately show ?thesis using as(2,3) sub found(1) by (fastforce simp: allocatable_def)
  qed
qed

theorem bootmem_allocs_disjoint_witness:
  "\<exists>as bm'. bootmem_allocs [(0x1000, 12), (0x20, 4)] demo_bootmem = Some (as, bm') \<and> in_order as \<and>
    (\<forall>(a, s) \<in> set as. unat (bm_current demo_bootmem) \<le> unat a \<and>
       unat a + unat s \<le> unat (bm_end demo_bootmem) \<and>
       (\<forall>q \<in> set (reserved demo_bootmem). {unat a..<unat a + unat s} \<inter> raddrs q = {}))"
  by (rule bootmem_allocs_disjoint [OF demo_bootmem_ok]) (simp add: demo_bootmem_def)

text \<open>
  C3: \<open>bootmem_init\<close> leaves the available table sorted, separated (each region ends strictly before the
  next begins) and covering exactly the addresses of the map's
  available entries; the limit is \<open>lowmem_end\<close>, at most 896 MiB, the cursor is not above it and
  \<open>total_pages\<close> is the number of whole pages below it.
\<close>
theorem bootmem_init_spec:
  assumes "mbi_flags mbi AND 0x40 \<noteq> 0" "length (avail_of (mbi_mmap mbi)) \<le> BOOTMEM_MAX_REGIONS"
    "\<forall>r \<in> set (avail_of (mbi_mmap mbi)). no_wrap r"
  shows "separated (available (bootmem_init kend mbi)) \<and>
    \<Union> (raddrs ` set (available (bootmem_init kend mbi))) = \<Union> (raddrs ` set (avail_of (mbi_mmap mbi))) \<and>
    bm_end (bootmem_init kend mbi) = lowmem_end (bootmem_init kend mbi) \<and>
    bm_current (bootmem_init kend mbi) \<le> bm_end (bootmem_init kend mbi) \<and>
    lowmem_end (bootmem_init kend mbi) \<le> 0x38000000 \<and>
    bm_total_pages (bootmem_init kend mbi) = lowmem_end (bootmem_init kend mbi) div PAGE_SIZE"
proof -
  obtain mid m r v where "available mid = avail_of (mbi_mmap mbi)"
    "bootmem_init kend mbi = bootmem_init_limits m r v
       (bootmem_sort_e820 (bootmem_coalesce_available (bootmem_sort_available mid)))"
    using bootmem_init_shape [OF assms(1,2)] by metis
  then show ?thesis using coalesce_available_correct [of mid] assms(3) by simp
qed

definition demo_mbi :: multiboot_info where
  "demo_mbi = \<lparr>mbi_flags = 0x41, mem_lower = 639, mem_upper = 130048, mods_addr = 0, mbi_mods = [],
     mbi_mmap = [\<lparr>addr_low = 0x100000, addr_high = 0, len_low = 0x7EE0000, len_high = 0, mtype = 1\<rparr>,
                 \<lparr>addr_low = 0, addr_high = 0, len_low = 0x9FC00, len_high = 0, mtype = 1\<rparr>,
                 \<lparr>addr_low = 0x9FC00, addr_high = 0, len_low = 0x400, len_high = 0, mtype = 2\<rparr>]\<rparr>"

theorem bootmem_init_spec_witness:
  "separated (available (bootmem_init 0xC0200000 demo_mbi)) \<and>
    \<Union> (raddrs ` set (available (bootmem_init 0xC0200000 demo_mbi))) =
      \<Union> (raddrs ` set (avail_of (mbi_mmap demo_mbi))) \<and>
    bm_end (bootmem_init 0xC0200000 demo_mbi) = lowmem_end (bootmem_init 0xC0200000 demo_mbi) \<and>
    bm_current (bootmem_init 0xC0200000 demo_mbi) \<le> bm_end (bootmem_init 0xC0200000 demo_mbi) \<and>
    lowmem_end (bootmem_init 0xC0200000 demo_mbi) \<le> 0x38000000 \<and>
    bm_total_pages (bootmem_init 0xC0200000 demo_mbi) =
      lowmem_end (bootmem_init 0xC0200000 demo_mbi) div PAGE_SIZE"
  by (rule bootmem_init_spec)
    (simp_all add: demo_mbi_def avail_of_def BOOTMEM_MAX_REGIONS_def MULTIBOOT_MEMORY_AVAILABLE_def no_wrap_def)

end
