(* ===== verification/Mmzone.thy ===== *)
theory Mmzone
  imports Bootmem
begin

text \<open>
  The page and zone state of \<open>include/linux/mmzone.h\<close> and the accessors of \<open>mm/mmzone.c\<close>.

  A \<open>struct page *\<close> is the index of the page in \<open>mem_map\<close> (its frame number) or \<open>None\<close> for
  NULL, a \<open>struct zone *\<close> is \<open>Some ZONE_DMA\<close>, \<open>Some ZONE_NORMAL\<close> or \<open>None\<close>.  Frame numbers and
  page counts are naturals: a frame number is the quotient of a 32-bit address by 4096, so
  every sum of two of them is far below \<open>2 ^ 32\<close>.  The doubly linked \<open>inactive_list\<close> of a zone is the list of
  its frame numbers, front first; \<open>list_del\<close> on a page is the removal of its frame number.
\<close>

definition PG_BUDDY :: u32 where "PG_BUDDY = 0x1"
definition PG_RESERVED :: u32 where "PG_RESERVED = 0x2"
definition PG_LRU :: u32 where "PG_LRU = 0x4"
definition PG_ISOLATED :: u32 where "PG_ISOLATED = 0x8"

lemmas PG_defs = PG_BUDDY_def PG_RESERVED_def PG_LRU_def PG_ISOLATED_def

definition MAX_ORDER :: nat where "MAX_ORDER = 11"
definition MAX_DMA_PFN :: nat where "MAX_DMA_PFN = 16 * 1024 * 1024 div 4096"

datatype zone_type = ZONE_DMA | ZONE_NORMAL

datatype zone_watermarks = WMARK_MIN | WMARK_LOW | WMARK_HIGH

record page =
  pg_flags :: u32
  refcount :: nat
  pg_order :: nat
  mapcount :: nat
  map_mm :: "nat option"
  map_vaddr :: u32
  rmap_list :: "(nat \<times> u32) list"

record free_area_t =
  free_list :: int
  nr_free :: nat

record zone =
  ztype :: zone_type
  start_pfn :: nat
  spanned_pages :: nat
  present_pages :: nat
  managed_pages :: nat
  watermark :: "zone_watermarks \<Rightarrow> nat"
  free_area :: "nat \<Rightarrow> free_area_t"
  inactive_list :: "nat list"
  nr_inactive :: nat

record zonelist =
  zl_zones :: "zone_type list"
  highest_zone :: zone_type

text \<open>
  \<open>zl_zones\<close> holds the first \<open>nr_zones\<close> entries of the array \<open>zones[2]\<close>.  The globals of
  \<open>mm/bootmem.c\<close>, \<open>mm/mmzone.c\<close>, \<open>mm/page_alloc.c\<close> and \<open>mm/vmscan.c\<close> form one record; \<open>mem_map_set\<close> is
  \<open>mem_map != NULL\<close>.
\<close>

record mm_state =
  bootmem :: bootmem_data
  mem_map :: "nat \<Rightarrow> page"
  mem_map_set :: bool
  mem_map_pages :: nat
  node_spanned_pages :: nat
  node_present_pages :: nat
  zone_dma :: zone
  zone_normal :: zone
  contig_zonelist :: zonelist
  dma_zonelist :: zonelist
  buddy_next :: "nat \<Rightarrow> int"
  buddy_next_set :: bool
  buddy_max_order :: nat
  buddy_ready :: bool
  cached_mbi :: "multiboot_info option"
  total_memory_kb :: u32
  total_pages :: nat
  managed_pages_total :: nat
  kswapd_running :: bool
  kswapd_wakeups :: u32
  kswapd_tries :: u32
  kswapd_reclaims :: u32
  kswapd_anon_reclaims :: u32
  kswapd_file_reclaims :: u32

fun get_zone :: "zone_type \<Rightarrow> 'a mm_state_scheme \<Rightarrow> zone" where
  "get_zone ZONE_DMA s = zone_dma s"
| "get_zone ZONE_NORMAL s = zone_normal s"

fun upd_zone :: "zone_type \<Rightarrow> (zone \<Rightarrow> zone) \<Rightarrow> 'a mm_state_scheme \<Rightarrow> 'a mm_state_scheme" where
  "upd_zone ZONE_DMA f s = s\<lparr>zone_dma := f (zone_dma s)\<rparr>"
| "upd_zone ZONE_NORMAL f s = s\<lparr>zone_normal := f (zone_normal s)\<rparr>"

definition upd_page :: "nat \<Rightarrow> (page \<Rightarrow> page) \<Rightarrow> 'a mm_state_scheme \<Rightarrow> 'a mm_state_scheme" where
  "upd_page p f s = s\<lparr>mem_map := (mem_map s)(p := f (mem_map s p))\<rparr>"

subsection \<open>Accessors\<close>

definition pfn_to_page :: "'a mm_state_scheme \<Rightarrow> nat \<Rightarrow> nat option" where
  "pfn_to_page s pfn = (if \<not> mem_map_set s \<or> pfn \<ge> mem_map_pages s then None else Some pfn)"

definition page_to_pfn :: "'a mm_state_scheme \<Rightarrow> nat option \<Rightarrow> nat" where
  "page_to_pfn s pg = (if \<not> mem_map_set s then 0 else case pg of None \<Rightarrow> 0 | Some p \<Rightarrow> p)"

definition pfn_to_zone :: "'a mm_state_scheme \<Rightarrow> nat \<Rightarrow> zone_type option" where
  "pfn_to_zone s pfn =
     (if spanned_pages (zone_dma s) \<noteq> 0 \<and> pfn < MAX_DMA_PFN then Some ZONE_DMA else Some ZONE_NORMAL)"

definition build_zonelist :: "zone_type list \<Rightarrow> zonelist" where
  "build_zonelist zs = \<lparr>zl_zones = zs, highest_zone = (if zs \<noteq> [] then last zs else ZONE_DMA)\<rparr>"

definition build_all_zonelists :: "'a mm_state_scheme \<Rightarrow> 'a mm_state_scheme" where
  "build_all_zonelists s =
     (let dma = (if spanned_pages (zone_dma s) \<noteq> 0 then [ZONE_DMA] else []);
          normal = (if spanned_pages (zone_normal s) \<noteq> 0 then [ZONE_NORMAL] else [])
      in s\<lparr>contig_zonelist := build_zonelist (dma @ normal), dma_zonelist := build_zonelist dma\<rparr>)"

definition zone_wmarks :: "nat \<Rightarrow> zone_watermarks \<Rightarrow> nat" where
  "zone_wmarks n w = (case w of WMARK_MIN \<Rightarrow> n div 64 | WMARK_LOW \<Rightarrow> n div 32 | WMARK_HIGH \<Rightarrow> n div 16)"

definition setup_per_zone_wmarks :: "'a mm_state_scheme \<Rightarrow> 'a mm_state_scheme" where
  "setup_per_zone_wmarks s =
     upd_zone ZONE_NORMAL (\<lambda>z. z\<lparr>watermark := zone_wmarks (managed_pages z)\<rparr>)
       (upd_zone ZONE_DMA (\<lambda>z. z\<lparr>watermark := zone_wmarks (managed_pages z)\<rparr>) s)"

text \<open>
  \<open>init_zones\<close>: \<open>mem_map\<close> comes from the boot allocator, 32 bytes a page on this target, and
  starts with every page reserved.  The result is None only if \<open>bootmem_alloc\<close> does not return.
\<close>

definition zero_page :: page where
  "zero_page = \<lparr>pg_flags = 0, refcount = 0, pg_order = 0, mapcount = 0, map_mm = None, map_vaddr = 0,
     rmap_list = []\<rparr>"

definition init_zone :: "zone_type \<Rightarrow> nat \<Rightarrow> nat \<Rightarrow> nat \<Rightarrow> zone \<Rightarrow> zone" where
  "init_zone t start spanned present z =
     z\<lparr>ztype := t, start_pfn := start, spanned_pages := spanned, present_pages := present,
       managed_pages := present, watermark := zone_wmarks spanned,
       free_area := (\<lambda>i. if i < MAX_ORDER then \<lparr>free_list = -1, nr_free = 0\<rparr> else free_area z i),
       inactive_list := [], nr_inactive := 0\<rparr>"

definition init_zones :: "'a mm_state_scheme \<Rightarrow> 'a mm_state_scheme option" where
  "init_zones s =
     (let total = bm_total_pages (bootmem s)
      in if total = 0 then Some s
         else
           let s1 = s\<lparr>mem_map_pages := unat total\<rparr>
           in case bootmem_alloc (32 * total) PAGE_SIZE (bootmem s1) of
                None \<Rightarrow> None
              | Some (mem_map_phys, bm) \<Rightarrow>
                  let s2 = s1\<lparr>bootmem := bm\<rparr>
                  in if mem_map_phys = 0 then Some s2
                     else
                       let dma_pages = (if total > of_nat MAX_DMA_PFN then of_nat MAX_DMA_PFN else total);
                           dma_present = bootmem_present_pages bm 0 dma_pages;
                           normal_present = bootmem_present_pages bm dma_pages total
                       in Some (s2\<lparr>mem_map_set := True,
                            mem_map := (\<lambda>i. if i < unat total then zero_page\<lparr>pg_flags := PG_RESERVED\<rparr>
                                            else mem_map s2 i),
                            node_spanned_pages := unat total,
                            node_present_pages := unat (bootmem_present_pages bm 0 total),
                            zone_dma := init_zone ZONE_DMA 0 (unat dma_pages) (unat dma_present) (zone_dma s2),
                            zone_normal := init_zone ZONE_NORMAL (unat dma_pages)
                              (unat (total - dma_pages)) (unat normal_present) (zone_normal s2)\<rparr>))"

subsection \<open>The inactive list\<close>

definition lru_add_inactive :: "nat option \<Rightarrow> 'a mm_state_scheme \<Rightarrow> 'a mm_state_scheme" where
  "lru_add_inactive pg s =
     (case pg of None \<Rightarrow> s
      | Some p \<Rightarrow>
          if has_flag (pg_flags (mem_map s p)) (PG_BUDDY OR PG_RESERVED OR PG_LRU OR PG_ISOLATED)
          then s
          else case pfn_to_zone s (page_to_pfn s pg) of
                 None \<Rightarrow> s
               | Some z \<Rightarrow>
                   upd_page p (\<lambda>q. q\<lparr>pg_flags := set_flag (pg_flags q) PG_LRU\<rparr>)
                     (upd_zone z (\<lambda>zn. zn\<lparr>inactive_list := inactive_list zn @ [p],
                                          nr_inactive := nr_inactive zn + 1\<rparr>) s))"

definition lru_del :: "nat option \<Rightarrow> 'a mm_state_scheme \<Rightarrow> 'a mm_state_scheme" where
  "lru_del pg s =
     (case pg of None \<Rightarrow> s
      | Some p \<Rightarrow>
          if \<not> has_flag (pg_flags (mem_map s p)) PG_LRU then s
          else upd_page p (\<lambda>q. q\<lparr>pg_flags := clear_flag (pg_flags q) PG_LRU\<rparr>)
                 (case pfn_to_zone s (page_to_pfn s pg) of
                    None \<Rightarrow> s
                  | Some z \<Rightarrow> upd_zone z (\<lambda>zn. zn\<lparr>nr_inactive := nr_inactive zn - 1,
                                                 inactive_list := remove1 p (inactive_list zn)\<rparr>) s))"


subsection \<open>Selectors of updated states\<close>

lemma get_zone_upd_zone [simp]:
  "get_zone z (upd_zone z' f s) = (if z = z' then f (get_zone z s) else get_zone z s)"
  by (cases z; cases z') auto

lemma upd_zone_sel [simp]:
  "mem_map (upd_zone z f s) = mem_map s" "mem_map_set (upd_zone z f s) = mem_map_set s"
  "mem_map_pages (upd_zone z f s) = mem_map_pages s" "buddy_next (upd_zone z f s) = buddy_next s"
  "buddy_max_order (upd_zone z f s) = buddy_max_order s" "buddy_ready (upd_zone z f s) = buddy_ready s"
  "total_pages (upd_zone z f s) = total_pages s" "contig_zonelist (upd_zone z f s) = contig_zonelist s"
  "dma_zonelist (upd_zone z f s) = dma_zonelist s" "bootmem (upd_zone z f s) = bootmem s"
  by (cases z; simp)+

lemma upd_page_sel [simp]:
  "get_zone z (upd_page p g s) = get_zone z s" "mem_map_set (upd_page p g s) = mem_map_set s"
  "mem_map_pages (upd_page p g s) = mem_map_pages s" "buddy_next (upd_page p g s) = buddy_next s"
  "buddy_max_order (upd_page p g s) = buddy_max_order s" "buddy_ready (upd_page p g s) = buddy_ready s"
  "total_pages (upd_page p g s) = total_pages s" "contig_zonelist (upd_page p g s) = contig_zonelist s"
  "dma_zonelist (upd_page p g s) = dma_zonelist s" "bootmem (upd_page p g s) = bootmem s"
  "zone_dma (upd_page p g s) = zone_dma s" "zone_normal (upd_page p g s) = zone_normal s"
  by (cases z; simp add: upd_page_def)+

lemma mem_map_upd_page [simp]:
  "mem_map (upd_page p g s) q = (if q = p then g (mem_map s p) else mem_map s q)"
  by (simp add: upd_page_def)

lemma get_zone_buddy_next [simp]: "get_zone z (s\<lparr>buddy_next := n\<rparr>) = get_zone z s"
  by (cases z) auto

end
