(* ===== verification/Buddy.thy ===== *)
theory Buddy
  imports Mmzone
begin

text \<open>
  The buddy allocator \<open>mm/page_alloc.c\<close>.  Free blocks of each order hang on a singly linked
  list per zone, threaded through the array \<open>buddy_next\<close>; the head page of a free block carries
  the flag \<open>PG_BUDDY\<close> and its order.  The walk of \<open>buddy_list_remove\<close> would not end on a cyclic
  list, so it is a partial function and the operations that call it return an option.
\<close>

subsection \<open>Free lists\<close>

text \<open>\<open>nr_free << order\<close> summed over the orders below \<open>MAX_ORDER\<close>.\<close>

definition zone_free_pages :: "zone_type option \<Rightarrow> 'a mm_state_scheme \<Rightarrow> nat" where
  "zone_free_pages zp s =
     (case zp of None \<Rightarrow> 0
      | Some z \<Rightarrow> \<Sum>order \<leftarrow> [0..<MAX_ORDER]. nr_free (free_area (get_zone z s) order) * 2 ^ order)"

definition upd_area :: "zone_type \<Rightarrow> nat \<Rightarrow> (free_area_t \<Rightarrow> free_area_t) \<Rightarrow> 'a mm_state_scheme \<Rightarrow> 'a mm_state_scheme" where
  "upd_area z order f =
     upd_zone z (\<lambda>zn. zn\<lparr>free_area := (free_area zn)(order := f (free_area zn order))\<rparr>)"

definition set_buddy :: "nat \<Rightarrow> nat \<Rightarrow> 'a mm_state_scheme \<Rightarrow> 'a mm_state_scheme" where
  "set_buddy page order s =
     (case pfn_to_page s page of None \<Rightarrow> s
      | Some p \<Rightarrow> upd_page p (\<lambda>q. q\<lparr>pg_flags := set_flag (pg_flags q) PG_BUDDY, pg_order := order\<rparr>) s)"

definition clear_buddy :: "nat \<Rightarrow> 'a mm_state_scheme \<Rightarrow> 'a mm_state_scheme" where
  "clear_buddy page s =
     (case pfn_to_page s page of None \<Rightarrow> s
      | Some p \<Rightarrow> upd_page p (\<lambda>q. q\<lparr>pg_flags := clear_flag (pg_flags q) PG_BUDDY\<rparr>) s)"

definition buddy_list_add :: "zone_type option \<Rightarrow> nat \<Rightarrow> nat \<Rightarrow> 'a mm_state_scheme \<Rightarrow> 'a mm_state_scheme" where
  "buddy_list_add zp order page s =
     (case zp of None \<Rightarrow> s
      | Some z \<Rightarrow>
          if page = 0 then s
          else
            let s1 = s\<lparr>buddy_next := (buddy_next s)(page := free_list (free_area (get_zone z s) order))\<rparr>;
                s2 = upd_area z order (\<lambda>a. a\<lparr>free_list := int page, nr_free := nr_free a + 1\<rparr>) s1
            in set_buddy page order s2)"

text \<open>The body of the removal once the page is found at \<open>cur\<close>.\<close>

definition buddy_unlink :: "zone_type \<Rightarrow> nat \<Rightarrow> int \<Rightarrow> nat \<Rightarrow> 'a mm_state_scheme \<Rightarrow> 'a mm_state_scheme" where
  "buddy_unlink z order prev cur s =
     (let nxt = buddy_next s cur;
          s1 = (if prev < 0 then upd_area z order (\<lambda>a. a\<lparr>free_list := nxt\<rparr>) s
                else s\<lparr>buddy_next := (buddy_next s)(nat prev := nxt)\<rparr>);
          s2 = s1\<lparr>buddy_next := (buddy_next s1)(cur := -1)\<rparr>;
          s3 = upd_area z order (\<lambda>a. a\<lparr>nr_free := nr_free a - 1\<rparr>) s2
      in clear_buddy cur s3)"

partial_function (option) buddy_remove_loop ::
  "zone_type \<Rightarrow> nat \<Rightarrow> nat \<Rightarrow> int \<Rightarrow> int \<Rightarrow> 'a mm_state_scheme \<Rightarrow> 'a mm_state_scheme option" where
  "buddy_remove_loop z order page prev cur s =
     (if cur \<ge> 0 then
        if cur = int page then Some (buddy_unlink z order prev page s)
        else buddy_remove_loop z order page cur (buddy_next s (nat cur)) s
      else Some s)"

definition buddy_list_remove ::
  "zone_type option \<Rightarrow> nat \<Rightarrow> nat \<Rightarrow> 'a mm_state_scheme \<Rightarrow> 'a mm_state_scheme option" where
  "buddy_list_remove zp order page s =
     (case zp of None \<Rightarrow> Some s
      | Some z \<Rightarrow> buddy_remove_loop z order page (-1) (free_list (free_area (get_zone z s) order)) s)"

subsection \<open>Allocating and freeing blocks\<close>

text \<open>Taking the first page off a free list.\<close>

definition buddy_pop :: "zone_type \<Rightarrow> nat \<Rightarrow> nat \<Rightarrow> 'a mm_state_scheme \<Rightarrow> 'a mm_state_scheme" where
  "buddy_pop z order page s =
     (let s1 = upd_area z order (\<lambda>a. a\<lparr>free_list := buddy_next s page, nr_free := nr_free a - 1\<rparr>) s;
          s2 = s1\<lparr>buddy_next := (buddy_next s1)(page := -1)\<rparr>
      in clear_buddy page s2)"

text \<open>The loop \<open>while (o > order)\<close> that gives the upper halves back.\<close>

fun buddy_split :: "zone_type option \<Rightarrow> nat \<Rightarrow> nat \<Rightarrow> nat \<Rightarrow> 'a mm_state_scheme \<Rightarrow> 'a mm_state_scheme" where
  "buddy_split zp page order 0 s = s"
| "buddy_split zp page order (Suc o') s =
     (if Suc o' > order
      then buddy_split zp page order o' (buddy_list_add zp o' (page + 2 ^ o') s) else s)"

text \<open>The loop over the orders, given as the list of the orders still to try.\<close>

fun buddy_alloc_scan :: "zone_type option \<Rightarrow> nat \<Rightarrow> nat list \<Rightarrow> 'a mm_state_scheme \<Rightarrow> int \<times> 'a mm_state_scheme" where
  "buddy_alloc_scan zp order [] s = (-1, s)"
| "buddy_alloc_scan zp order (k # ks) s =
     (case zp of None \<Rightarrow> (-1, s)
      | Some z \<Rightarrow>
          let page = free_list (free_area (get_zone z s) k)
          in if page < 0 then buddy_alloc_scan zp order ks s
             else if page = 0 then buddy_alloc_scan zp order ks (buddy_pop z k 0 s)
             else
               let s1 = buddy_split zp (nat page) order k (buddy_pop z k (nat page) s);
                   s2 = (case pfn_to_page s1 (nat page) of None \<Rightarrow> s1
                         | Some p \<Rightarrow> upd_page p (\<lambda>q. q\<lparr>pg_flags := clear_flag (pg_flags q) PG_BUDDY,
                                                      pg_order := order\<rparr>) s1)
               in (page, s2))"

definition buddy_alloc :: "zone_type option \<Rightarrow> nat \<Rightarrow> 'a mm_state_scheme \<Rightarrow> int \<times> 'a mm_state_scheme" where
  "buddy_alloc zp order s = buddy_alloc_scan zp order [order..<Suc (buddy_max_order s)] s"

text \<open>
  The merging loop of \<open>buddy_free_block\<close>; the first argument is the number of iterations left,
  \<open>buddy_max_order - order\<close>.
\<close>

fun buddy_merge ::
  "nat \<Rightarrow> zone_type \<Rightarrow> nat \<Rightarrow> nat \<Rightarrow> nat \<Rightarrow> 'a mm_state_scheme \<Rightarrow> (nat \<times> nat \<times> 'a mm_state_scheme) option" where
  "buddy_merge 0 z zone_end page order s = Some (page, order, s)"
| "buddy_merge (Suc left) z zone_end page order s =
     (let buddy = page XOR 2 ^ order
      in if buddy < start_pfn (get_zone z s) \<or> buddy \<ge> zone_end then Some (page, order, s)
         else
           let new_base = (if buddy < page then buddy else page)
           in if new_base + 2 ^ (order + 1) > zone_end then Some (page, order, s)
              else case pfn_to_page s buddy of
                     None \<Rightarrow> Some (page, order, s)
                   | Some p \<Rightarrow>
                       if \<not> has_flag (pg_flags (mem_map s p)) PG_BUDDY \<or> pg_order (mem_map s p) \<noteq> order
                       then Some (page, order, s)
                       else case buddy_list_remove (Some z) order buddy s of
                              None \<Rightarrow> None
                            | Some s' \<Rightarrow> buddy_merge left z zone_end new_base (order + 1) s')"

fun buddy_trim :: "nat \<Rightarrow> nat \<Rightarrow> nat \<Rightarrow> nat" where
  "buddy_trim zone_end page 0 = 0"
| "buddy_trim zone_end page (Suc order) =
     (if page + 2 ^ Suc order > zone_end then buddy_trim zone_end page order else Suc order)"

definition buddy_free_block :: "zone_type option \<Rightarrow> nat \<Rightarrow> nat \<Rightarrow> 'a mm_state_scheme \<Rightarrow> 'a mm_state_scheme option" where
  "buddy_free_block zp page order s =
     (case zp of None \<Rightarrow> Some s
      | Some z \<Rightarrow>
          let zone_end = start_pfn (get_zone z s) + spanned_pages (get_zone z s)
          in case buddy_merge (buddy_max_order s - order) z zone_end page order s of
               None \<Rightarrow> None
             | Some (page', order', s') \<Rightarrow>
                 Some (buddy_list_add zp (buddy_trim zone_end page' order') page' s'))"

lemma nat_xor_pow2: "(p::nat) XOR 2 ^ k = (if odd (p div 2 ^ k) then p - 2 ^ k else p + 2 ^ k)"
proof -
  have "p XOR 2 ^ k = flip_bit k p" by (simp add: flip_bit_eq_xor push_bit_eq_mult)
  moreover have "unset_bit k p = p - 2 ^ k" if "bit p k"
  proof -
    have "set_bit k (unset_bit k p) = p" using that by (intro bit_eqI) (auto simp: bit_simps)
    then have "unset_bit k p + 2 ^ k = p" by (simp add: set_bit_eq bit_simps)
    then show ?thesis by simp
  qed
  ultimately show ?thesis
    by (simp add: flip_bit_eq_if set_bit_eq bit_iff_odd)
qed

lemma xor_buddy:
  assumes "2 ^ k dvd (p::nat)"
  obtains (low) "p XOR 2 ^ k = p + 2 ^ k" "2 ^ Suc k dvd p"
  | (high) "p XOR 2 ^ k = p - 2 ^ k" "2 ^ k \<le> p" "2 ^ Suc k dvd p - 2 ^ k" "p - 2 ^ k < p"
proof -
  obtain m where m: "p = 2 ^ k * m" using assms by (rule dvdE)
  then have d: "p div 2 ^ k = m" by simp
  show thesis
  proof (cases "odd m")
    case True
    then obtain j where j: "m = 2 * j + 1" by (rule oddE)
    then have "p - 2 ^ k = 2 ^ Suc k * j" "2 ^ k \<le> p" using m by (simp_all add: algebra_simps)
    moreover from this have "p - 2 ^ k < p" by (intro diff_less less_le_trans [of 0 "2 ^ k" p]) simp_all
    ultimately show thesis using high True d by (simp add: nat_xor_pow2)
  next
    case False
    then obtain j where "m = 2 * j" by (auto elim: evenE)
    then have "2 ^ Suc k dvd p" using m by simp
    then show thesis using low False d by (simp add: nat_xor_pow2)
  qed
qed

subsection \<open>The invariant\<close>

text \<open>
  \<open>is_free s p k\<close>: page \<open>p\<close> heads a free block of order \<open>k\<close>.  \<open>buddy_inv s F\<close> says that the
  lists of both zones are well linked and hold exactly the heads of the free blocks of their
  zone and order, that their lengths are counted by \<open>nr_free\<close>, and that free blocks are
  aligned, lie inside their zone and are pairwise disjoint; \<open>F z k\<close> is the list of zone \<open>z\<close> and order \<open>k\<close>.
\<close>

definition zone_end :: "zone_type \<Rightarrow> 'a mm_state_scheme \<Rightarrow> nat" where
  "zone_end z s = start_pfn (get_zone z s) + spanned_pages (get_zone z s)"

definition is_free :: "'a mm_state_scheme \<Rightarrow> nat \<Rightarrow> nat \<Rightarrow> bool" where
  "is_free s p k \<longleftrightarrow> p < mem_map_pages s \<and> has_flag (pg_flags (mem_map s p)) PG_BUDDY \<and>
     pg_order (mem_map s p) = k"

definition block :: "nat \<Rightarrow> nat \<Rightarrow> nat set" where
  "block p k = {p..<p + 2 ^ k}"

definition free_frames :: "'a mm_state_scheme \<Rightarrow> nat set" where
  "free_frames s = {f. \<exists>p k. is_free s p k \<and> f \<in> block p k}"

definition geometry :: "'a mm_state_scheme \<Rightarrow> bool" where
  "geometry s \<longleftrightarrow> mem_map_set s \<and> buddy_max_order s < MAX_ORDER \<and>
     (\<forall>z. zone_end z s \<le> mem_map_pages s) \<and>
     (\<forall>z p. p < mem_map_pages s \<longrightarrow>
        (pfn_to_zone s p = Some z \<longleftrightarrow> start_pfn (get_zone z s) \<le> p \<and> p < zone_end z s))"

text \<open>A block that may be given to the free lists of zone \<open>z\<close>.\<close>

definition block_ok :: "'a mm_state_scheme \<Rightarrow> zone_type \<Rightarrow> nat \<Rightarrow> nat \<Rightarrow> bool" where
  "block_ok s z p k \<longleftrightarrow> k \<le> buddy_max_order s \<and> 2 ^ k dvd p \<and> p \<noteq> 0 \<and>
     start_pfn (get_zone z s) \<le> p \<and> p + 2 ^ k \<le> zone_end z s"

definition buddy_inv :: "'a mm_state_scheme \<Rightarrow> (zone_type \<Rightarrow> nat \<Rightarrow> nat list) \<Rightarrow> bool" where
  "buddy_inv s F \<longleftrightarrow> geometry s \<and>
     (\<forall>z. \<forall>k < MAX_ORDER. chain (buddy_next s) (free_list (free_area (get_zone z s) k)) (F z k) \<and>
        distinct (F z k) \<and> nr_free (free_area (get_zone z s) k) = length (F z k)) \<and>
     (\<forall>z. \<forall>k < MAX_ORDER. \<forall>p. p \<in> set (F z k) \<longleftrightarrow> is_free s p k \<and> pfn_to_zone s p = Some z) \<and>
     (\<forall>z p k. is_free s p k \<and> pfn_to_zone s p = Some z \<longrightarrow> block_ok s z p k) \<and>
     (\<forall>p k q j. is_free s p k \<and> is_free s q j \<and> p \<noteq> q \<longrightarrow> block p k \<inter> block q j = {})"

lemma head_in_block [simp]: "p \<in> block p k"
  by (simp add: block_def)

lemma is_free_unique: "is_free s p k \<Longrightarrow> is_free s p j \<Longrightarrow> k = j"
  by (simp add: is_free_def)

lemma is_free_in_free_frames: "is_free s p k \<Longrightarrow> p \<in> free_frames s"
  unfolding free_frames_def using head_in_block by blast

lemma zone_cases: "\<exists>z. pfn_to_zone s p = Some z"
  by (simp add: pfn_to_zone_def)

lemma buddy_inv_geometry: "buddy_inv s F \<Longrightarrow> geometry s"
  by (simp add: buddy_inv_def)

lemma buddy_inv_lists:
  assumes "buddy_inv s F" "k < MAX_ORDER"
  shows "chain (buddy_next s) (free_list (free_area (get_zone z s) k)) (F z k)" "distinct (F z k)"
    "nr_free (free_area (get_zone z s) k) = length (F z k)"
    "p \<in> set (F z k) \<longleftrightarrow> is_free s p k \<and> pfn_to_zone s p = Some z"
  using assms by (simp_all add: buddy_inv_def)

lemma buddy_lists_unique:
  assumes "buddy_inv s F" "k < MAX_ORDER" "j < MAX_ORDER" "p \<in> set (F z k)" "p \<in> set (F z' j)"
  shows "z = z' \<and> k = j"
  using buddy_inv_lists(4) [OF assms(1,2), of p z] buddy_inv_lists(4) [OF assms(1,3), of p z'] assms(4,5)
  by (simp add: is_free_def)

lemma buddy_inv_block_ok:
  "buddy_inv s F \<Longrightarrow> is_free s p k \<Longrightarrow> pfn_to_zone s p = Some z \<Longrightarrow> block_ok s z p k"
  by (simp add: buddy_inv_def)

lemma buddy_inv_disjoint:
  "buddy_inv s F \<Longrightarrow> is_free s p k \<Longrightarrow> is_free s q j \<Longrightarrow> p \<noteq> q \<Longrightarrow> block p k \<inter> block q j = {}"
  by (simp add: buddy_inv_def)

lemma buddy_invI:
  assumes "geometry s"
    "\<And>z k. k < MAX_ORDER \<Longrightarrow> chain (buddy_next s) (free_list (free_area (get_zone z s) k)) (F z k)"
    "\<And>z k. k < MAX_ORDER \<Longrightarrow> distinct (F z k)"
    "\<And>z k. k < MAX_ORDER \<Longrightarrow> nr_free (free_area (get_zone z s) k) = length (F z k)"
    "\<And>z k p. k < MAX_ORDER \<Longrightarrow> p \<in> set (F z k) \<longleftrightarrow> is_free s p k \<and> pfn_to_zone s p = Some z"
    "\<And>z p k. is_free s p k \<Longrightarrow> pfn_to_zone s p = Some z \<Longrightarrow> block_ok s z p k"
    "\<And>p k q j. is_free s p k \<Longrightarrow> is_free s q j \<Longrightarrow> p \<noteq> q \<Longrightarrow> block p k \<inter> block q j = {}"
  shows "buddy_inv s F"
  using assms unfolding buddy_inv_def by blast

lemma geometry_zone:
  assumes "geometry s" "start_pfn (get_zone z s) \<le> f" "f < zone_end z s"
  shows "f < mem_map_pages s" "pfn_to_zone s f = Some z"
proof -
  show "f < mem_map_pages s" using assms(1,3) by (meson geometry_def less_le_trans)
  then show "pfn_to_zone s f = Some z" using assms by (simp add: geometry_def)
qed

lemma block_ok_zone:
  assumes "geometry s" "block_ok s z p k"
  shows "p < mem_map_pages s" "pfn_to_zone s p = Some z"
proof -
  have "p < p + 2 ^ k" by simp
  then have "start_pfn (get_zone z s) \<le> p" "p < zone_end z s"
    using assms(2) unfolding block_ok_def by linarith+
  then show "p < mem_map_pages s" "pfn_to_zone s p = Some z" by (rule geometry_zone [OF assms(1)])+
qed

text \<open>Only the zone lists, the links and the two buddy fields of pages matter to the invariant.\<close>

definition same_shape :: "'a mm_state_scheme \<Rightarrow> 'a mm_state_scheme \<Rightarrow> bool" where
  "same_shape s s' \<longleftrightarrow> mem_map_set s' = mem_map_set s \<and> mem_map_pages s' = mem_map_pages s \<and>
     buddy_max_order s' = buddy_max_order s \<and>
     (\<forall>z. start_pfn (get_zone z s') = start_pfn (get_zone z s) \<and>
          spanned_pages (get_zone z s') = spanned_pages (get_zone z s))"

lemma same_shape_refl [simp]: "same_shape s s"
  by (simp add: same_shape_def)

lemma same_shape_trans: "same_shape s t \<Longrightarrow> same_shape t u \<Longrightarrow> same_shape s u"
  by (simp add: same_shape_def)

lemma same_shapeD:
  assumes "same_shape s s'"
  shows "zone_end z s' = zone_end z s" "pfn_to_zone s' = pfn_to_zone s"
    "geometry s' = geometry s" "block_ok s' = block_ok s" "buddy_max_order s' = buddy_max_order s"
    "mem_map_pages s' = mem_map_pages s" "pfn_to_page s' = pfn_to_page s"
    "start_pfn (get_zone z s') = start_pfn (get_zone z s)"
proof -
  have "spanned_pages (zone_dma s') = spanned_pages (zone_dma s)"
    using assms by (auto simp: same_shape_def dest: spec [of _ ZONE_DMA])
  then show p: "pfn_to_zone s' = pfn_to_zone s" by (simp add: fun_eq_iff pfn_to_zone_def)
  show e: "zone_end z s' = zone_end z s" for z using assms by (simp add: same_shape_def zone_end_def)
  show "geometry s' = geometry s" using assms by (simp add: geometry_def p e same_shape_def)
  show "block_ok s' = block_ok s" using assms by (simp add: fun_eq_iff block_ok_def e same_shape_def)
qed (use assms in \<open>simp_all add: same_shape_def fun_eq_iff pfn_to_page_def\<close>)


subsection \<open>Effect of the list primitives\<close>

lemma free_area_upd_area [simp]:
  "free_area (get_zone z' (upd_area z k f s)) k' =
     (if z' = z \<and> k' = k then f (free_area (get_zone z s) k) else free_area (get_zone z' s) k')"
  by (simp add: upd_area_def)

lemma upd_area_sel [simp]:
  "mem_map (upd_area z k f s) = mem_map s" "buddy_next (upd_area z k f s) = buddy_next s"
  "mem_map_pages (upd_area z k f s) = mem_map_pages s"
  "pfn_to_page (upd_area z k f s) = pfn_to_page s"
  by (simp_all add: upd_area_def fun_eq_iff pfn_to_page_def)

lemma same_shape_upd_area [simp]: "same_shape s (upd_area z k f t) = same_shape s t"
  by (auto simp: same_shape_def upd_area_def)

lemma same_shape_buddy_next [simp]: "same_shape s (t\<lparr>buddy_next := n\<rparr>) = same_shape s t"
  by (simp add: same_shape_def)

lemma same_shape_upd_page [simp]: "same_shape s (upd_page p f t) = same_shape s t"
  by (simp add: same_shape_def)

lemma pfn_to_page_sel [simp]:
  "pfn_to_page (t\<lparr>buddy_next := n\<rparr>) = pfn_to_page t" "pfn_to_page (upd_page p f t) = pfn_to_page t"
  by (simp_all add: fun_eq_iff pfn_to_page_def)

lemma pfn_to_page_Some: "geometry s \<Longrightarrow> p < mem_map_pages s \<Longrightarrow> pfn_to_page s p = Some p"
  by (simp add: geometry_def pfn_to_page_def)

lemma PG_BUDDY_ne_0 [simp]: "PG_BUDDY \<noteq> 0"
  by (simp add: PG_BUDDY_def)

text \<open>
  The two ways a list primitive changes the state, as seen by the invariant: \<open>adds_block\<close>
  links a new head, \<open>drops_block\<close> takes one out.
\<close>

definition adds_block :: "zone_type \<Rightarrow> nat \<Rightarrow> nat \<Rightarrow> 'a mm_state_scheme \<Rightarrow> 'a mm_state_scheme \<Rightarrow> bool" where
  "adds_block z k p s s' \<longleftrightarrow> same_shape s s' \<and>
     buddy_next s' = (buddy_next s)(p := free_list (free_area (get_zone z s) k)) \<and>
     (\<forall>z' k'. free_area (get_zone z' s') k' =
        (if z' = z \<and> k' = k
         then (free_area (get_zone z s) k)\<lparr>free_list := int p, nr_free := nr_free (free_area (get_zone z s) k) + 1\<rparr>
         else free_area (get_zone z' s) k')) \<and>
     (\<forall>q j. is_free s' q j \<longleftrightarrow> (if q = p then j = k else is_free s q j))"

lemma buddy_list_add_effect:
  assumes "geometry s" "block_ok s z p k"
  shows "adds_block z k p s (buddy_list_add (Some z) k p s)"
proof -
  have p: "p < mem_map_pages s" "p \<noteq> 0" using assms block_ok_zone by (auto simp: block_ok_def)
  note pp = pfn_to_page_Some [OF assms(1) p(1)]
  show ?thesis
    using p
    by (auto simp: adds_block_def buddy_list_add_def Let_def set_buddy_def pp is_free_def has_flag_set)
qed

lemma adds_block_inv:
  assumes inv: "buddy_inv s F" and ok: "block_ok s z p k" and dis: "block p k \<inter> free_frames s = {}"
    and ab: "adds_block z k p s s'"
  shows "buddy_inv s' (F(z := (F z)(k := p # F z k)))"
    "free_frames s' = free_frames s \<union> block p k"
proof -
  have ss: "same_shape s s'" using ab by (simp add: adds_block_def)
  note sh = same_shapeD [OF ss]
  have g: "geometry s" using inv by (rule buddy_inv_geometry)
  have k: "k < MAX_ORDER" using ok g by (simp add: block_ok_def geometry_def)
  have nf: "\<not> is_free s p j" for j
    using dis by (metis disjoint_iff head_in_block is_free_in_free_frames)
  then have fr: "is_free s' q j \<longleftrightarrow> is_free s q j \<or> q = p \<and> j = k" for q j
    using ab by (auto simp: adds_block_def)
  have notin: "p \<notin> set (F z' k')" if "k' < MAX_ORDER" for z' k'
    using buddy_inv_lists(4) [OF inv that] nf by simp
  show "free_frames s' = free_frames s \<union> block p k"
    by (auto simp: free_frames_def fr)
  have far: "block q j \<inter> block p k = {}" if "is_free s q j" for q j
    using dis that by (auto simp: free_frames_def)
  show "buddy_inv s' (F(z := (F z)(k := p # F z k)))"
  proof (rule buddy_invI)
    fix z' k' assume k': "k' < MAX_ORDER"
    show "chain (buddy_next s') (free_list (free_area (get_zone z' s') k'))
        ((F(z := (F z)(k := p # F z k))) z' k')"
      using ab notin [OF k'] buddy_inv_lists(1) [OF inv k', of z']
      by (auto simp: adds_block_def chain_upd)
    show "distinct ((F(z := (F z)(k := p # F z k))) z' k')"
      using notin [OF k'] buddy_inv_lists(2) [OF inv k', of z'] by auto
    show "nr_free (free_area (get_zone z' s') k') = length ((F(z := (F z)(k := p # F z k))) z' k')"
      using ab buddy_inv_lists(3) [OF inv k', of z'] by (auto simp: adds_block_def)
    show "q \<in> set ((F(z := (F z)(k := p # F z k))) z' k') \<longleftrightarrow>
        is_free s' q k' \<and> pfn_to_zone s' q = Some z'" for q
      using buddy_inv_lists(4) [OF inv k', of q z'] block_ok_zone [OF g ok] by (auto simp: fr sh)
  next
    show "geometry s'" using g sh by simp
    show "block_ok s' z' q j" if "is_free s' q j" "pfn_to_zone s' q = Some z'" for z' q j
      using that ok block_ok_zone [OF g ok] buddy_inv_block_ok [OF inv, of q j z'] by (auto simp: fr sh)
    show "block q j \<inter> block r i = {}" if "is_free s' q j" "is_free s' r i" "q \<noteq> r" for q j r i
      using that far [of q j] far [of r i] buddy_inv_disjoint [OF inv, of q j r i]
      by (auto simp: fr Int_commute)
  qed
qed


lemma chain_cong: "\<forall>q \<in> set xs. n q = m q \<Longrightarrow> chain n c xs = chain m c xs"
  by (induction xs arbitrary: c) auto

definition drops_block ::
  "zone_type \<Rightarrow> nat \<Rightarrow> nat \<Rightarrow> nat list \<Rightarrow> nat list \<Rightarrow> 'a mm_state_scheme \<Rightarrow> 'a mm_state_scheme \<Rightarrow> bool" where
  "drops_block z k p xs ys s s' \<longleftrightarrow> same_shape s s' \<and>
     chain (buddy_next s') (free_list (free_area (get_zone z s') k)) (xs @ ys) \<and>
     (\<forall>q. q \<notin> set (xs @ [p]) \<longrightarrow> buddy_next s' q = buddy_next s q) \<and>
     nr_free (free_area (get_zone z s') k) = nr_free (free_area (get_zone z s) k) - 1 \<and>
     (\<forall>z' k'. (z', k') \<noteq> (z, k) \<longrightarrow> free_area (get_zone z' s') k' = free_area (get_zone z' s) k') \<and>
     (\<forall>q j. is_free s' q j \<longleftrightarrow> is_free s q j \<and> q \<noteq> p)"

lemma clear_buddy_sel [simp]:
  "get_zone z (clear_buddy p s) = get_zone z s" "buddy_next (clear_buddy p s) = buddy_next s"
  "same_shape t (clear_buddy p s) = same_shape t s"
  by (simp_all add: clear_buddy_def split: option.splits)

lemma is_free_clear_buddy:
  assumes "geometry s" "same_shape s t" "mem_map t = mem_map s"
  shows "is_free (clear_buddy p t) q j \<longleftrightarrow> is_free s q j \<and> q \<noteq> p"
proof -
  note sh = same_shapeD [OF assms(2)]
  show ?thesis
    using assms(1,3) pfn_to_page_Some [OF assms(1), of p]
    by (auto simp: clear_buddy_def is_free_def sh has_flag_clear pfn_to_page_def split: option.splits)
qed

lemma buddy_unlink_effect:
  assumes g: "geometry s" and ch: "chain (buddy_next s) (free_list (free_area (get_zone z s) k)) (xs @ p # ys)"
    and d: "distinct (xs @ p # ys)"
    and prev: "prev = (if xs = [] then -1 else int (last xs))"
  shows "drops_block z k p xs ys s (buddy_unlink z k prev p s)"
proof -
  let ?n = "buddy_next s" and ?c = "free_list (free_area (get_zone z s) k)"
  define s1 where "s1 = (if prev < 0 then upd_area z k (\<lambda>a. a\<lparr>free_list := ?n p\<rparr>) s
      else s\<lparr>buddy_next := ?n(nat prev := ?n p)\<rparr>)"
  define s3 where "s3 = upd_area z k (\<lambda>a. a\<lparr>nr_free := nr_free a - 1\<rparr>)
      (s1\<lparr>buddy_next := (buddy_next s1)(p := -1)\<rparr>)"
  have u: "buddy_unlink z k prev p s = clear_buddy p s3"
    by (simp add: buddy_unlink_def s1_def s3_def Let_def)
  have ss: "same_shape s s3" "mem_map s3 = mem_map s" by (auto simp: s3_def s1_def)
  have n1: "buddy_next s1 = (if xs = [] then ?n else ?n(last xs := ?n p))"
    "free_list (free_area (get_zone z s1) k) = (if xs = [] then ?n p else ?c)"
    by (simp_all add: s1_def prev)
  have "chain (buddy_next s1) (free_list (free_area (get_zone z s1) k)) (xs @ ys)"
    unfolding n1 by (rule chain_unlink [OF ch d])
  moreover have "p \<notin> set (xs @ ys)" using d by auto
  ultimately have "chain (buddy_next s3) (free_list (free_area (get_zone z s3) k)) (xs @ ys)"
    by (simp add: s3_def chain_upd del: append_is_Nil_conv)
  moreover have "buddy_next s3 q = ?n q" if "q \<notin> set (xs @ [p])" for q
    using that by (auto simp: s3_def n1)
  moreover have "nr_free (free_area (get_zone z s3) k) = nr_free (free_area (get_zone z s) k) - 1"
    by (simp add: s3_def s1_def)
  moreover have "free_area (get_zone z' s3) k' = free_area (get_zone z' s) k'" if "(z', k') \<noteq> (z, k)" for z' k'
    using that by (auto simp: s3_def s1_def)
  ultimately show ?thesis
    unfolding u drops_block_def using ss by (auto simp: is_free_clear_buddy [OF g ss])
qed

lemma buddy_pop_unlink: "buddy_pop z k p s = buddy_unlink z k (-1) p s"
  by (cases z; cases s) (simp_all add: buddy_pop_def buddy_unlink_def Let_def upd_area_def)


lemma drops_block_inv:
  assumes inv: "buddy_inv s F" and k: "k < MAX_ORDER" and F: "F z k = xs @ p # ys"
    and db: "drops_block z k p xs ys s s'"
  shows "buddy_inv s' (F(z := (F z)(k := xs @ ys)))"
    "free_frames s' = free_frames s - block p k" "is_free s p k" "block_ok s z p k"
proof -
  have ss: "same_shape s s'" using db by (simp add: drops_block_def)
  note sh = same_shapeD [OF ss]
  have fr: "is_free s' q j \<longleftrightarrow> is_free s q j \<and> q \<noteq> p" for q j using db by (simp add: drops_block_def)
  show pf: "is_free s p k" using buddy_inv_lists(4) [OF inv k, of p z] F by simp
  then show "block_ok s z p k"
    using buddy_inv_lists(4) [OF inv k, of p z] F buddy_inv_block_ok [OF inv] by simp
  show "free_frames s' = free_frames s - block p k"
  proof (intro equalityI subsetI)
    fix f assume "f \<in> free_frames s'"
    then show "f \<in> free_frames s - block p k"
      using buddy_inv_disjoint [OF inv _ pf] by (force simp: free_frames_def fr)
  next
    fix f assume "f \<in> free_frames s - block p k"
    then show "f \<in> free_frames s'" using is_free_unique [OF pf] by (force simp: free_frames_def fr)
  qed
  have other: "set (F z' k') \<inter> set (xs @ [p]) = {}" if "k' < MAX_ORDER" "(z', k') \<noteq> (z, k)" for z' k'
  proof (rule ccontr)
    assume "set (F z' k') \<inter> set (xs @ [p]) \<noteq> {}"
    then obtain q where "q \<in> set (F z' k')" "q \<in> set (F z k)" unfolding F by fastforce
    then show False using buddy_lists_unique [OF inv k that(1), of q z z'] that(2) by simp
  qed
  show "buddy_inv s' (F(z := (F z)(k := xs @ ys)))"
  proof (rule buddy_invI)
    fix z' k' assume k': "k' < MAX_ORDER"
    have "chain (buddy_next s') c (F z' k') = chain (buddy_next s) c (F z' k')"
      if "(z', k') \<noteq> (z, k)" for c
      using db other [OF k' that] by (intro chain_cong) (auto simp: drops_block_def)
    then show "chain (buddy_next s') (free_list (free_area (get_zone z' s') k'))
        ((F(z := (F z)(k := xs @ ys))) z' k')"
      using db buddy_inv_lists(1) [OF inv k', of z'] by (auto simp: drops_block_def)
    show "distinct ((F(z := (F z)(k := xs @ ys))) z' k')"
      using F buddy_inv_lists(2) [OF inv k', of z'] buddy_inv_lists(2) [OF inv k, of z] by auto
    show "nr_free (free_area (get_zone z' s') k') = length ((F(z := (F z)(k := xs @ ys))) z' k')"
      using db F buddy_inv_lists(3) [OF inv k', of z'] buddy_inv_lists(3) [OF inv k, of z]
      by (auto simp: drops_block_def)
    show "q \<in> set ((F(z := (F z)(k := xs @ ys))) z' k') \<longleftrightarrow>
        is_free s' q k' \<and> pfn_to_zone s' q = Some z'" for q
    proof -
      have "set (xs @ ys) = set (F z k) - {p}" using F buddy_inv_lists(2) [OF inv k, of z] by auto
      moreover have "p \<notin> set (F z' k')" if "(z', k') \<noteq> (z, k)" using other [OF k' that] by simp
      ultimately have "set ((F(z := (F z)(k := xs @ ys))) z' k') = set (F z' k') - {p}" by auto
      then show ?thesis using buddy_inv_lists(4) [OF inv k', of q z'] by (auto simp: fr sh)
    qed
  next
    show "geometry s'" using buddy_inv_geometry [OF inv] sh by simp
    show "block_ok s' z' q j" if "is_free s' q j" "pfn_to_zone s' q = Some z'" for z' q j
      using that buddy_inv_block_ok [OF inv, of q j z'] by (simp add: fr sh)
    show "block q j \<inter> block r i = {}" if "is_free s' q j" "is_free s' r i" "q \<noteq> r" for q j r i
      using that buddy_inv_disjoint [OF inv, of q j r i] by (simp add: fr)
  qed
qed

lemma buddy_remove_loop_finds:
  assumes "chain (buddy_next s) cur (xs @ p # ys)" "p \<notin> set xs"
  shows "buddy_remove_loop z k p prev cur s =
    Some (buddy_unlink z k (if xs = [] then prev else int (last xs)) p s)"
  using assms
proof (induction xs arbitrary: prev cur)
  case Nil
  then show ?case by (subst buddy_remove_loop.simps) simp
next
  case (Cons x xs)
  then have "cur = int x" "x \<noteq> p" "chain (buddy_next s) (buddy_next s x) (xs @ p # ys)" "p \<notin> set xs"
    by auto
  then show ?case using Cons.IH by (subst buddy_remove_loop.simps) auto
qed

lemma buddy_list_remove_correct:
  assumes inv: "buddy_inv s F" and k: "k < MAX_ORDER" and p: "p \<in> set (F z k)"
  obtains s' xs ys where "buddy_list_remove (Some z) k p s = Some s'" "F z k = xs @ p # ys"
    "drops_block z k p xs ys s s'"
proof -
  obtain xs ys where F: "F z k = xs @ p # ys" "p \<notin> set xs" using p by (meson split_list_first)
  note ch = buddy_inv_lists(1) [OF inv k, of z, unfolded F(1)]
  note d = buddy_inv_lists(2) [OF inv k, of z, unfolded F(1)]
  have "buddy_list_remove (Some z) k p s =
      Some (buddy_unlink z k (if xs = [] then -1 else int (last xs)) p s)"
    using buddy_remove_loop_finds [OF ch F(2)] by (simp add: buddy_list_remove_def)
  then show thesis
    using that F(1) buddy_unlink_effect [OF buddy_inv_geometry [OF inv] ch d refl] by blast
qed


subsection \<open>Splitting and allocating\<close>

lemma dvd_pow_le: "(2::nat) ^ k dvd p \<Longrightarrow> j \<le> k \<Longrightarrow> 2 ^ j dvd p"
  by (meson dvd_trans le_imp_power_dvd)

lemma block_ok_upper_half:
  assumes "block_ok s z p k" "o' < k"
  shows "block_ok s z (p + 2 ^ o') o'" "block (p + 2 ^ o') o' \<subseteq> block p k"
proof -
  have "(2::nat) ^ Suc o' \<le> 2 ^ k" using assms(2) by (intro power_increasing) auto
  then have le: "(2::nat) ^ o' + 2 ^ o' \<le> 2 ^ k" by simp
  have "2 ^ o' dvd p" using assms by (auto simp: block_ok_def intro: dvd_pow_le)
  then show "block_ok s z (p + 2 ^ o') o'" using assms le by (auto simp: block_ok_def)
  show "block (p + 2 ^ o') o' \<subseteq> block p k" using le by (auto simp: block_def)
qed

lemma buddy_split_correct:
  assumes "buddy_inv s F" "block_ok s z p k" "block p k \<inter> free_frames s = {}" "order \<le> k"
  shows "\<exists>F'. buddy_inv (buddy_split (Some z) p order k s) F' \<and>
    same_shape s (buddy_split (Some z) p order k s) \<and>
    free_frames (buddy_split (Some z) p order k s) = free_frames s \<union> {p + 2 ^ order..<p + 2 ^ k} \<and>
    (\<forall>q j. is_free (buddy_split (Some z) p order k s) q j \<longleftrightarrow>
       is_free s q j \<or> order \<le> j \<and> j < k \<and> q = p + 2 ^ j)"
  using assms
proof (induction k arbitrary: s F)
  case 0
  then show ?case by auto
next
  case (Suc k)
  show ?case
  proof (cases "Suc k > order")
    case False
    then show ?thesis using Suc.prems by auto
  next
    case True
    let ?s = "buddy_list_add (Some z) k (p + 2 ^ k) s"
    note up = block_ok_upper_half [OF Suc.prems(2) lessI]
    have dis: "block (p + 2 ^ k) k \<inter> free_frames s = {}" using up(2) Suc.prems(3) by blast
    note ab = buddy_list_add_effect [OF buddy_inv_geometry [OF Suc.prems(1)] up(1)]
    note inv' = adds_block_inv [OF Suc.prems(1) up(1) dis ab]
    have ss: "same_shape s ?s" using ab by (simp add: adds_block_def)
    have ok': "block_ok ?s z p k"
      using Suc.prems(2) dvd_pow_le [of "Suc k" p k] same_shapeD [OF ss] by (auto simp: block_ok_def)
    have "block p k \<inter> block (p + 2 ^ k) k = {}" "block p k \<subseteq> block p (Suc k)" by (auto simp: block_def)
    then have dis': "block p k \<inter> free_frames ?s = {}" unfolding inv'(2) using Suc.prems(3) by blast
    have "order \<le> k" using True by simp
    from Suc.IH [OF inv'(1) ok' dis' this] obtain F' where
      F': "buddy_inv (buddy_split (Some z) p order k ?s) F'" "same_shape ?s (buddy_split (Some z) p order k ?s)"
      "free_frames (buddy_split (Some z) p order k ?s) = free_frames ?s \<union> {p + 2 ^ order..<p + 2 ^ k}"
      "\<forall>q j. is_free (buddy_split (Some z) p order k ?s) q j \<longleftrightarrow>
         is_free ?s q j \<or> order \<le> j \<and> j < k \<and> q = p + 2 ^ j" by blast
    have nf: "\<not> is_free s (p + 2 ^ k) j" for j
      using dis by (metis disjoint_iff head_in_block is_free_in_free_frames)
    have fr: "is_free ?s q j \<longleftrightarrow> is_free s q j \<or> q = p + 2 ^ k \<and> j = k" for q j
      using ab nf by (auto simp: adds_block_def)
    have "(2::nat) ^ order \<le> 2 ^ k" using \<open>order \<le> k\<close> by (intro power_increasing) auto
    then have "{p + 2 ^ order..<p + 2 ^ k} \<union> {p + 2 ^ k..<p + 2 ^ Suc k} = {p + 2 ^ order..<p + 2 ^ Suc k}"
      by (intro ivl_disj_un_two(3)) simp_all
    then have "block (p + 2 ^ k) k \<union> {p + 2 ^ order..<p + 2 ^ k} = {p + 2 ^ order..<p + 2 ^ Suc k}"
      by (simp add: block_def Un_commute add.assoc mult_2)
    then have "free_frames (buddy_split (Some z) p order k ?s) =
        free_frames s \<union> {p + 2 ^ order..<p + 2 ^ Suc k}"
      unfolding F'(3) inv'(2) by blast
    moreover have "is_free (buddy_split (Some z) p order k ?s) q j \<longleftrightarrow>
        is_free s q j \<or> order \<le> j \<and> j < Suc k \<and> q = p + 2 ^ j" for q j
      using F'(4) fr \<open>order \<le> k\<close> by (auto simp: less_Suc_eq)
    ultimately show ?thesis using F'(1) True same_shape_trans [OF ss F'(2)] by auto
  qed
qed

text \<open>A page that heads no free block may have its other fields changed.\<close>

lemma buddy_inv_cong:
  assumes "buddy_inv s F" "same_shape s s'" "buddy_next s' = buddy_next s"
    "\<And>z k. free_area (get_zone z s') k = free_area (get_zone z s) k"
    "\<And>p k. is_free s' p k \<longleftrightarrow> is_free s p k"
  shows "buddy_inv s' F" "free_frames s' = free_frames s"
  using assms same_shapeD [OF assms(2)] by (simp_all add: buddy_inv_def free_frames_def)


lemma buddy_set_order:
  assumes inv: "buddy_inv s F" and nf: "\<forall>j. \<not> is_free s p j"
    and s': "s' = (case pfn_to_page s p of None \<Rightarrow> s
      | Some q \<Rightarrow> upd_page q (\<lambda>q. q\<lparr>pg_flags := clear_flag (pg_flags q) PG_BUDDY, pg_order := order\<rparr>) s)"
  shows "buddy_inv s' F" "free_frames s' = free_frames s" "same_shape s s'"
    "\<And>q j. is_free s' q j \<longleftrightarrow> is_free s q j"
proof -
  show ss: "same_shape s s'" by (simp add: s' split: option.splits)
  have nx: "buddy_next s' = buddy_next s" by (simp add: s' split: option.splits)
  have fa: "free_area (get_zone z s') k = free_area (get_zone z s) k" for z k
    by (simp add: s' split: option.splits)
  show fr: "is_free s' q j \<longleftrightarrow> is_free s q j" for q j
    using nf by (auto simp: s' is_free_def pfn_to_page_def has_flag_clear split: option.splits if_splits)
  show "buddy_inv s' F" "free_frames s' = free_frames s"
    using buddy_inv_cong [OF inv ss nx fa fr] by blast+
qed

text \<open>
  What taking a block of \<open>order\<close> from zone \<open>z\<close> means: \<open>p\<close> headed a free block at least that
  large, and exactly the frames of the block handed out stop being free.
\<close>

definition took_block :: "'a mm_state_scheme \<Rightarrow> zone_type \<Rightarrow> nat \<Rightarrow> nat \<Rightarrow> 'a mm_state_scheme \<Rightarrow> bool" where
  "took_block s z order p s' \<longleftrightarrow> (\<exists>F'. buddy_inv s' F') \<and> same_shape s s' \<and>
     (\<exists>k \<ge> order. is_free s p k \<and> block_ok s z p k \<and>
        (\<forall>q j. is_free s' q j \<longleftrightarrow> is_free s q j \<and> q \<noteq> p \<or> order \<le> j \<and> j < k \<and> q = p + 2 ^ j)) \<and>
     free_frames s' = free_frames s - block p order"

lemma buddy_take_head:
  assumes inv: "buddy_inv s F" and k: "order \<le> k" "k < MAX_ORDER" and F: "F z k = p # ys"
    and s1: "s1 = buddy_split (Some z) p order k (buddy_pop z k p s)"
    and s2: "s2 = (case pfn_to_page s1 p of None \<Rightarrow> s1
      | Some q \<Rightarrow> upd_page q (\<lambda>q. q\<lparr>pg_flags := clear_flag (pg_flags q) PG_BUDDY, pg_order := order\<rparr>) s1)"
  shows "took_block s z order p s2"
proof -
  let ?s0 = "buddy_pop z k p s"
  have db: "drops_block z k p [] ys s ?s0"
    unfolding buddy_pop_unlink using buddy_inv_lists(1,2) [OF inv k(2), of z] F
    by (intro buddy_unlink_effect [OF buddy_inv_geometry [OF inv]]) auto
  have d: "buddy_inv ?s0 (F(z := (F z)(k := ys)))" "free_frames ?s0 = free_frames s - block p k"
    "is_free s p k" "block_ok s z p k"
    using drops_block_inv [OF inv k(2), of z "[]" p ys ?s0] F db by auto
  have ss0: "same_shape s ?s0" using db by (simp add: drops_block_def)
  have ok0: "block_ok ?s0 z p k" using d(4) same_shapeD [OF ss0] by simp
  have "block p k \<inter> free_frames ?s0 = {}" using d(2) by blast
  from buddy_split_correct [OF d(1) ok0 this k(1)] obtain F' where
    F': "buddy_inv s1 F'" "same_shape ?s0 s1"
    "free_frames s1 = free_frames ?s0 \<union> {p + 2 ^ order..<p + 2 ^ k}"
    "\<forall>q j. is_free s1 q j \<longleftrightarrow> is_free ?s0 q j \<or> order \<le> j \<and> j < k \<and> q = p + 2 ^ j"
    unfolding s1 by blast
  have fr: "is_free s1 q j \<longleftrightarrow> is_free s q j \<and> q \<noteq> p \<or> order \<le> j \<and> j < k \<and> q = p + 2 ^ j" for q j
    using F'(4) db by (simp add: drops_block_def)
  have "\<forall>j. \<not> is_free s1 p j" by (simp add: fr)
  note so = buddy_set_order [OF F'(1) this s2]
  have "block p k \<subseteq> free_frames s" using d(3) by (auto simp: free_frames_def)
  moreover have "block p k - {p + 2 ^ order..<p + 2 ^ k} = block p order"
  proof -
    have "(2::nat) ^ order \<le> 2 ^ k" using k(1) by (intro power_increasing) auto
    then show ?thesis unfolding block_def by (auto simp del: power_increasing_iff)
  qed
  ultimately have "free_frames s2 = free_frames s - block p order"
    unfolding so(2) F'(3) d(2) block_def by auto
  then show ?thesis
    unfolding took_block_def
    using so same_shape_trans [OF ss0 same_shape_trans [OF F'(2) so(3)]] d(3,4) fr k(1) by auto
qed

lemma buddy_alloc_scan_correct:
  assumes inv: "buddy_inv s F" and ks: "\<forall>k \<in> set ks. order \<le> k \<and> k \<le> buddy_max_order s"
  shows "buddy_alloc_scan (Some z) order ks s = (-1, s) \<and> (\<forall>k \<in> set ks. F z k = []) \<or>
    (\<exists>p s'. buddy_alloc_scan (Some z) order ks s = (int p, s') \<and> took_block s z order p s')"
  using ks
proof (induction ks)
  case Nil
  then show ?case by simp
next
  case (Cons k ks)
  have k: "order \<le> k" "k < MAX_ORDER"
    using Cons.prems buddy_inv_geometry [OF inv] by (auto simp: geometry_def)
  show ?case
  proof (cases "F z k")
    case Nil
    have "free_list (free_area (get_zone z s) k) < 0" using buddy_inv_lists(1) [OF inv k(2), of z] Nil by simp
    then have "buddy_alloc_scan (Some z) order (k # ks) s = buddy_alloc_scan (Some z) order ks s" by simp
    then show ?thesis using Cons.IH Cons.prems Nil by simp
  next
    case F: (Cons p ys)
    have fl: "free_list (free_area (get_zone z s) k) = int p"
      using buddy_inv_lists(1) [OF inv k(2), of z] F by simp
    note t = buddy_take_head [OF inv k F refl refl]
    then have "p \<noteq> 0" by (auto simp: took_block_def block_ok_def)
    then show ?thesis using t fl by (simp add: Let_def)
  qed
qed

lemma buddy_alloc_correct:
  assumes inv: "buddy_inv s F"
  shows "buddy_alloc (Some z) order s = (-1, s) \<and>
      (\<forall>p k. is_free s p k \<and> order \<le> k \<longrightarrow> pfn_to_zone s p \<noteq> Some z) \<or>
    (\<exists>p s'. buddy_alloc (Some z) order s = (int p, s') \<and> took_block s z order p s')"
proof -
  have "is_free s p k \<Longrightarrow> pfn_to_zone s p = Some z \<Longrightarrow> k \<le> buddy_max_order s" for p k
    using buddy_inv_block_ok [OF inv] by (simp add: block_ok_def)
  moreover have "is_free s p k \<Longrightarrow> pfn_to_zone s p = Some z \<Longrightarrow> k \<le> buddy_max_order s \<Longrightarrow> F z k \<noteq> []" for p k
    using buddy_inv_lists(4) [OF inv, of k p z] buddy_inv_geometry [OF inv] by (auto simp: geometry_def)
  ultimately have none: "pfn_to_zone s p \<noteq> Some z"
    if "\<forall>k \<in> set [order..<Suc (buddy_max_order s)]. F z k = []" "is_free s p k" "order \<le> k" for p k
    using that by (metis atLeastLessThan_iff le_imp_less_Suc set_upt)
  show ?thesis
    using buddy_alloc_scan_correct [OF inv, of "[order..<Suc (buddy_max_order s)]" order z] none
    unfolding buddy_alloc_def by (metis atLeastLessThan_iff less_Suc_eq_le set_upt)
qed

subsection \<open>Merging and freeing\<close>

lemma buddy_geometry:
  assumes "2 ^ k dvd (p::nat)"
  defines "b \<equiv> p XOR 2 ^ k" and "nb \<equiv> if p XOR 2 ^ k < p then p XOR 2 ^ k else p"
  shows "2 ^ Suc k dvd nb" "block nb (Suc k) = block p k \<union> block b k" "nb = p \<or> nb = b"
    "nb + 2 ^ Suc k = p + 2 ^ k \<or> nb + 2 ^ Suc k = b + 2 ^ k"
proof -
  have "2 ^ Suc k dvd nb \<and> block nb (Suc k) = block p k \<union> block b k \<and> (nb = p \<or> nb = b) \<and>
      (nb + 2 ^ Suc k = p + 2 ^ k \<or> nb + 2 ^ Suc k = b + 2 ^ k)"
    using assms(1) by (cases rule: xor_buddy) (auto simp: b_def nb_def block_def)
  then show "2 ^ Suc k dvd nb" "block nb (Suc k) = block p k \<union> block b k" "nb = p \<or> nb = b"
    "nb + 2 ^ Suc k = p + 2 ^ k \<or> nb + 2 ^ Suc k = b + 2 ^ k" by blast+
qed

text \<open>
  Where the merging loop stops: \<open>p\<close> of order \<open>k\<close> is mergeable when its buddy heads a free
  block of the same order in the same zone.
\<close>

definition mergeable :: "'a mm_state_scheme \<Rightarrow> zone_type \<Rightarrow> nat \<Rightarrow> nat \<Rightarrow> bool" where
  "mergeable s z p k \<longleftrightarrow> k < buddy_max_order s \<and> is_free s (p XOR 2 ^ k) k \<and>
     pfn_to_zone s (p XOR 2 ^ k) = Some z"

definition merged :: "'a mm_state_scheme \<Rightarrow> zone_type \<Rightarrow> nat \<Rightarrow> nat \<Rightarrow> 'a mm_state_scheme \<Rightarrow> nat \<Rightarrow> nat \<Rightarrow> bool" where
  "merged s z p k s' p' k' \<longleftrightarrow> (\<exists>F'. buddy_inv s' F') \<and> same_shape s s' \<and> block_ok s z p' k' \<and>
     block p' k' \<inter> free_frames s' = {} \<and> free_frames s' \<union> block p' k' = free_frames s \<union> block p k \<and>
     \<not> mergeable s' z p' k' \<and> (\<forall>q j. is_free s' q j \<longrightarrow> is_free s q j)"

lemma buddy_merge_correct:
  assumes "buddy_inv s F" "block_ok s z p k" "block p k \<inter> free_frames s = {}"
    "n = buddy_max_order s - k"
  shows "\<exists>p' k' s'. buddy_merge n z (zone_end z s) p k s = Some (p', k', s') \<and> merged s z p k s' p' k'"
  using assms
proof (induction n arbitrary: p k s F)
  case 0
  then have "\<not> mergeable s z p k" by (simp add: mergeable_def)
  with 0 show ?case by (auto simp: merged_def)
next
  case (Suc n)
  note inv = Suc.prems(1) and ok = Suc.prems(2)
  have g: "geometry s" using inv by (rule buddy_inv_geometry)
  have k: "k < buddy_max_order s" "k < MAX_ORDER" using Suc.prems(4) g by (auto simp: geometry_def)
  have dv: "2 ^ k dvd p" using ok by (simp add: block_ok_def)
  let ?b = "p XOR 2 ^ k" and ?nb = "if p XOR 2 ^ k < p then p XOR 2 ^ k else p"
  note bg = buddy_geometry [OF dv]
  have stop: "\<exists>p' k' s'. Some (p, k, s) = Some (p', k', s') \<and> merged s z p k s' p' k'"
    if "\<not> mergeable s z p k" using Suc.prems that by (auto simp: merged_def)
  show ?case
  proof (cases "mergeable s z p k")
    case False
    have "buddy_merge (Suc n) z (zone_end z s) p k s = Some (p, k, s)"
    proof (cases "start_pfn (get_zone z s) \<le> ?b \<and> ?b < zone_end z s")
      case in_zone: True
      then have "?b < mem_map_pages s" using g by (meson geometry_def less_le_trans)
      moreover from this have "\<not> is_free s ?b k"
        using False in_zone k(1) g by (simp add: mergeable_def geometry_def)
      ultimately show ?thesis
        using in_zone pfn_to_page_Some [OF g, of ?b] by (simp add: Let_def is_free_def)
    next
      case out: False
      then show ?thesis by auto
    qed
    then show ?thesis using stop [OF False] by simp
  next
    case True
    then have bf: "is_free s ?b k" "pfn_to_zone s ?b = Some z" by (simp_all add: mergeable_def)
    then have bok: "block_ok s z ?b k" using buddy_inv_block_ok [OF inv] by blast
    have bF: "?b \<in> set (F z k)" using bf buddy_inv_lists(4) [OF inv k(2)] by blast
    obtain s1 xs ys where s1: "buddy_list_remove (Some z) k ?b s = Some s1" "F z k = xs @ ?b # ys"
      "drops_block z k ?b xs ys s s1"
      using buddy_list_remove_correct [OF inv k(2) bF] by blast
    note d = drops_block_inv [OF inv k(2) s1(2,3)]
    have ss: "same_shape s s1" using s1(3) by (simp add: drops_block_def)
    note sh = same_shapeD [OF ss]
    have nbe: "?nb + 2 ^ Suc k \<le> zone_end z s"
      using bg(4) ok bok unfolding block_ok_def by linarith
    have bz: "?b < zone_end z s" using bok less_le_trans [of ?b "?b + 2 ^ k"] by (simp add: block_ok_def)
    have nbok: "block_ok s z ?nb (Suc k)"
      using ok bok bg(1,3) nbe k(1) by (auto simp: block_ok_def)
    have step: "buddy_merge (Suc n) z (zone_end z s) p k s = buddy_merge n z (zone_end z s) ?nb (Suc k) s1"
      using bf bok bz nbe s1(1) pfn_to_page_Some [OF g, of ?b]
      by (auto simp: Let_def is_free_def block_ok_def)
    have dis1: "block ?nb (Suc k) \<inter> free_frames s1 = {}"
      unfolding bg(2) d(2) using Suc.prems(3) by blast
    have "block_ok s1 z ?nb (Suc k)" "n = buddy_max_order s1 - Suc k" using nbok Suc.prems(4) sh by simp_all
    from Suc.IH [OF d(1) this(1) dis1 this(2)] obtain p' k' s' where
      r: "buddy_merge n z (zone_end z s1) ?nb (Suc k) s1 = Some (p', k', s')"
      "merged s1 z ?nb (Suc k) s' p' k'" by blast
    have "free_frames s1 \<union> block ?nb (Suc k) = free_frames s \<union> block p k"
      unfolding d(2) bg(2) using d(3) by (auto simp: free_frames_def)
    then have "merged s z p k s' p' k'"
      using r(2) same_shape_trans [OF ss] sh s1(3) by (auto simp: merged_def drops_block_def)
    then show ?thesis using step r(1) sh by auto
  qed
qed


lemma buddy_trim_id: "p + 2 ^ k \<le> e \<Longrightarrow> buddy_trim e p k = k"
  by (cases k) auto

text \<open>
  \<open>coalesced s\<close>: no two buddies of one zone are both free and could still be merged.
\<close>

definition coalesced :: "'a mm_state_scheme \<Rightarrow> bool" where
  "coalesced s \<longleftrightarrow> (\<forall>p k z. is_free s p k \<and> pfn_to_zone s p = Some z \<longrightarrow> \<not> mergeable s z p k)"

lemma buddy_free_block_cases:
  assumes inv: "buddy_inv s F" and ok: "block_ok s z p k" and dis: "block p k \<inter> free_frames s = {}"
  obtains s1 p' k' s' F' where "buddy_free_block (Some z) p k s = Some s'" "merged s z p k s1 p' k'"
    "adds_block z k' p' s1 s'" "buddy_inv s' F'" "same_shape s s'"
    "free_frames s' = free_frames s \<union> block p k"
proof -
  obtain p' k' s1 where m: "buddy_merge (buddy_max_order s - k) z (zone_end z s) p k s = Some (p', k', s1)"
    "merged s z p k s1 p' k'"
    using buddy_merge_correct [OF inv ok dis refl] by blast
  from m(2) obtain F1 where inv1: "buddy_inv s1 F1" by (auto simp: merged_def)
  have ss: "same_shape s s1" using m(2) by (simp add: merged_def)
  note sh = same_shapeD [OF ss]
  have ok1: "block_ok s1 z p' k'" and dis1: "block p' k' \<inter> free_frames s1 = {}"
    and ff: "free_frames s1 \<union> block p' k' = free_frames s \<union> block p k"
    using m(2) sh by (simp_all add: merged_def)
  let ?s' = "buddy_list_add (Some z) k' p' s1"
  note ab = buddy_list_add_effect [OF buddy_inv_geometry [OF inv1] ok1]
  note r = adds_block_inv [OF inv1 ok1 dis1 ab]
  have "buddy_trim (zone_end z s) p' k' = k'"
    using ok1 sh by (intro buddy_trim_id) (simp add: block_ok_def)
  then have "buddy_free_block (Some z) p k s = Some ?s'"
    using m(1) by (simp add: buddy_free_block_def zone_end_def)
  moreover have "same_shape s ?s'" using ab same_shape_trans [OF ss] by (simp add: adds_block_def)
  ultimately show thesis using that m(2) ab r ff by blast
qed

lemma xor_involution: "((p::nat) XOR m) XOR m = p"
  by (simp add: xor.assoc)

lemma xor_pow2_neq: "(q::nat) XOR 2 ^ j \<noteq> q"
proof
  assume eq: "q XOR 2 ^ j = q"
  have "q XOR (q XOR 2 ^ j) = 2 ^ j" by (simp add: xor.assoc [symmetric])
  then show False by (simp add: eq)
qed

lemma coalesced_free:
  assumes inv: "buddy_inv s F" and co: "coalesced s"
    and m: "merged s z p k s1 p' k'" and ab: "adds_block z k' p' s1 s'"
  shows "coalesced s'"
proof -
  have ss: "same_shape s s1" "same_shape s1 s'" using m ab by (auto simp: merged_def adds_block_def)
  note sh = same_shapeD [OF ss(1)] same_shapeD [OF ss(2)]
  have ok: "block_ok s z p' k'" and nm: "\<not> mergeable s1 z p' k'" using m by (simp_all add: merged_def)
  have fr: "is_free s' q j \<longleftrightarrow> (if q = p' then j = k' else is_free s1 q j)" for q j
    using ab by (simp add: adds_block_def)
  have old: "is_free s1 q j \<Longrightarrow> is_free s q j" for q j using m by (simp add: merged_def)
  have zp: "pfn_to_zone s p' = Some z" using block_ok_zone [OF buddy_inv_geometry [OF inv] ok] by simp
  show ?thesis
    unfolding coalesced_def
  proof (intro allI impI, elim conjE)
    fix q j z' assume q: "is_free s' q j" "pfn_to_zone s' q = Some z'"
    show "\<not> mergeable s' z' q j"
    proof
      assume mg: "mergeable s' z' q j"
      then have b: "j < buddy_max_order s" "is_free s' (q XOR 2 ^ j) j" "pfn_to_zone s (q XOR 2 ^ j) = Some z'"
        by (simp_all add: mergeable_def sh)
      have z': "pfn_to_zone s q = Some z'" using q(2) sh by simp
      consider (head) "q = p'" | (buddy) "q \<noteq> p'" "q XOR 2 ^ j = p'" | (other) "q \<noteq> p'" "q XOR 2 ^ j \<noteq> p'"
        by blast
      then show False
      proof cases
        case head
        then have "j = k'" "z' = z" using q(1) zp z' by (simp_all add: fr)
        then have "mergeable s1 z p' k'"
          using b head xor_pow2_neq [of p' k'] by (simp add: mergeable_def fr sh)
        with nm show False by simp
      next
        case buddy
        then have "j = k'" "z' = z" using b(2,3) zp by (simp_all add: fr)
        then have "p' XOR 2 ^ k' = q" using buddy(2) xor_involution [of q "2 ^ j"] by simp
        then have "mergeable s1 z p' k'"
          using b(1) q(1) buddy(1) \<open>j = k'\<close> \<open>z' = z\<close> z' by (simp add: mergeable_def fr sh)
        with nm show False by simp
      next
        case other
        then have "mergeable s z' q j" "is_free s q j"
          using q(1) b old by (simp_all add: mergeable_def fr)
        with co z' show False by (auto simp: coalesced_def)
      qed
    qed
  qed
qed

lemma coalesced_alloc:
  assumes inv: "buddy_inv s F" and co: "coalesced s" and tb: "took_block s z order p s'"
  shows "coalesced s'"
proof -
  obtain k where k: "is_free s p k" "block_ok s z p k"
    "\<And>q j. is_free s' q j \<longleftrightarrow> is_free s q j \<and> q \<noteq> p \<or> order \<le> j \<and> j < k \<and> q = p + 2 ^ j"
    using tb by (auto simp: took_block_def)
  have ss: "same_shape s s'" using tb by (simp add: took_block_def)
  note sh = same_shapeD [OF ss]
  have half: "(p + 2 ^ j) XOR 2 ^ j = p" "p XOR 2 ^ j = p + 2 ^ j" if "j < k" for j
  proof -
    have "2 ^ Suc j dvd p" using k(2) that dvd_pow_le [of k p "Suc j"] by (simp add: block_ok_def)
    then obtain m where m: "p = 2 ^ j * (2 * m)" by (metis dvdE mult.assoc power_Suc2)
    show "p XOR 2 ^ j = p + 2 ^ j" by (simp add: nat_xor_pow2 m)
    then show "(p + 2 ^ j) XOR 2 ^ j = p" by (metis xor_involution)
  qed
  show ?thesis
    unfolding coalesced_def
  proof (intro allI impI notI, elim conjE)
    fix q j z' assume q: "is_free s' q j" "pfn_to_zone s' q = Some z'" and mg: "mergeable s' z' q j"
    have b: "j < buddy_max_order s" "is_free s' (q XOR 2 ^ j) j" "pfn_to_zone s (q XOR 2 ^ j) = Some z'"
      using mg by (simp_all add: mergeable_def sh)
    have np: "\<not> is_free s' p j" by (simp add: k(3))
    have "\<not> (j < k \<and> q = p + 2 ^ j)" using b(2) half(1) np by auto
    moreover have "\<not> (j < k \<and> q XOR 2 ^ j = p + 2 ^ j)"
      using q(1) half(1) np xor_involution [of q "2 ^ j"] by auto
    ultimately have "is_free s q j" "mergeable s z' q j"
      using q(1) b by (auto simp: mergeable_def k(3))
    then show False using co q(2) sh by (auto simp: coalesced_def)
  qed
qed

subsection \<open>Accounting\<close>

definition zone_frames :: "zone_type \<Rightarrow> 'a mm_state_scheme \<Rightarrow> nat set" where
  "zone_frames z s = {start_pfn (get_zone z s)..<zone_end z s}"

lemma free_frames_zone:
  assumes inv: "buddy_inv s F"
  shows "free_frames s \<inter> zone_frames z s = (\<Union>k < MAX_ORDER. \<Union>p \<in> set (F z k). block p k)"
proof (intro equalityI subsetI)
  fix f assume f: "f \<in> free_frames s \<inter> zone_frames z s"
  then obtain p k where p: "is_free s p k" "f \<in> block p k" by (auto simp: free_frames_def)
  obtain z' where z': "pfn_to_zone s p = Some z'" using zone_cases by blast
  have ok: "block_ok s z' p k" using buddy_inv_block_ok [OF inv p(1) z'] .
  have g: "geometry s" using inv by (rule buddy_inv_geometry)
  have "pfn_to_zone s f = Some z'" using ok p(2) by (intro geometry_zone [OF g]) (auto simp: block_ok_def block_def)
  moreover have "pfn_to_zone s f = Some z" using f by (intro geometry_zone [OF g]) (auto simp: zone_frames_def)
  ultimately have "z' = z" by simp
  moreover have "k < MAX_ORDER" using ok g by (simp add: block_ok_def geometry_def)
  ultimately show "f \<in> (\<Union>k < MAX_ORDER. \<Union>p \<in> set (F z k). block p k)"
    using p z' buddy_inv_lists(4) [OF inv, of k p z] by auto
next
  fix f assume "f \<in> (\<Union>k < MAX_ORDER. \<Union>p \<in> set (F z k). block p k)"
  then obtain k p where k: "k < MAX_ORDER" "p \<in> set (F z k)" "f \<in> block p k" by auto
  then have p: "is_free s p k" "block_ok s z p k"
    using buddy_inv_lists(4) [OF inv k(1)] buddy_inv_block_ok [OF inv] by auto
  then show "f \<in> free_frames s \<inter> zone_frames z s"
    using k(3) by (auto simp: free_frames_def zone_frames_def block_ok_def block_def)
qed

lemma UN_disjointI:
  "(\<And>p q. p \<in> A \<Longrightarrow> q \<in> B \<Longrightarrow> f p \<inter> g q = {}) \<Longrightarrow> (\<Union>p \<in> A. f p) \<inter> (\<Union>q \<in> B. g q) = {}"
  by blast

lemma zone_free_pages_card:
  assumes inv: "buddy_inv s F"
  shows "zone_free_pages (Some z) s = card (free_frames s \<inter> zone_frames z s)"
proof -
  have fr: "is_free s p k" if "k < MAX_ORDER" "p \<in> set (F z k)" for p k
    using buddy_inv_lists(4) [OF inv that(1)] that(2) by blast
  have inner: "card (\<Union>p \<in> set (F z k). block p k) = nr_free (free_area (get_zone z s) k) * 2 ^ k"
    if "k < MAX_ORDER" for k
  proof -
    have "card (\<Union>p \<in> set (F z k). block p k) = (\<Sum>p \<in> set (F z k). card (block p k))"
    proof (rule card_UN_disjoint)
      show "\<forall>p \<in> set (F z k). \<forall>q \<in> set (F z k). p \<noteq> q \<longrightarrow> block p k \<inter> block q k = {}"
        by (intro ballI impI) (rule buddy_inv_disjoint [OF inv fr [OF that] fr [OF that]])
    qed (simp_all add: block_def)
    also have "\<dots> = card (set (F z k)) * 2 ^ k" by (simp add: block_def)
    finally show ?thesis
      using buddy_inv_lists(2,3) [OF inv that, of z] by (simp add: distinct_card)
  qed
  have "card (\<Union>k < MAX_ORDER. \<Union>p \<in> set (F z k). block p k) =
      (\<Sum>k < MAX_ORDER. card (\<Union>p \<in> set (F z k). block p k))"
  proof (rule card_UN_disjoint)
    show "\<forall>i \<in> {..<MAX_ORDER}. \<forall>j \<in> {..<MAX_ORDER}. i \<noteq> j \<longrightarrow>
        (\<Union>p \<in> set (F z i). block p i) \<inter> (\<Union>p \<in> set (F z j). block p j) = {}"
    proof (intro ballI impI)
      fix i j assume ij: "i \<in> {..<MAX_ORDER}" "j \<in> {..<MAX_ORDER}" "i \<noteq> j"
      show "(\<Union>p \<in> set (F z i). block p i) \<inter> (\<Union>p \<in> set (F z j). block p j) = {}"
      proof (rule UN_disjointI, rule buddy_inv_disjoint [OF inv])
        fix p q assume pq: "p \<in> set (F z i)" "q \<in> set (F z j)"
        show fp: "is_free s p i" using fr pq ij by blast
        show fq: "is_free s q j" using fr pq ij by blast
        show "p \<noteq> q" using fp fq ij(3) is_free_unique by blast
      qed
    qed
  qed (simp_all add: block_def)
  also have "\<dots> = (\<Sum>k < MAX_ORDER. nr_free (free_area (get_zone z s) k) * 2 ^ k)"
    by (intro sum.cong refl inner) simp
  finally show ?thesis
    unfolding free_frames_zone [OF inv] zone_free_pages_def option.case interv_sum_list_conv_sum_set_nat
      atLeast0LessThan set_upt by simp
qed

subsection \<open>Fully merged free lists are canonical\<close>

lemma dyadic_nested:
  assumes "2 ^ k dvd (p::nat)" "2 ^ j dvd q" "k \<le> j" "f \<in> block p k" "f \<in> block q j"
  shows "block p k \<subseteq> block q j"
proof -
  obtain a where a: "p = 2 ^ k * a" using assms(1) by (rule dvdE)
  have "2 ^ k dvd q" using assms(2,3) dvd_pow_le by blast
  then obtain b where b: "q = 2 ^ k * b" by (rule dvdE)
  obtain c where c: "(2::nat) ^ j = 2 ^ k * c" using le_imp_power_dvd [OF assms(3)] by (rule dvdE)
  have "2 ^ k * a < 2 ^ k * (b + c)" "2 ^ k * b < 2 ^ k * (a + 1)"
    using assms(4,5) unfolding block_def by (auto simp: a b c algebra_simps)
  then have "a < b + c" "b < a + 1" by (simp_all only: mult_less_cancel1)
  then have "2 ^ k * b \<le> 2 ^ k * a" "2 ^ k * (a + 1) \<le> 2 ^ k * (b + c)"
    by (simp_all only: mult_le_cancel1) auto
  then show ?thesis unfolding block_def by (auto simp: a b c algebra_simps)
qed

lemma dyadic_buddy_inside:
  assumes "2 ^ k dvd (p::nat)" "2 ^ j dvd q" "k < j" "p \<in> block q j"
  shows "p XOR 2 ^ k \<in> block q j" "2 ^ k dvd p XOR 2 ^ k"
    "\<And>r i. 2 ^ i dvd r \<Longrightarrow> k < i \<Longrightarrow> p XOR 2 ^ k \<in> block r i \<Longrightarrow> p \<in> block r i"
proof -
  define nb where "nb = (if p XOR 2 ^ k < p then p XOR 2 ^ k else p)"
  have nb: "2 ^ Suc k dvd nb" "p \<in> block nb (Suc k)" "p XOR 2 ^ k \<in> block nb (Suc k)" "2 ^ k dvd p XOR 2 ^ k"
    using assms(1) by (cases rule: xor_buddy; auto simp: nb_def block_def)+
  have inside: "block nb (Suc k) \<subseteq> block r i" if "2 ^ i dvd r" "k < i" "f \<in> block nb (Suc k)" "f \<in> block r i" for r i f
    using dyadic_nested [OF nb(1) that(1) _ that(3,4)] that(2) by simp
  show "p XOR 2 ^ k \<in> block q j" using inside [OF assms(2,3) nb(2) assms(4)] nb(3) by blast
  show "2 ^ k dvd p XOR 2 ^ k" by (rule nb(4))
  show "p \<in> block r i" if "2 ^ i dvd r" "k < i" "p XOR 2 ^ k \<in> block r i" for r i
    using inside [OF that(1,2) nb(3) that(3)] nb(2) by blast
qed

lemma is_free_block: "is_free s p k \<Longrightarrow> block p k \<subseteq> free_frames s"
  by (auto simp: free_frames_def)

lemma coalesced_no_smaller:
  assumes inv: "buddy_inv s F" and co: "coalesced s" and ok: "block_ok s z q j"
    and sub: "block q j \<subseteq> free_frames s" and p: "is_free s p k" "p \<in> block q j"
  shows "j \<le> k"
proof (rule ccontr)
  assume "\<not> j \<le> k"
  have g: "geometry s" using inv by (rule buddy_inv_geometry)
  have inz: "pfn_to_zone s f = Some z" if "f \<in> block q j" for f
    using that ok by (intro geometry_zone [OF g]) (auto simp: block_ok_def block_def)
  have al: "2 ^ i dvd r" if "is_free s r i" for r i
    using zone_cases [of s r] buddy_inv_block_ok [OF inv that] by (auto simp: block_ok_def)
  define P where "P = (\<lambda>i. i < j \<and> (\<exists>r \<in> block q j. is_free s r i))"
  have "P k" using p \<open>\<not> j \<le> k\<close> by (auto simp: P_def)
  define i where "i = (LEAST i. P i)"
  have "P i" unfolding i_def using \<open>P k\<close> by (rule LeastI)
  then obtain r where r: "i < j" "r \<in> block q j" "is_free s r i" by (auto simp: P_def)
  let ?b = "r XOR 2 ^ i"
  have qa: "2 ^ j dvd q" using ok by (simp add: block_ok_def)
  note bi = dyadic_buddy_inside [OF al [OF r(3)] qa r(1,2)]
  obtain t l where t: "is_free s t l" "?b \<in> block t l" using sub bi(1) by (auto simp: free_frames_def)
  have "t \<noteq> r"
  proof -
    have "?b \<notin> block r i" using al [OF r(3)] by (cases rule: xor_buddy) (auto simp: block_def)
    then show ?thesis using t is_free_unique [OF r(3)] by metis
  qed
  then have dis: "block t l \<inter> block r i = {}" using buddy_inv_disjoint [OF inv t(1) r(3)] by simp
  have "\<not> i < l" using bi(3) [OF al [OF t(1)] _ t(2)] dis head_in_block by blast
  have "block t l \<subseteq> block q j"
    using dyadic_nested [OF al [OF t(1)] qa _ t(2) bi(1)] \<open>\<not> i < l\<close> r(1) by simp
  then have "t \<in> block q j" using head_in_block by blast
  then have "P l" using t(1) \<open>\<not> i < l\<close> r(1) by (auto simp: P_def)
  then have "i \<le> l" unfolding i_def by (rule Least_le)
  then have li: "l = i" using \<open>\<not> i < l\<close> by simp
  have "t = ?b"
  proof -
    have "block ?b i \<subseteq> block t i" "block t i \<subseteq> block ?b i"
      using dyadic_nested [OF bi(2) al [OF t(1)], of ?b] dyadic_nested [OF al [OF t(1)] bi(2), of ?b] t(2)
      by (simp_all add: li)
    then show ?thesis using head_in_block by (fastforce simp: block_def)
  qed
  then have "mergeable s z r i"
    using t(1) li r(1) ok inz [OF bi(1)] by (auto simp: mergeable_def block_ok_def)
  then show False using co r(3) inz [OF r(2)] by (auto simp: coalesced_def)
qed

lemma coalesced_canonical:
  assumes s: "buddy_inv s F" "coalesced s" and t: "buddy_inv t G" "coalesced t"
    and ss: "same_shape s t" and ff: "free_frames s = free_frames t" and p: "is_free s p k"
  shows "is_free t p k"
proof -
  note sh = same_shapeD [OF ss]
  obtain z where z: "pfn_to_zone s p = Some z" using zone_cases by blast
  have ok: "block_ok s z p k" by (rule buddy_inv_block_ok [OF s(1) p z])
  have "p \<in> free_frames t" using is_free_in_free_frames [OF p] ff by simp
  then obtain q j where q: "is_free t q j" "p \<in> block q j" by (auto simp: free_frames_def)
  obtain z' where z': "pfn_to_zone t q = Some z'" using zone_cases by blast
  have ok': "block_ok t z' q j" by (rule buddy_inv_block_ok [OF t(1) q(1) z'])
  have ok2: "block_ok s z' q j" "block_ok t z p k" using ok ok' sh by simp_all
  have al: "2 ^ k dvd p" "2 ^ j dvd q" using ok ok' by (simp_all add: block_ok_def)
  have sub: "block q j \<subseteq> free_frames s" "block p k \<subseteq> free_frames t"
    using is_free_block [OF q(1)] is_free_block [OF p] ff by simp_all
  have "j \<le> k" using coalesced_no_smaller [OF s ok2(1) sub(1) p q(2)] .
  then have "q \<in> block p k" using dyadic_nested [OF al(2,1) _ q(2) head_in_block] head_in_block by blast
  then have "k \<le> j" using coalesced_no_smaller [OF t ok2(2) sub(2) q(1)] by simp
  then have "j = k" using \<open>j \<le> k\<close> by simp
  moreover have "q = p" using \<open>q \<in> block p k\<close> q(2) by (simp add: block_def)
  ultimately show ?thesis using q(1) by simp
qed

lemma took_block_frames:
  assumes inv: "buddy_inv s F" and tb: "took_block s z order p s'"
  shows "block p order \<subseteq> free_frames s" "block p order \<subseteq> zone_frames z s" "2 ^ order dvd p" "p \<noteq> 0"
    "pfn_to_zone s p = Some z" "block_ok s' z p order" "block p order \<inter> free_frames s' = {}"
proof -
  obtain k where k: "order \<le> k" "is_free s p k" "block_ok s z p k" "same_shape s s'"
    "free_frames s' = free_frames s - block p order"
    using tb by (auto simp: took_block_def)
  have pw: "(2::nat) ^ order \<le> 2 ^ k" using k(1) by simp
  have sub: "block p order \<subseteq> block p k" using pw by (auto simp: block_def)
  then show "block p order \<subseteq> free_frames s" using is_free_block [OF k(2)] by blast
  show "2 ^ order dvd p" "p \<noteq> 0" using k(1,3) dvd_pow_le by (auto simp: block_ok_def)
  then have "block_ok s z p order"
    using k(1,3) pw by (simp add: block_ok_def del: power_increasing_iff)
  then show "block_ok s' z p order" "block p order \<subseteq> zone_frames z s"
    by (auto simp: same_shapeD [OF k(4)] block_ok_def zone_frames_def block_def)
  show "pfn_to_zone s p = Some z" using block_ok_zone [OF buddy_inv_geometry [OF inv] k(3)] by simp
  show "block p order \<inter> free_frames s' = {}" using k(5) by auto
qed

lemma empty_buddy_inv:
  assumes "geometry s" "\<And>p. p < mem_map_pages s \<Longrightarrow> \<not> has_flag (pg_flags (mem_map s p)) PG_BUDDY"
    "\<And>z k. k < MAX_ORDER \<Longrightarrow> free_area (get_zone z s) k = \<lparr>free_list = -1, nr_free = 0\<rparr>"
  shows "buddy_inv s (\<lambda>_ _. [])" "coalesced s" "free_frames s = {}"
proof -
  have nf: "\<not> is_free s p k" for p k using assms(2) by (auto simp: is_free_def)
  show "buddy_inv s (\<lambda>_ _. [])" using nf assms(1,3) by (intro buddy_invI) simp_all
  show "coalesced s" "free_frames s = {}" using nf by (auto simp: coalesced_def free_frames_def)
qed

subsection \<open>Properties\<close>

text \<open>
  C5: On well-formed and fully merged free lists, \<open>buddy_alloc\<close> fails only if the zone has no free
  block of the order or above, and then changes nothing.  Otherwise it returns the head of an aligned block of
  the requested order all of whose frames were free frames of the zone; exactly these frames
  leave the free set, and the lists stay well formed and fully merged.
\<close>
theorem buddy_alloc_spec:
  assumes "buddy_inv s F" "coalesced s"
  shows "\<exists>r s'. buddy_alloc (Some z) order s = (r, s') \<and>
    (if \<exists>p k. is_free s p k \<and> order \<le> k \<and> pfn_to_zone s p = Some z
     then \<exists>p F'. r = int p \<and> p \<noteq> 0 \<and> 2 ^ order dvd p \<and>
       block p order \<subseteq> free_frames s \<inter> zone_frames z s \<and>
       free_frames s' = free_frames s - block p order \<and> buddy_inv s' F' \<and> coalesced s'
     else r = -1 \<and> s' = s)"
proof -
  consider (none) "buddy_alloc (Some z) order s = (-1, s)"
      "\<forall>p k. is_free s p k \<and> order \<le> k \<longrightarrow> pfn_to_zone s p \<noteq> Some z"
    | (some) p s' where "buddy_alloc (Some z) order s = (int p, s')" "took_block s z order p s'"
    using buddy_alloc_correct [OF assms(1)] by blast
  then show ?thesis
  proof cases
    case none
    then show ?thesis by auto
  next
    case some
    obtain k F' where k: "order \<le> k" "is_free s p k" "buddy_inv s' F'"
      "free_frames s' = free_frames s - block p order"
      using some(2) by (auto simp: took_block_def)
    then show ?thesis
      using some(1) took_block_frames [OF assms(1) some(2)] coalesced_alloc [OF assms some(2)] by auto
  qed
qed

text \<open>
  C4: Freeing an aligned block that lies in its zone and overlaps no free frame always returns.
  Exactly its frames are added to the free set, and the lists stay well formed and fully merged: no
  two free buddies of the same order are left apart.
\<close>
theorem buddy_free_block_spec:
  assumes "buddy_inv s F" "coalesced s" "block_ok s z p k" "block p k \<inter> free_frames s = {}"
  shows "\<exists>s' F'. buddy_free_block (Some z) p k s = Some s' \<and> buddy_inv s' F' \<and> coalesced s' \<and>
    free_frames s' = free_frames s \<union> block p k"
  using assms(1,3,4)
proof (cases rule: buddy_free_block_cases)
  case (1 s1 p' k' s' F')
  then show ?thesis using coalesced_free [OF assms(1,2)] by blast
qed

text \<open>
  C6: Freeing a block that was just allocated restores the free lists: the allocator holds the same free blocks,
  head by head and order by order, as before the allocation.
\<close>
theorem buddy_alloc_free_roundtrip:
  assumes "buddy_inv s F" "coalesced s" "buddy_alloc (Some z) order s = (int p, s1)"
  shows "\<exists>s2. buddy_free_block (Some z) p order s1 = Some s2 \<and> (\<forall>q k. is_free s2 q k \<longleftrightarrow> is_free s q k)"
proof -
  have tb: "took_block s z order p s1"
    using buddy_alloc_correct [OF assms(1), of z order] assms(3) by auto
  then obtain F1 where F1: "buddy_inv s1 F1" "same_shape s s1" "free_frames s1 = free_frames s - block p order"
    by (auto simp: took_block_def)
  note fr = took_block_frames [OF assms(1) tb]
  obtain s0 p' k' s2 F2 where s2: "buddy_free_block (Some z) p order s1 = Some s2"
    "merged s1 z p order s0 p' k'" "adds_block z k' p' s0 s2" "buddy_inv s2 F2" "same_shape s1 s2"
    "free_frames s2 = free_frames s1 \<union> block p order"
    using buddy_free_block_cases [OF F1(1) fr(6,7)] by metis
  have co1: "coalesced s1" by (rule coalesced_alloc [OF assms(1,2) tb])
  have co2: "coalesced s2" by (rule coalesced_free [OF F1(1) co1 s2(2,3)])
  have ff: "free_frames s = free_frames s2" using fr(1) s2(6) F1(3) by auto
  have ss: "same_shape s s2" "same_shape s2 s"
    using same_shape_trans [OF F1(2) s2(5)] by (auto simp: same_shape_def)
  show ?thesis
    using s2(1) coalesced_canonical [OF assms(1,2) s2(4) co2 ss(1) ff]
      coalesced_canonical [OF s2(4) co2 assms(1,2) ss(2) ff [symmetric]] by blast
qed

text \<open>
  C7: The free-page count of a zone, computed from the \<open>nr_free\<close> counters, is the number of free frames in the
  zone; a successful allocation of order \<open>order\<close> lowers it by exactly \<open>2 ^ order\<close>.
\<close>
theorem zone_free_pages_alloc:
  assumes "buddy_inv s F" "buddy_alloc (Some z) order s = (int p, s')"
  shows "zone_free_pages (Some z) s = card (free_frames s \<inter> zone_frames z s) \<and>
    zone_free_pages (Some z) s = zone_free_pages (Some z) s' + 2 ^ order"
proof -
  have tb: "took_block s z order p s'"
    using buddy_alloc_correct [OF assms(1), of z order] assms(2) by auto
  then obtain F' where F': "buddy_inv s' F'" "same_shape s s'" "free_frames s' = free_frames s - block p order"
    by (auto simp: took_block_def)
  let ?A = "free_frames s \<inter> zone_frames z s"
  note fr = took_block_frames [OF assms(1) tb]
  have "zone_frames z s' = zone_frames z s" by (simp add: zone_frames_def same_shapeD [OF F'(2)])
  then have "free_frames s' \<inter> zone_frames z s' = ?A - block p order" using F'(3) by auto
  moreover have "card (?A - block p order) + 2 ^ order = card ?A"
  proof -
    have sub: "block p order \<subseteq> ?A" using fr(1,2) by simp
    have fin: "finite ?A" by (simp add: zone_frames_def)
    have "card (?A - block p order) = card ?A - 2 ^ order"
      using card_Diff_subset [OF finite_subset [OF sub fin] sub] by (simp add: block_def)
    moreover have "2 ^ order \<le> card ?A" using card_mono [OF fin sub] by (simp add: block_def)
    ultimately show ?thesis by simp
  qed
  ultimately show ?thesis
    using zone_free_pages_card [OF assms(1), of z] zone_free_pages_card [OF F'(1), of z] by simp
qed

subsection \<open>A small arena\<close>

text \<open>A DMA zone of sixteen frames, first without free memory and then with the block of order 3 at frame 8 freed.\<close>

definition demo_zone :: zone where
  "demo_zone = \<lparr>ztype = ZONE_DMA, start_pfn = 0, spanned_pages = 0, present_pages = 0, managed_pages = 0,
     watermark = (\<lambda>_. 0), free_area = (\<lambda>_. \<lparr>free_list = 0, nr_free = 0\<rparr>), inactive_list = [], nr_inactive = 0\<rparr>"

definition demo_arena :: "'a \<Rightarrow> 'a mm_state_scheme" where
  "demo_arena x = \<lparr>bootmem = demo_bootmem, mem_map = (\<lambda>_. zero_page), mem_map_set = True, mem_map_pages = 16,
     node_spanned_pages = 16, node_present_pages = 16,
     zone_dma = init_zone ZONE_DMA 0 16 16 demo_zone, zone_normal = init_zone ZONE_NORMAL 16 0 0 demo_zone,
     contig_zonelist = build_zonelist [ZONE_DMA], dma_zonelist = build_zonelist [ZONE_DMA],
     buddy_next = (\<lambda>_. -1), buddy_next_set = True, buddy_max_order = 4, buddy_ready = True,
     cached_mbi = None, total_memory_kb = 0, total_pages = 16, managed_pages_total = 16,
     kswapd_running = True, kswapd_wakeups = 0, kswapd_tries = 0, kswapd_reclaims = 0,
     kswapd_anon_reclaims = 0, kswapd_file_reclaims = 0, \<dots> = x\<rparr>"

definition demo_free :: "'a \<Rightarrow> 'a mm_state_scheme" where
  "demo_free x = the (buddy_free_block (Some ZONE_DMA) 8 3 (demo_arena x))"

lemma get_zone_demo_arena:
  "get_zone z (demo_arena x) = (case z of ZONE_DMA \<Rightarrow> init_zone ZONE_DMA 0 16 16 demo_zone
     | ZONE_NORMAL \<Rightarrow> init_zone ZONE_NORMAL 16 0 0 demo_zone)"
  by (cases z) (simp_all add: demo_arena_def)

lemma demo_arena_inv: "buddy_inv (demo_arena x) (\<lambda>_ _. [])" "coalesced (demo_arena x)" "free_frames (demo_arena x) = {}"
proof -
  have "geometry (demo_arena x)"
    unfolding geometry_def zone_end_def pfn_to_zone_def get_zone_demo_arena
    by (auto simp: demo_arena_def init_zone_def MAX_ORDER_def MAX_DMA_PFN_def split: zone_type.splits)
  moreover have "\<not> has_flag (pg_flags (mem_map (demo_arena x) p)) PG_BUDDY" for p
    by (simp add: demo_arena_def zero_page_def has_flag_def)
  moreover have "free_area (get_zone z (demo_arena x)) k = \<lparr>free_list = -1, nr_free = 0\<rparr>" if "k < MAX_ORDER" for z k
    using that by (cases z) (simp_all add: demo_arena_def init_zone_def)
  ultimately show "buddy_inv (demo_arena x) (\<lambda>_ _. [])" "coalesced (demo_arena x)" "free_frames (demo_arena x) = {}"
    using empty_buddy_inv [of "demo_arena x"] by simp_all
qed

lemma demo_block_ok: "block_ok (demo_arena x) ZONE_DMA 8 3"
  by (simp add: block_ok_def zone_end_def demo_arena_def init_zone_def)

theorem buddy_free_block_spec_witness:
  "buddy_inv (demo_arena ()) (\<lambda>_ _. []) \<and> coalesced (demo_arena ()) \<and> block_ok (demo_arena ()) ZONE_DMA 8 3 \<and>
   block 8 3 \<inter> free_frames (demo_arena ()) = {} \<and>
   (\<exists>s' F'. buddy_free_block (Some ZONE_DMA) 8 3 (demo_arena ()) = Some s' \<and> buddy_inv s' F' \<and> coalesced s' \<and>
     free_frames s' = free_frames (demo_arena ()) \<union> block 8 3)"
  using buddy_free_block_spec [OF demo_arena_inv(1,2) [where x = "()"] demo_block_ok [where x = "()"]] demo_arena_inv [where x = "()"] demo_block_ok [where x = "()"] by simp

lemma demo_free_inv:
  "\<exists>F. buddy_inv (demo_free x) F" "coalesced (demo_free x)" "free_frames (demo_free x) = {8..<16}" "same_shape (demo_arena x) (demo_free x)"
  "is_free (demo_free x) 8 3"
proof -
  have d: "block 8 3 \<inter> free_frames (demo_arena x) = {}" by (simp add: demo_arena_inv(3) [where x = x])
  obtain s1 p' k' s' F' where s: "buddy_free_block (Some ZONE_DMA) 8 3 (demo_arena x) = Some s'"
    "merged (demo_arena x) ZONE_DMA 8 3 s1 p' k'" "adds_block ZONE_DMA k' p' s1 s'" "buddy_inv s' F'"
    "same_shape (demo_arena x) s'" "free_frames s' = free_frames (demo_arena x) \<union> block 8 3"
    using buddy_free_block_cases [OF demo_arena_inv(1) [where x = x] demo_block_ok [where x = x] d] by metis
  have df: "(demo_free x) = s'" by (simp add: demo_free_def s(1))
  show "\<exists>F. buddy_inv (demo_free x) F" "same_shape (demo_arena x) (demo_free x)" using s df by auto
  show co: "coalesced (demo_free x)" using coalesced_free [OF demo_arena_inv(1,2) [where x = x] s(2,3)] df by simp
  show ff: "free_frames (demo_free x) = {8..<16}" using s(6) df by (simp add: demo_arena_inv(3) [where x = x] block_def)
  have "8 \<in> free_frames (demo_free x)" by (simp add: ff)
  then obtain q j where q: "is_free (demo_free x) q j" "8 \<in> block q j" by (auto simp: free_frames_def)
  have ok: "block_ok (demo_free x) ZONE_DMA 8 3" using demo_block_ok [where x = x] same_shapeD [OF s(5)] df by simp
  have sub: "block 8 3 \<subseteq> free_frames (demo_free x)" by (simp add: ff block_def)
  have "q \<in> block q j" by simp
  then have "q \<in> {8..<16}" using is_free_block [OF q(1)] ff by blast
  then have q8: "q = 8" using q(2) by (simp add: block_def)
  have "3 \<le> j" using coalesced_no_smaller [OF _ co ok sub q(1)] s(4) df q8 by auto
  have "8 + 2 ^ j - 1 \<in> block q j" using q8 by (simp add: block_def)
  then have "8 + 2 ^ j - 1 \<in> {8..<16::nat}" using is_free_block [OF q(1)] ff by blast
  then have "(2::nat) ^ j \<le> 2 ^ 3" by simp
  then have "j \<le> 3" by (simp only: power_increasing_iff)
  then show "is_free (demo_free x) 8 3" using q(1) q8 \<open>3 \<le> j\<close> by simp
qed

lemma demo_zone_8: "pfn_to_zone (demo_free x) 8 = Some ZONE_DMA"
  using block_ok_zone [OF buddy_inv_geometry [OF demo_arena_inv(1) [where x = x]] demo_block_ok [where x = x]]
    same_shapeD [OF demo_free_inv(4) [where x = x]] by simp

theorem buddy_alloc_spec_witness:
  "\<exists>F. buddy_inv (demo_free ()) F \<and> coalesced (demo_free ()) \<and>
   (\<exists>p s' F'. buddy_alloc (Some ZONE_DMA) 1 (demo_free ()) = (int p, s') \<and> p \<noteq> 0 \<and> 2 dvd p \<and>
      block p 1 \<subseteq> free_frames (demo_free ()) \<inter> zone_frames ZONE_DMA (demo_free ()) \<and>
      free_frames s' = free_frames (demo_free ()) - block p 1 \<and> buddy_inv s' F' \<and> coalesced s')"
proof -
  obtain F where F: "buddy_inv (demo_free ()) F" using demo_free_inv(1) [where x = "()"] by blast
  have "\<exists>p k. is_free (demo_free ()) p k \<and> 1 \<le> k \<and> pfn_to_zone (demo_free ()) p = Some ZONE_DMA"
    using demo_free_inv(5) [where x = "()"] demo_zone_8 [where x = "()"] by (metis one_le_numeral)
  then show ?thesis
    using buddy_alloc_spec [OF F demo_free_inv(2) [where x = "()"], of ZONE_DMA 1] F demo_free_inv(2) [where x = "()"] by auto
qed

lemma demo_alloc: "\<exists>p s'. buddy_alloc (Some ZONE_DMA) 1 (demo_free x) = (int p, s')"
proof -
  obtain F where F: "buddy_inv (demo_free x) F" using demo_free_inv(1) [where x = x] by blast
  show ?thesis using buddy_alloc_correct [OF F, of ZONE_DMA 1] demo_free_inv(5) [where x = x] demo_zone_8 [where x = x] by fastforce
qed

theorem buddy_alloc_free_roundtrip_witness:
  "\<exists>F p s1. buddy_inv (demo_free ()) F \<and> coalesced (demo_free ()) \<and> buddy_alloc (Some ZONE_DMA) 1 (demo_free ()) = (int p, s1) \<and>
   (\<exists>s2. buddy_free_block (Some ZONE_DMA) p 1 s1 = Some s2 \<and> (\<forall>q k. is_free s2 q k \<longleftrightarrow> is_free (demo_free ()) q k))"
proof -
  obtain F where F: "buddy_inv (demo_free ()) F" using demo_free_inv(1) [where x = "()"] by blast
  obtain p s' where a: "buddy_alloc (Some ZONE_DMA) 1 (demo_free ()) = (int p, s')" using demo_alloc [where x = "()"] by blast
  from buddy_alloc_free_roundtrip [OF F demo_free_inv(2) [where x = "()"] a] F a demo_free_inv(2) [where x = "()"] show ?thesis by blast
qed

theorem zone_free_pages_alloc_witness:
  "\<exists>F p s'. buddy_inv (demo_free ()) F \<and> buddy_alloc (Some ZONE_DMA) 1 (demo_free ()) = (int p, s') \<and>
   zone_free_pages (Some ZONE_DMA) (demo_free ()) = 8 \<and> zone_free_pages (Some ZONE_DMA) s' = 6"
proof -
  obtain F where F: "buddy_inv (demo_free ()) F" using demo_free_inv(1) [where x = "()"] by blast
  obtain p s' where a: "buddy_alloc (Some ZONE_DMA) 1 (demo_free ()) = (int p, s')" using demo_alloc [where x = "()"] by blast
  have "zone_frames ZONE_DMA (demo_free ()) = {0..<16}"
    unfolding zone_frames_def same_shapeD [OF demo_free_inv(4) [where x = "()"]]
    by (simp add: zone_end_def demo_arena_def init_zone_def)
  then have "card (free_frames (demo_free ()) \<inter> zone_frames ZONE_DMA (demo_free ())) = 8"
    by (simp add: demo_free_inv(3) [where x = "()"] Int_absorb2)
  then show ?thesis using zone_free_pages_alloc [OF F a] F a by auto
qed

end
