(* ===== verification/Page_Alloc.thy ===== *)
theory Page_Alloc
  imports Buddy
begin

text \<open>
  The page allocator interface of \<open>mm/page_alloc.c\<close> on top of the buddy lists: watermark checks,
  the three passes of \<open>__alloc_pages_nodemask\<close>, reference counts and freeing.  Reclaim
  (\<open>shrink_zone\<close> of \<open>mm/vmscan.c\<close>) allocates and frees pages itself, so it is an argument
  \<open>shrink\<close> of the allocation functions; what the allocator needs of it is the locale
  \<open>reclaimer\<close>.  Functions that can panic return the message on the left of a sum.
\<close>

record scan_control =
  may_writepage :: bool
  may_unmap :: bool
  may_swap :: bool

type_synonym 'a shrinker =
  "zone_type option \<Rightarrow> nat \<Rightarrow> scan_control option \<Rightarrow> 'a mm_state_scheme \<Rightarrow> (nat \<times> 'a mm_state_scheme) option"

definition GFP_KERNEL :: u32 where "GFP_KERNEL = 0"
definition GFP_DMA :: u32 where "GFP_DMA = 0x1"
definition GFP_ZERO :: u32 where "GFP_ZERO = 0x8000"

subsection \<open>Allocation\<close>

definition default_zonelist_for_gfp :: "u32 \<Rightarrow> 'a mm_state_scheme \<Rightarrow> zonelist" where
  "default_zonelist_for_gfp gfp_mask s =
     (if has_flag gfp_mask GFP_DMA then dma_zonelist s else contig_zonelist s)"

definition alloc_build_scan_control :: scan_control where
  "alloc_build_scan_control = \<lparr>may_writepage = True, may_unmap = True, may_swap = True\<rparr>"

definition wakeup_kswapd :: "zone_type option \<Rightarrow> 'a mm_state_scheme \<Rightarrow> 'a mm_state_scheme" where
  "wakeup_kswapd zp s =
     (if \<not> kswapd_running s then s else s\<lparr>kswapd_wakeups := kswapd_wakeups s + 1\<rparr>)"

definition alloc_reclaim_slowpath ::
  "'a shrinker \<Rightarrow> zone_type option \<Rightarrow> nat \<Rightarrow> 'a mm_state_scheme \<Rightarrow> 'a mm_state_scheme option" where
  "alloc_reclaim_slowpath shrink zp order s =
     (case zp of None \<Rightarrow> Some s
      | Some z \<Rightarrow>
          map_option snd (shrink zp order (Some alloc_build_scan_control) (wakeup_kswapd zp s)))"

definition zone_watermark_ok :: "zone_type \<Rightarrow> nat \<Rightarrow> zone_watermarks \<Rightarrow> 'a mm_state_scheme \<Rightarrow> bool" where
  "zone_watermark_ok z order mark s =
     (let free_pages = zone_free_pages (Some z) s; needed = 2 ^ order
      in if free_pages < needed then False
         else free_pages - needed > watermark (get_zone z s) mark)"

text \<open>The loop that sets the reference count of every page of a fresh block.\<close>

definition set_refcounts :: "nat \<Rightarrow> nat \<Rightarrow> 'a mm_state_scheme \<Rightarrow> 'a mm_state_scheme" where
  "set_refcounts frame run s =
     fold (\<lambda>j s. case pfn_to_page s (frame + j) of None \<Rightarrow> s
                 | Some p \<Rightarrow> upd_page p (\<lambda>q. q\<lparr>refcount := 1\<rparr>) s) [0..<run] s"

text \<open>
  One pass over the zones still to be tried.  The first component of the result is None if the
  pass ends without returning from the function, and Some of the returned pointer otherwise.
\<close>

fun alloc_zones ::
  "'a shrinker \<Rightarrow> nat \<Rightarrow> nat \<Rightarrow> zone_type list \<Rightarrow> 'a mm_state_scheme \<Rightarrow>
   (nat option option \<times> 'a mm_state_scheme) option" where
  "alloc_zones shrink order pass [] s = Some (None, s)"
| "alloc_zones shrink order pass (z # zs) s =
     (if pass = 0 \<and> \<not> zone_watermark_ok z order WMARK_HIGH s then alloc_zones shrink order pass zs s
      else if pass = 1 \<and> \<not> zone_watermark_ok z order WMARK_LOW s
      then alloc_zones shrink order pass zs (wakeup_kswapd (Some z) s)
      else if pass = 2 \<and> \<not> zone_watermark_ok z order WMARK_MIN s
      then case alloc_reclaim_slowpath shrink (Some z) order s of
             None \<Rightarrow> None
           | Some s' \<Rightarrow> alloc_zones shrink order pass zs s'
      else case buddy_alloc (Some z) order s of
             (frame, s') \<Rightarrow>
               if frame < 0 then alloc_zones shrink order pass zs s'
               else let s'' = set_refcounts (nat frame) (2 ^ order) s'
                    in Some (Some (pfn_to_page s'' (nat frame)), s''))"

fun alloc_passes ::
  "'a shrinker \<Rightarrow> nat \<Rightarrow> nat list \<Rightarrow> zone_type list \<Rightarrow> 'a mm_state_scheme \<Rightarrow>
   (nat option \<times> 'a mm_state_scheme) option" where
  "alloc_passes shrink order [] zs s = Some (None, s)"
| "alloc_passes shrink order (pass # ps) zs s =
     (case alloc_zones shrink order pass zs s of
        None \<Rightarrow> None
      | Some (Some r, s') \<Rightarrow> Some (r, s')
      | Some (None, s') \<Rightarrow> alloc_passes shrink order ps zs s')"

text \<open>
  \<open>__alloc_pages_nodemask\<close>.  Before \<open>mem_init\<close> pages come from the boot allocator.
\<close>

definition alloc_pages_nodemask ::
  "'a shrinker \<Rightarrow> u32 \<Rightarrow> nat \<Rightarrow> zonelist option \<Rightarrow> 'a mm_state_scheme \<Rightarrow>
   (nat option \<times> 'a mm_state_scheme) option" where
  "alloc_pages_nodemask shrink gfp_mask order zl s =
     (if \<not> buddy_ready s then
        case bootmem_alloc (PAGE_SIZE * 2 ^ order) PAGE_SIZE (bootmem s) of
          None \<Rightarrow> None
        | Some (addr, bm) \<Rightarrow>
            let s1 = s\<lparr>bootmem := bm\<rparr>
            in if addr = 0 then Some (None, s1)
               else let frame = unat (addr div PAGE_SIZE);
                        s2 = set_refcounts frame (2 ^ order) s1
                    in Some (pfn_to_page s2 frame, s2)
      else
        let zonelist = (case zl of None \<Rightarrow> default_zonelist_for_gfp gfp_mask s | Some l \<Rightarrow> l)
        in alloc_passes shrink order [0, 1, 2] (zl_zones zonelist) s)"

text \<open>\<open>alloc_pages\<close> with its four tries; the result is the physical address, 0 for NULL.\<close>

fun alloc_pages_tries ::
  "nat \<Rightarrow> 'a shrinker \<Rightarrow> u32 \<Rightarrow> nat \<Rightarrow> 'a mm_state_scheme \<Rightarrow> (u32 \<times> 'a mm_state_scheme) option" where
  "alloc_pages_tries 0 shrink gfp_mask order s = Some (0, s)"
| "alloc_pages_tries (Suc tries) shrink gfp_mask order s =
     (case alloc_pages_nodemask shrink gfp_mask order None s of
        None \<Rightarrow> None
      | Some (None, s') \<Rightarrow> Some (0, s')
      | Some (Some p, s') \<Rightarrow>
          let pfn = page_to_pfn s' (Some p)
          in if pfn = 0
             then alloc_pages_tries tries shrink gfp_mask order
                    (upd_page p (\<lambda>q. q\<lparr>pg_flags := set_flag (pg_flags q) PG_RESERVED, refcount := 1\<rparr>) s')
             else Some (of_nat pfn * PAGE_SIZE, s'))"

definition alloc_pages :: "'a shrinker \<Rightarrow> u32 \<Rightarrow> nat \<Rightarrow> 'a mm_state_scheme \<Rightarrow> (u32 \<times> 'a mm_state_scheme) option" where
  "alloc_pages shrink gfp_mask order s = alloc_pages_tries 4 shrink gfp_mask order s"

subsection \<open>Freeing\<close>

text \<open>
  The loop of \<open>free_pages\<close> over the pages of the block: pages leave the inactive list, counts
  above one are decremented and keep the block from being freed.
\<close>

definition free_page_step :: "nat \<Rightarrow> bool \<times> 'a mm_state_scheme \<Rightarrow> bool \<times> 'a mm_state_scheme" where
  "free_page_step idx = (\<lambda>(can_free, s).
     case pfn_to_page s idx of
       None \<Rightarrow> (can_free, s)
     | Some pg \<Rightarrow>
         let s1 = (if has_flag (pg_flags (mem_map s pg)) PG_LRU then lru_del (Some pg) s else s)
         in if refcount (mem_map s1 pg) > 1
            then (False, upd_page pg (\<lambda>q. q\<lparr>refcount := refcount q - 1\<rparr>) s1)
            else if refcount (mem_map s1 pg) = 1
            then (can_free, upd_page pg (\<lambda>q. q\<lparr>refcount := 0\<rparr>) s1)
            else (can_free, s1))"

definition free_pages :: "u32 \<Rightarrow> nat \<Rightarrow> 'a mm_state_scheme \<Rightarrow> (string + 'a mm_state_scheme) option" where
  "free_pages addr order s =
     (if addr \<ge> PAGE_OFFSET
      then Some (Inl ''PAGE_ALLOC PANIC: free_pages expects phys address (got vaddr)'')
      else if addr AND (PAGE_SIZE - 1) \<noteq> 0
      then Some (Inl ''PAGE_ALLOC PANIC: free_pages expects page-aligned phys address'')
      else
        let frame = unat (addr div PAGE_SIZE)
        in if total_pages s \<noteq> 0 \<and> frame \<ge> total_pages s
           then Some (Inl ''PAGE_ALLOC PANIC: free_pages frame out of range'')
           else if \<not> buddy_ready s then Some (Inr s)
           else
             case fold free_page_step [frame..<frame + 2 ^ order] (True, s) of
               (can_free, s1) \<Rightarrow>
                 if \<not> can_free then Some (Inr s1)
                 else map_option Inr (buddy_free_block (pfn_to_zone s1 frame) frame order s1))"

definition free_pages_page :: "nat option \<Rightarrow> nat \<Rightarrow> 'a mm_state_scheme \<Rightarrow> (string + 'a mm_state_scheme) option" where
  "free_pages_page pg order s =
     (case pg of None \<Rightarrow> Some (Inr s)
      | Some p \<Rightarrow> free_pages (of_nat (page_to_pfn s pg) * PAGE_SIZE) order s)"

subsection \<open>References and totals\<close>

definition get_page :: "u32 \<Rightarrow> 'a mm_state_scheme \<Rightarrow> 'a mm_state_scheme" where
  "get_page addr s =
     (case pfn_to_page s (unat (addr div PAGE_SIZE)) of None \<Rightarrow> s
      | Some pg \<Rightarrow>
          if refcount (mem_map s pg) = 0 then upd_page pg (\<lambda>q. q\<lparr>refcount := 1\<rparr>) s
          else if refcount (mem_map s pg) < 0xFFFF
          then upd_page pg (\<lambda>q. q\<lparr>refcount := refcount q + 1\<rparr>) s
          else s)"

definition page_ref_count :: "u32 \<Rightarrow> 'a mm_state_scheme \<Rightarrow> nat" where
  "page_ref_count addr s =
     (case pfn_to_page s (unat (addr div PAGE_SIZE)) of None \<Rightarrow> 0 | Some pg \<Rightarrow> refcount (mem_map s pg))"

definition totalram_pages :: "'a mm_state_scheme \<Rightarrow> nat" where
  "totalram_pages s = (if managed_pages_total s \<noteq> 0 then managed_pages_total s else total_pages s)"

definition nr_free_pages :: "'a mm_state_scheme \<Rightarrow> nat" where
  "nr_free_pages s =
     (if spanned_pages (zone_dma s) \<noteq> 0 then zone_free_pages (Some ZONE_DMA) s else 0) +
     (if spanned_pages (zone_normal s) \<noteq> 0 then zone_free_pages (Some ZONE_NORMAL) s else 0)"

subsection \<open>Start-up\<close>

text \<open>
  \<open>free_area_init_core\<close> and \<open>mem_init\<close>.  The memory map that the C code walks through raw memory is the
  list \<open>mbi_mmap\<close> of its entries.
\<close>

fun pick_max_order :: "nat \<Rightarrow> nat \<Rightarrow> nat" where
  "pick_max_order pages 0 = 0"
| "pick_max_order pages (Suc k) = (if 2 ^ Suc k > pages then pick_max_order pages k else Suc k)"

definition free_area_init_core :: "multiboot_info \<Rightarrow> 'a mm_state_scheme \<Rightarrow> (string + 'a mm_state_scheme) option" where
  "free_area_init_core mbi s =
     (let s1 = s\<lparr>cached_mbi := Some mbi\<rparr>;
          s2 = (if mbi_flags mbi AND 1 \<noteq> 0 then s1\<lparr>total_memory_kb := mem_lower mbi + mem_upper mbi\<rparr> else s1);
          tp0 = bm_total_pages (bootmem s2);
          tp = (if tp0 = 0 then (total_memory_kb s2 * 1024) div PAGE_SIZE else tp0);
          s3 = s2\<lparr>total_pages := unat tp\<rparr>
      in case bootmem_alloc (tp * 4) PAGE_SIZE (bootmem s3) of
           None \<Rightarrow> None
         | Some (meta, bm) \<Rightarrow>
             if meta = 0 then Some (Inl ''PAGE_ALLOC PANIC: bootmem_alloc failed'')
             else Some (Inr (s3\<lparr>bootmem := bm, buddy_next_set := True,
                    buddy_max_order := pick_max_order (unat tp) (MAX_ORDER - 1),
                    buddy_next := (\<lambda>i. if i < unat tp then -1 else buddy_next s3 i)\<rparr>)))"

text \<open>The pages of one available map entry lose \<open>PG_RESERVED\<close>, unless they overlap a reservation.\<close>

definition mem_init_page :: "u32 \<Rightarrow> 'a mm_state_scheme \<Rightarrow> 'a mm_state_scheme" where
  "mem_init_page pfn s =
     (if bootmem_is_reserved (bootmem s) (pfn * PAGE_SIZE) PAGE_SIZE then s
      else case pfn_to_page s (unat pfn) of None \<Rightarrow> s
           | Some p \<Rightarrow> upd_page p (\<lambda>q. q\<lparr>pg_flags := clear_flag (pg_flags q) PG_RESERVED\<rparr>) s)"

definition mem_init_entry :: "multiboot_memory_map \<Rightarrow> 'a mm_state_scheme \<Rightarrow> 'a mm_state_scheme" where
  "mem_init_entry e s =
     (if mtype e \<noteq> MULTIBOOT_MEMORY_AVAILABLE then s
      else if addr_low e < 0x100000 then s
      else
        let start_page = addr_low e div PAGE_SIZE; num_pages = len_low e div PAGE_SIZE
        in fold (\<lambda>i. mem_init_page (start_page + of_nat i))
             (takeWhile (\<lambda>i. unat start_page + i < total_pages s) [0..<unat num_pages]) s)"

text \<open>The second loop frees every page that is neither reserved nor already free.\<close>

fun mem_init_free :: "nat list \<Rightarrow> 'a mm_state_scheme \<Rightarrow> 'a mm_state_scheme option" where
  "mem_init_free [] s = Some s"
| "mem_init_free (i # is) s =
     (case pfn_to_page s i of None \<Rightarrow> mem_init_free is s
      | Some pg \<Rightarrow>
          if has_flag (pg_flags (mem_map s pg)) PG_RESERVED then mem_init_free is s
          else
            let zp = pfn_to_zone s i;
                s1 = (case zp of None \<Rightarrow> s
                      | Some z \<Rightarrow> upd_zone z (\<lambda>zn. zn\<lparr>managed_pages := managed_pages zn + 1\<rparr>) s)
            in if has_flag (pg_flags (mem_map s1 pg)) PG_BUDDY then mem_init_free is s1
               else case buddy_free_block zp i 0 s1 of None \<Rightarrow> None | Some s2 \<Rightarrow> mem_init_free is s2)"

definition mem_init :: "'a mm_state_scheme \<Rightarrow> (string + 'a mm_state_scheme) option" where
  "mem_init s =
     (if total_pages s = 0 \<or> \<not> buddy_next_set s then Some (Inr s)
      else case cached_mbi s of
             None \<Rightarrow> Some (Inl ''PMM PANIC: BIOS did not provide a memory map!'')
           | Some mbi \<Rightarrow>
               if mbi_flags mbi AND 0x40 = 0
               then Some (Inl ''PMM PANIC: BIOS did not provide a memory map!'')
               else
                 let s1 = fold mem_init_entry (mbi_mmap mbi) s;
                     s2 = upd_zone ZONE_NORMAL (\<lambda>z. z\<lparr>managed_pages := 0\<rparr>)
                            (upd_zone ZONE_DMA (\<lambda>z. z\<lparr>managed_pages := 0\<rparr>) s1)
                 in case mem_init_free [0..<total_pages s2] s2 of
                      None \<Rightarrow> None
                    | Some s3 \<Rightarrow>
                        let s4 = setup_per_zone_wmarks s3
                        in Some (Inr (s4\<lparr>managed_pages_total :=
                               managed_pages (zone_dma s4) + managed_pages (zone_normal s4),
                             buddy_ready := True\<rparr>)))"

subsection \<open>What the buddy code leaves alone\<close>

text \<open>
  \<open>erase\<close> forgets the free lists, their links, \<open>PG_BUDDY\<close> and the block orders.  The buddy
  operations change nothing else, so each keeps the erased state.
\<close>

definition strip_page :: "page \<Rightarrow> page" where
  "strip_page q = q\<lparr>pg_flags := clear_flag (pg_flags q) PG_BUDDY, pg_order := 0\<rparr>"

definition strip_zone :: "zone \<Rightarrow> zone" where
  "strip_zone z = z\<lparr>free_area := (\<lambda>_. \<lparr>free_list = 0, nr_free = 0\<rparr>)\<rparr>"

definition erase :: "'a mm_state_scheme \<Rightarrow> 'a mm_state_scheme" where
  "erase s = s\<lparr>mem_map := (\<lambda>p. strip_page (mem_map s p)), zone_dma := strip_zone (zone_dma s),
     zone_normal := strip_zone (zone_normal s), buddy_next := (\<lambda>_. 0)\<rparr>"

lemma erase_upd_page: "(\<And>q. strip_page (f q) = strip_page q) \<Longrightarrow> erase (upd_page p f s) = erase s"
  by (cases s) (simp add: erase_def upd_page_def fun_eq_iff)

lemma erase_upd_area [simp]: "erase (upd_area z k f s) = erase s"
  by (cases s; cases z) (simp_all add: erase_def upd_area_def strip_zone_def)

lemma erase_buddy_next [simp]: "erase (s\<lparr>buddy_next := n\<rparr>) = erase s"
  by (cases s) (simp add: erase_def)

lemma clear_set_flag: "clear_flag (set_flag x f) f = clear_flag x f" "clear_flag (clear_flag x f) f = clear_flag x f"
  by (rule bit_eqI; auto simp: clear_flag_def set_flag_def bit_simps)+

lemma erase_buddy_ops [simp]:
  "erase (set_buddy p k s) = erase s" "erase (clear_buddy p s) = erase s"
  "erase (buddy_list_add zp k p s) = erase s" "erase (buddy_unlink z k prev cur s) = erase s"
  "erase (buddy_pop z k p s) = erase s"
proof -
  show sb: "erase (set_buddy p k s) = erase s" for p k and s :: "'a mm_state_scheme"
    by (auto simp: set_buddy_def strip_page_def clear_set_flag intro!: erase_upd_page split: option.split)
  show cb: "erase (clear_buddy p s) = erase s" for p and s :: "'a mm_state_scheme"
    by (auto simp: clear_buddy_def strip_page_def clear_set_flag intro!: erase_upd_page split: option.split)
  show "erase (buddy_list_add zp k p s) = erase s"
    by (simp add: buddy_list_add_def Let_def sb split: option.split)
  show "erase (buddy_unlink z k prev cur s) = erase s" by (simp add: buddy_unlink_def Let_def cb)
  show "erase (buddy_pop z k p s) = erase s" by (simp add: buddy_pop_def Let_def cb)
qed

lemma erase_buddy_split [simp]: "erase (buddy_split zp p order k s) = erase s"
  by (induction zp p order k s rule: buddy_split.induct) simp_all

lemma erase_buddy_alloc: "buddy_alloc zp order s = (r, s') \<Longrightarrow> erase s' = erase s"
proof -
  have "buddy_alloc_scan zp order ks s = (r, s') \<Longrightarrow> erase s' = erase s" for ks
  proof (induction zp order ks s rule: buddy_alloc_scan.induct)
    case (2 zp order k ks s)
    have e: "erase (upd_page p (\<lambda>q. q\<lparr>pg_flags := clear_flag (pg_flags q) PG_BUDDY, pg_order := order\<rparr>) t) = erase t"
      for p and t :: "'a mm_state_scheme"
      by (rule erase_upd_page) (simp add: strip_page_def clear_set_flag)
    from 2 show ?case
      by (auto simp: Let_def e split: option.splits if_splits)
  qed simp
  then show "buddy_alloc zp order s = (r, s') \<Longrightarrow> erase s' = erase s" by (simp add: buddy_alloc_def)
qed

lemma erase_buddy_list_remove: "buddy_list_remove zp order p s = Some s' \<Longrightarrow> erase s' = erase s"
proof -
  have "buddy_remove_loop z order p prev cur s = Some s' \<Longrightarrow> erase s' = erase s" for z prev cur
    by (induction rule: buddy_remove_loop.raw_induct [rotated, consumes 1]) (auto split: if_splits)
  then show "buddy_list_remove zp order p s = Some s' \<Longrightarrow> erase s' = erase s"
    by (auto simp: buddy_list_remove_def split: option.splits)
qed

lemma erase_buddy_free_block: "buddy_free_block zp p k s = Some s' \<Longrightarrow> erase s' = erase s"
proof -
  have m: "buddy_merge n z e p k s = Some (p', k', s1) \<Longrightarrow> erase s1 = erase s" for n z e p' k' s1
  proof (induction n z e p k s rule: buddy_merge.induct)
    case (2 n z e p k s)
    then show ?case
      by (auto simp: Let_def split: option.splits if_splits dest: erase_buddy_list_remove)
  qed simp
  then show "buddy_free_block zp p k s = Some s' \<Longrightarrow> erase s' = erase s"
    by (auto simp: buddy_free_block_def Let_def split: option.splits)
qed

lemma erase_page:
  assumes "erase s' = erase s"
  shows "refcount (mem_map s' p) = refcount (mem_map s p)" "mapcount (mem_map s' p) = mapcount (mem_map s p)"
    "map_mm (mem_map s' p) = map_mm (mem_map s p)" "map_vaddr (mem_map s' p) = map_vaddr (mem_map s p)"
    "rmap_list (mem_map s' p) = rmap_list (mem_map s p)"
    "clear_flag (pg_flags (mem_map s' p)) PG_BUDDY = clear_flag (pg_flags (mem_map s p)) PG_BUDDY"
proof -
  have "mem_map (erase s') p = mem_map (erase s) p" using assms by simp
  then have "strip_page (mem_map s' p) = strip_page (mem_map s p)" by (simp add: erase_def)
  then show "refcount (mem_map s' p) = refcount (mem_map s p)" "mapcount (mem_map s' p) = mapcount (mem_map s p)"
    "map_mm (mem_map s' p) = map_mm (mem_map s p)" "map_vaddr (mem_map s' p) = map_vaddr (mem_map s p)"
    "rmap_list (mem_map s' p) = rmap_list (mem_map s p)"
    "clear_flag (pg_flags (mem_map s' p)) PG_BUDDY = clear_flag (pg_flags (mem_map s p)) PG_BUDDY"
    by (cases "mem_map s' p"; cases "mem_map s p"; simp add: strip_page_def)+
qed

lemma erase_state:
  assumes "erase s' = erase s"
  shows "buddy_ready s' = buddy_ready s" "contig_zonelist s' = contig_zonelist s" "dma_zonelist s' = dma_zonelist s"
    "total_pages s' = total_pages s" "mem_map_pages s' = mem_map_pages s" "mem_map_set s' = mem_map_set s"
    "buddy_max_order s' = buddy_max_order s" "mm_state.more s' = mm_state.more s" "bootmem s' = bootmem s"
    "watermark (get_zone z s') = watermark (get_zone z s)" "managed_pages (get_zone z s') = managed_pages (get_zone z s)"
    "inactive_list (get_zone z s') = inactive_list (get_zone z s)"
proof -
  have *: "f (erase s') = f (erase s)" for f :: "'a mm_state_scheme \<Rightarrow> 'c" using assms by simp
  show "buddy_ready s' = buddy_ready s" using * [of buddy_ready] by (simp add: erase_def)
  show "contig_zonelist s' = contig_zonelist s" using * [of contig_zonelist] by (simp add: erase_def)
  show "dma_zonelist s' = dma_zonelist s" using * [of dma_zonelist] by (simp add: erase_def)
  show "total_pages s' = total_pages s" using * [of total_pages] by (simp add: erase_def)
  show "mem_map_pages s' = mem_map_pages s" using * [of mem_map_pages] by (simp add: erase_def)
  show "mem_map_set s' = mem_map_set s" using * [of mem_map_set] by (simp add: erase_def)
  show "buddy_max_order s' = buddy_max_order s" using * [of buddy_max_order] by (simp add: erase_def)
  show "mm_state.more s' = mm_state.more s" using * [of mm_state.more] by (simp add: erase_def)
  show "bootmem s' = bootmem s" using * [of bootmem] by (simp add: erase_def)
  have "strip_zone (get_zone z s') = strip_zone (get_zone z s)"
    using * [of zone_dma] * [of zone_normal] by (cases z) (simp_all add: erase_def)
  then show "watermark (get_zone z s') = watermark (get_zone z s)"
    "managed_pages (get_zone z s') = managed_pages (get_zone z s)"
    "inactive_list (get_zone z s') = inactive_list (get_zone z s)"
    by (cases "get_zone z s'"; cases "get_zone z s"; simp add: strip_zone_def)+
qed

text \<open>Conversely, updates that keep the buddy data keep every notion of the buddy invariant.\<close>

definition same_buddy :: "'a mm_state_scheme \<Rightarrow> 'a mm_state_scheme \<Rightarrow> bool" where
  "same_buddy s s' \<longleftrightarrow> same_shape s s' \<and> buddy_next s' = buddy_next s \<and>
     (\<forall>z. free_area (get_zone z s') = free_area (get_zone z s)) \<and>
     (\<forall>p. pg_order (mem_map s' p) = pg_order (mem_map s p) \<and>
          has_flag (pg_flags (mem_map s' p)) PG_BUDDY = has_flag (pg_flags (mem_map s p)) PG_BUDDY)"

lemma same_buddy_refl [simp]: "same_buddy s s"
  by (simp add: same_buddy_def)

lemma same_buddy_trans: "same_buddy s t \<Longrightarrow> same_buddy t u \<Longrightarrow> same_buddy s u"
  by (auto simp: same_buddy_def intro: same_shape_trans)

lemma same_buddy_sym: "same_buddy s t \<Longrightarrow> same_buddy t s"
  by (simp add: same_buddy_def same_shape_def)

lemma same_buddyD:
  assumes "same_buddy s s'"
  shows "is_free s' = is_free s" "free_frames s' = free_frames s" "coalesced s' = coalesced s"
    "buddy_inv s' F = buddy_inv s F" "same_shape s s'" "zone_free_pages zp s' = zone_free_pages zp s"
proof -
  have ss: "same_shape s s'" using assms by (simp add: same_buddy_def)
  have fr: "is_free s' = is_free s"
    using assms same_shapeD [OF ss] by (simp add: same_buddy_def is_free_def fun_eq_iff)
  then show "is_free s' = is_free s" "free_frames s' = free_frames s" "coalesced s' = coalesced s" "same_shape s s'"
    using same_shapeD [OF ss] ss by (simp_all add: free_frames_def coalesced_def mergeable_def)
  show "buddy_inv s' F = buddy_inv s F"
    using assms fr same_shapeD [OF ss] by (simp add: buddy_inv_def same_buddy_def)
  show "zone_free_pages zp s' = zone_free_pages zp s"
    using assms by (simp add: zone_free_pages_def same_buddy_def split: option.split)
qed

lemma same_buddy_upd_page:
  assumes "\<And>q. pg_order (f q) = pg_order q" "\<And>q. has_flag (pg_flags (f q)) PG_BUDDY = has_flag (pg_flags q) PG_BUDDY"
  shows "same_buddy s (upd_page p f s)"
  using assms by (simp add: same_buddy_def same_shape_def)

lemma same_buddy_upd_zone:
  assumes "\<And>q. free_area (f q) = free_area q" "\<And>q. start_pfn (f q) = start_pfn q" "\<And>q. spanned_pages (f q) = spanned_pages q"
  shows "same_buddy s (upd_zone z f s)"
  using assms by (simp add: same_buddy_def same_shape_def)

lemma same_buddy_wakeup [simp]: "same_buddy s (wakeup_kswapd zp s)"
proof -
  have "get_zone z (s\<lparr>kswapd_wakeups := n\<rparr>) = get_zone z s" for z n by (cases z) simp_all
  then show ?thesis by (simp add: wakeup_kswapd_def same_buddy_def same_shape_def)
qed

subsection \<open>Reference counts\<close>

lemma set_refcounts_Suc:
  "set_refcounts f (Suc n) s = (case pfn_to_page (set_refcounts f n s) (f + n) of None \<Rightarrow> set_refcounts f n s
     | Some p \<Rightarrow> upd_page p (\<lambda>q. q\<lparr>refcount := 1\<rparr>) (set_refcounts f n s))"
  by (simp add: set_refcounts_def split: option.split)

lemma set_refcounts_effect:
  "same_buddy s (set_refcounts f n s)" "buddy_ready (set_refcounts f n s) = buddy_ready s"
  "pfn_to_page (set_refcounts f n s) = pfn_to_page s"
  "mem_map (set_refcounts f n s) p =
     (if f \<le> p \<and> p < f + n \<and> pfn_to_page s p \<noteq> None then (mem_map s p)\<lparr>refcount := 1\<rparr> else mem_map s p)"
proof (induction n arbitrary: p)
  case (Suc n)
  note [simp] = set_refcounts_Suc
  { case 1 show ?case
      by (auto split: option.split intro!: Suc(1) same_buddy_trans [OF Suc(1) same_buddy_upd_page]) }
  { case 2 show ?case by (simp add: Suc(2) split: option.split) }
  { case 3 show ?case
      using Suc(3) by (cases "pfn_to_page (set_refcounts f n s) (f + n)") (simp_all add: pfn_to_page_def fun_eq_iff) }
  { case 4
    have "pfn_to_page s (f + n) = None \<or> pfn_to_page s (f + n) = Some (f + n)" by (simp add: pfn_to_page_def)
    then show ?case by (auto simp: Suc(3) Suc(4) less_Suc_eq) }
qed (simp_all add: set_refcounts_def)

text \<open>Frames in the free lists have no references.\<close>

definition pages_inv :: "'a mm_state_scheme \<Rightarrow> bool" where
  "pages_inv s \<longleftrightarrow> (\<exists>F. buddy_inv s F) \<and> coalesced s \<and> (\<forall>f \<in> free_frames s. refcount (mem_map s f) = 0)"

definition fresh_block :: "'a mm_state_scheme \<Rightarrow> nat \<Rightarrow> nat \<Rightarrow> bool" where
  "fresh_block s order p \<longleftrightarrow> p \<noteq> 0 \<and> 2 ^ order dvd p \<and> block p order \<inter> free_frames s = {} \<and>
     (\<forall>f \<in> block p order. f < mem_map_pages s \<and> refcount (mem_map s f) = 1)"

lemma took_block_pages:
  assumes inv: "pages_inv s" and tb: "took_block s z order p s'" and er: "erase s' = erase s"
  defines "t \<equiv> set_refcounts p (2 ^ order) s'"
  shows "pages_inv t" "fresh_block t order p" "free_frames t = free_frames s - block p order" "same_shape s t"
    "pfn_to_page t p = Some p"
proof -
  obtain F where F: "buddy_inv s F" "coalesced s" using inv by (auto simp: pages_inv_def)
  obtain F' where F': "buddy_inv s' F'" "same_shape s s'" "free_frames s' = free_frames s - block p order"
    using tb by (auto simp: took_block_def)
  note sb = same_buddyD [OF set_refcounts_effect(1) [of s' p "2 ^ order"], folded t_def]
  note fr = took_block_frames [OF F(1) tb]
  show ff: "free_frames t = free_frames s - block p order" using sb(2) F'(3) by simp
  show ss: "same_shape s t" using F'(2) sb(5) by (rule same_shape_trans)
  have g: "geometry s" using F(1) by (rule buddy_inv_geometry)
  have inm: "pfn_to_page s' f = Some f" if "f \<in> block p order" for f
  proof -
    have "f < mem_map_pages s" using fr(2) that by (intro geometry_zone [OF g]) (auto simp: zone_frames_def)
    then show ?thesis using g by (simp add: same_shapeD [OF F'(2)] pfn_to_page_def geometry_def)
  qed
  show "pages_inv t"
    unfolding pages_inv_def
  proof (intro conjI ballI)
    show "\<exists>F. buddy_inv t F" using F'(1) sb(4) by blast
    show "coalesced t" using coalesced_alloc [OF F tb] sb(3) by simp
    fix f assume "f \<in> free_frames t"
    then have "f \<notin> block p order" "f \<in> free_frames s" using ff by auto
    then show "refcount (mem_map t f) = 0"
      using inv by (auto simp: t_def set_refcounts_effect(4) block_def erase_page [OF er] pages_inv_def)
  qed
  have "f < mem_map_pages t \<and> refcount (mem_map t f) = 1" if "f \<in> block p order" for f
    using inm [OF that] that
    by (simp add: t_def set_refcounts_effect(4) block_def)
      (metis option.distinct(1) pfn_to_page_def not_le set_refcounts_effect(3))
  then show "fresh_block t order p" using fr ff by (auto simp: fresh_block_def)
  show "pfn_to_page t p = Some p" using inm [of p] by (simp add: t_def set_refcounts_effect(3))
qed


subsection \<open>Allocation with reclaim\<close>

text \<open>
  What the allocator relies on of the reclaim code: \<open>I\<close> is an invariant of the whole state that implies the
  page invariant, that reclaim and the waking of kswapd keep, and that survives handing out a block.
  Reclaim always returns and leaves the zone layout, the zone lists and \<open>buddy_ready\<close> as they are.
\<close>

definition same_config :: "'a mm_state_scheme \<Rightarrow> 'a mm_state_scheme \<Rightarrow> bool" where
  "same_config s s' \<longleftrightarrow> same_shape s s' \<and> buddy_ready s' = buddy_ready s \<and>
     contig_zonelist s' = contig_zonelist s \<and> dma_zonelist s' = dma_zonelist s"

lemma same_config_refl [simp]: "same_config s s"
  by (simp add: same_config_def)

lemma same_config_trans: "same_config s t \<Longrightarrow> same_config t u \<Longrightarrow> same_config s u"
  by (auto simp: same_config_def intro: same_shape_trans)

lemma same_config_wakeup [simp]: "same_config s (wakeup_kswapd zp s)"
  using same_buddyD(5) [OF same_buddy_wakeup [of s zp]] by (simp add: same_config_def) (simp add: wakeup_kswapd_def)

lemma set_refcounts_config:
  "contig_zonelist (set_refcounts f n s) = contig_zonelist s" "dma_zonelist (set_refcounts f n s) = dma_zonelist s"
  by (induction n) (auto simp: set_refcounts_Suc set_refcounts_def [of _ 0] split: option.split)

lemma took_block_config:
  assumes "took_block s z order p s'" "erase s' = erase s"
  shows "same_config s (set_refcounts p (2 ^ order) s')"
proof -
  have "same_shape s s'" using assms(1) by (simp add: took_block_def)
  moreover have "same_shape s' (set_refcounts p (2 ^ order) s')"
    using set_refcounts_effect(1) by (rule same_buddyD(5))
  ultimately show ?thesis
    using erase_state [OF assms(2)]
    by (auto simp: same_config_def set_refcounts_effect(2) set_refcounts_config intro: same_shape_trans)
qed

locale reclaimer =
  fixes shrink :: "'a shrinker" and I :: "'a mm_state_scheme \<Rightarrow> bool"
  assumes I_pages: "I s \<Longrightarrow> pages_inv s"
    and I_wakeup: "I s \<Longrightarrow> I (wakeup_kswapd zp s)"
    and I_alloc: "I s \<Longrightarrow> took_block s z order p s' \<Longrightarrow> erase s' = erase s \<Longrightarrow> I (set_refcounts p (2 ^ order) s')"
    and I_shrink: "I s \<Longrightarrow> \<exists>n s'. shrink zp order sc s = Some (n, s') \<and> I s' \<and> same_config s s'"
begin

lemma reclaim_slowpath:
  assumes "I s"
  shows "\<exists>s'. alloc_reclaim_slowpath shrink zp order s = Some s' \<and> I s' \<and> same_config s s'"
proof (cases zp)
  case (Some z)
  then obtain n s' where "shrink zp order (Some alloc_build_scan_control) (wakeup_kswapd zp s) = Some (n, s')"
    "I s'" "same_config (wakeup_kswapd zp s) s'"
    using I_shrink [OF I_wakeup [OF assms]] by blast
  then show ?thesis
    using Some by (auto simp: alloc_reclaim_slowpath_def intro: same_config_trans [OF same_config_wakeup])
qed (simp add: alloc_reclaim_slowpath_def assms)

lemma buddy_alloc_ok:
  assumes "I s" "buddy_alloc (Some z) order s = (frame, s')"
  shows "frame < 0 \<and> s' = s \<or>
    0 \<le> frame \<and> I (set_refcounts (nat frame) (2 ^ order) s') \<and> same_config s (set_refcounts (nat frame) (2 ^ order) s') \<and>
    fresh_block (set_refcounts (nat frame) (2 ^ order) s') order (nat frame) \<and>
    pfn_to_page (set_refcounts (nat frame) (2 ^ order) s') (nat frame) = Some (nat frame)"
proof -
  have pv: "pages_inv s" by (rule I_pages [OF assms(1)])
  then obtain F where F: "buddy_inv s F" by (auto simp: pages_inv_def)
  have er: "erase s' = erase s" by (rule erase_buddy_alloc [OF assms(2)])
  from buddy_alloc_correct [OF F, of z order] assms(2)
  consider "frame = -1" "s' = s" | p where "frame = int p" "took_block s z order p s'" by auto
  then show ?thesis
  proof cases
    case (2 p)
    then show ?thesis
      using took_block_pages [OF pv 2(2) er] took_block_config [OF 2(2) er] I_alloc [OF assms(1) 2(2) er] by simp
  qed simp
qed

lemma alloc_zones_ok:
  assumes "I s"
  shows "\<exists>r s'. alloc_zones shrink order pass zs s = Some (r, s') \<and> I s' \<and> same_config s s' \<and>
    (\<forall>q. r = Some q \<longrightarrow> (\<exists>p. q = Some p \<and> fresh_block s' order p))"
  using assms
proof (induction zs arbitrary: s)
  case (Cons z zs)
  obtain s1 where s1: "alloc_reclaim_slowpath shrink (Some z) order s = Some s1" "I s1" "same_config s s1"
    using reclaim_slowpath [OF Cons.prems] by blast
  obtain frame s2 where s2: "buddy_alloc (Some z) order s = (frame, s2)" by (metis surj_pair)
  note IH = Cons.IH [OF Cons.prems] Cons.IH [OF s1(2)] Cons.IH [OF I_wakeup [OF Cons.prems, of "Some z"]]
  from IH(2) obtain r' t' where r': "alloc_zones shrink order pass zs s1 = Some (r', t')" "I t'" "same_config s1 t'"
    "\<forall>q. r' = Some q \<longrightarrow> (\<exists>p. q = Some p \<and> fresh_block t' order p)" by blast
  from IH(3) obtain r'' t'' where r'': "alloc_zones shrink order pass zs (wakeup_kswapd (Some z) s) = Some (r'', t'')"
    "I t''" "same_config (wakeup_kswapd (Some z) s) t''"
    "\<forall>q. r'' = Some q \<longrightarrow> (\<exists>p. q = Some p \<and> fresh_block t'' order p)" by blast
  show ?case
    using buddy_alloc_ok [OF Cons.prems s2] IH(1) r' r'' s1 s2
      same_config_trans [OF s1(3) r'(3)] same_config_trans [OF same_config_wakeup r''(3)]
    by (auto simp: Let_def)
qed simp

lemma alloc_passes_ok:
  assumes "I s"
  shows "\<exists>r s'. alloc_passes shrink order ps zs s = Some (r, s') \<and> I s' \<and> same_config s s' \<and>
    (\<forall>p. r = Some p \<longrightarrow> fresh_block s' order p)"
  using assms
proof (induction ps arbitrary: s)
  case (Cons pass ps)
  obtain r s1 where r: "alloc_zones shrink order pass zs s = Some (r, s1)" "I s1" "same_config s s1"
    "\<forall>q. r = Some q \<longrightarrow> (\<exists>p. q = Some p \<and> fresh_block s1 order p)"
    using alloc_zones_ok [OF Cons.prems] by blast
  from Cons.IH [OF r(2)] obtain r' s' where r': "alloc_passes shrink order ps zs s1 = Some (r', s')" "I s'"
    "same_config s1 s'" "\<forall>p. r' = Some p \<longrightarrow> fresh_block s' order p" by blast
  show ?case using r r' same_config_trans [OF r(3) r'(3)] by (cases r) auto
qed simp

lemma alloc_pages_nodemask_ok:
  assumes "I s" "buddy_ready s"
  shows "\<exists>r s'. alloc_pages_nodemask shrink gfp_mask order zl s = Some (r, s') \<and> I s' \<and> same_config s s' \<and>
    (\<forall>p. r = Some p \<longrightarrow> fresh_block s' order p)"
  using alloc_passes_ok [OF assms(1)] assms(2)
  by (simp add: alloc_pages_nodemask_def Let_def del: alloc_passes.simps)

lemma alloc_pages_ok:
  assumes "I s" "buddy_ready s"
  shows "\<exists>a s'. alloc_pages shrink gfp_mask order s = Some (a, s') \<and> I s' \<and> same_config s s' \<and>
    (a = 0 \<or> (\<exists>p. a = of_nat p * PAGE_SIZE \<and> fresh_block s' order p))"
proof -
  obtain r s' where r: "alloc_pages_nodemask shrink gfp_mask order None s = Some (r, s')" "I s'" "same_config s s'"
    "\<forall>p. r = Some p \<longrightarrow> fresh_block s' order p"
    using alloc_pages_nodemask_ok [OF assms] by blast
  obtain F where "buddy_inv s' F" using I_pages [OF r(2)] by (auto simp: pages_inv_def)
  then have "mem_map_set s'" using buddy_inv_geometry by (auto simp: geometry_def)
  then show ?thesis
    using r by (cases r) (auto simp: alloc_pages_def page_to_pfn_def fresh_block_def eval_nat_numeral)
qed

end

subsection \<open>The fast path\<close>

lemma alloc_zones_fast:
  assumes inv: "buddy_inv s F" and z: "z \<in> set zs" "zone_watermark_ok z order WMARK_HIGH s"
    and q: "is_free s q k" "order \<le> k" "pfn_to_zone s q = Some z"
  shows "\<exists>y p s'. y \<in> set zs \<and> took_block s y order p s' \<and> erase s' = erase s \<and>
    alloc_zones shrink order 0 zs s =
      Some (Some (pfn_to_page (set_refcounts p (2 ^ order) s') p), set_refcounts p (2 ^ order) s')"
  using z(1)
proof (induction zs)
  case (Cons x zs)
  obtain frame s' where ba: "buddy_alloc (Some x) order s = (frame, s')" by (metis surj_pair)
  note er = erase_buddy_alloc [OF ba]
  from buddy_alloc_correct [OF inv, of x order] ba
  consider (none) "frame = -1" "s' = s" "x \<noteq> z" | (some) p where "frame = int p" "took_block s x order p s'"
    using q by auto
  then show ?case
  proof cases
    case none
    then show ?thesis using Cons ba by auto
  next
    case some
    show ?thesis
    proof (cases "zone_watermark_ok x order WMARK_HIGH s")
      case True
      then have "alloc_zones shrink order 0 (x # zs) s =
          Some (Some (pfn_to_page (set_refcounts p (2 ^ order) s') p), set_refcounts p (2 ^ order) s')"
        using some(1) ba by (simp add: Let_def)
      then show ?thesis using some(2) er by auto
    next
      case False
      then have "z \<in> set zs" using Cons.prems z(2) by auto
      then show ?thesis using Cons.IH False by auto
    qed
  qed
qed simp

text \<open>
  C8: If some zone of the zone list stays above its high watermark and has a large enough free block, then
  \<open>alloc_pages\<close> succeeds without reclaim, whatever the reclaim code would do: it returns the
  address of an aligned block that was free, whose pages all have reference count one, and takes
  exactly that block from the free lists.
\<close>
theorem alloc_pages_fast:
  assumes "pages_inv s" "buddy_ready s" "z \<in> set (zl_zones (default_zonelist_for_gfp gfp_mask s))"
    "zone_watermark_ok z order WMARK_HIGH s" "is_free s q k" "order \<le> k" "pfn_to_zone s q = Some z"
  shows "\<exists>p s'. alloc_pages shrink gfp_mask order s = Some (of_nat p * PAGE_SIZE, s') \<and>
    block p order \<subseteq> free_frames s \<and> free_frames s' = free_frames s - block p order \<and>
    fresh_block s' order p \<and> pages_inv s'"
proof -
  obtain F where F: "buddy_inv s F" using assms(1) by (auto simp: pages_inv_def)
  obtain y p s1 where y: "took_block s y order p s1" "erase s1 = erase s"
    "alloc_zones shrink order 0 (zl_zones (default_zonelist_for_gfp gfp_mask s)) s =
      Some (Some (pfn_to_page (set_refcounts p (2 ^ order) s1) p), set_refcounts p (2 ^ order) s1)"
    using alloc_zones_fast [OF F assms(3-7)] by blast
  let ?t = "set_refcounts p (2 ^ order) s1"
  note t = took_block_pages [OF assms(1) y(1,2)]
  have "mem_map_set ?t" using t(1) buddy_inv_geometry by (auto simp: pages_inv_def geometry_def)
  then have "page_to_pfn ?t (Some p) = p" "p \<noteq> 0" using t(2) by (simp_all add: page_to_pfn_def fresh_block_def)
  then have "alloc_pages shrink gfp_mask order s = Some (of_nat p * PAGE_SIZE, ?t)"
    using y(3) t(5) assms(2) by (simp add: alloc_pages_def alloc_pages_nodemask_def eval_nat_numeral)
  then show ?thesis using t took_block_frames(1) [OF F y(1)] by blast
qed


subsection \<open>Freeing\<close>

lemma has_flag_BUDDY_clear_LRU [simp]:
  "has_flag (clear_flag x PG_LRU) PG_BUDDY = has_flag x PG_BUDDY"
  by (rule has_flag_clear_other) (simp add: PG_defs)

lemma same_buddy_lru_del [simp]: "same_buddy s (lru_del pg s)"
proof (cases pg)
  case (Some p)
  have "same_buddy s (upd_zone z (\<lambda>zn. zn\<lparr>nr_inactive := nr_inactive zn - 1, inactive_list := remove1 p (inactive_list zn)\<rparr>) s)" for z
    by (rule same_buddy_upd_zone) simp_all
  then show ?thesis
    using Some by (auto simp: lru_del_def split: option.split intro!: same_buddy_trans [OF _ same_buddy_upd_page])
qed (simp add: lru_del_def)

lemma lru_del_sel [simp]:
  "refcount (mem_map (lru_del pg s) q) = refcount (mem_map s q)" "buddy_ready (lru_del pg s) = buddy_ready s"
  "mem_map_set (lru_del pg s) = mem_map_set s" "mem_map_pages (lru_del pg s) = mem_map_pages s"
  "total_pages (lru_del pg s) = total_pages s"
  by (auto simp: lru_del_def split: option.split)

lemma free_page_step_effect:
  assumes "free_page_step idx (cf, s) = (cf', s')"
  shows "same_buddy s s'"
    "refcount (mem_map s' q) = (if q = idx \<and> pfn_to_page s q \<noteq> None then refcount (mem_map s q) - 1 else refcount (mem_map s q))"
    "cf' \<longleftrightarrow> cf \<and> (pfn_to_page s idx \<noteq> None \<longrightarrow> refcount (mem_map s idx) \<le> 1)"
    "pfn_to_page s' = pfn_to_page s" "buddy_ready s' = buddy_ready s" "total_pages s' = total_pages s"
proof -
  define s1 where "s1 = (if has_flag (pg_flags (mem_map s idx)) PG_LRU then lru_del (Some idx) s else s)"
  have s1: "same_buddy s s1" "refcount (mem_map s1 q) = refcount (mem_map s q)" "pfn_to_page s1 = pfn_to_page s"
    "buddy_ready s1 = buddy_ready s" "total_pages s1 = total_pages s" for q
    by (simp_all add: s1_def fun_eq_iff pfn_to_page_def)
  have st: "(cf', s') = (if pfn_to_page s idx = None then (cf, s)
      else if refcount (mem_map s idx) > 1 then (False, upd_page idx (\<lambda>q. q\<lparr>refcount := refcount q - 1\<rparr>) s1)
      else if refcount (mem_map s idx) = 1 then (cf, upd_page idx (\<lambda>q. q\<lparr>refcount := 0\<rparr>) s1) else (cf, s1))"
    using assms by (auto simp: free_page_step_def s1_def [symmetric] s1(2) pfn_to_page_def split: if_splits)
  have pp: "pfn_to_page (upd_page idx f s1) = pfn_to_page s" for f
    using s1(3) by (simp add: fun_eq_iff pfn_to_page_def)
  show "same_buddy s s'"
    using st s1(1) by (auto split: if_splits intro!: same_buddy_trans [OF s1(1) same_buddy_upd_page])
  show "refcount (mem_map s' q) = (if q = idx \<and> pfn_to_page s q \<noteq> None then refcount (mem_map s q) - 1 else refcount (mem_map s q))"
    using st by (auto simp: s1(2) split: if_splits)
  show "cf' \<longleftrightarrow> cf \<and> (pfn_to_page s idx \<noteq> None \<longrightarrow> refcount (mem_map s idx) \<le> 1)"
    using st by (auto split: if_splits)
  show "pfn_to_page s' = pfn_to_page s" "buddy_ready s' = buddy_ready s" "total_pages s' = total_pages s"
    using st by (auto simp: s1 pp split: if_splits)
qed

lemma free_page_steps_effect:
  assumes "fold free_page_step is (cf, s) = (cf', s')" "distinct is"
  shows "same_buddy s s' \<and> pfn_to_page s' = pfn_to_page s \<and> buddy_ready s' = buddy_ready s \<and> total_pages s' = total_pages s \<and>
    (\<forall>q. refcount (mem_map s' q) =
       (if q \<in> set is \<and> pfn_to_page s q \<noteq> None then refcount (mem_map s q) - 1 else refcount (mem_map s q))) \<and>
    (cf' \<longleftrightarrow> cf \<and> (\<forall>q \<in> set is. pfn_to_page s q \<noteq> None \<longrightarrow> refcount (mem_map s q) \<le> 1))"
  using assms
proof (induction "is" arbitrary: cf s)
  case (Cons i "is")
  obtain c1 s1 where c1: "free_page_step i (cf, s) = (c1, s1)" by (metis surj_pair)
  note e = free_page_step_effect [OF c1]
  have "fold free_page_step is (c1, s1) = (cf', s')" using Cons.prems(1) c1 by simp
  note IH = Cons.IH [OF this]
  have d: "distinct is" "i \<notin> set is" using Cons.prems(2) by auto
  have "same_buddy s s'" using IH d(1) e(1) by (blast intro: same_buddy_trans)
  then show ?case using IH d by (auto simp: e)
qed auto

lemma page_addr:
  assumes "p < 2 ^ 20"
  shows "unat (of_nat p * PAGE_SIZE :: u32) = p * 4096" "(of_nat p * PAGE_SIZE :: u32) AND (PAGE_SIZE - 1) = 0"
    "unat ((of_nat p * PAGE_SIZE :: u32) div PAGE_SIZE) = p"
proof -
  show u: "unat (of_nat p * PAGE_SIZE :: u32) = p * 4096"
    using assms by (simp add: unat_word_ariths unat_of_nat)
  show "unat ((of_nat p * PAGE_SIZE :: u32) div PAGE_SIZE) = p"
    unfolding unat_div using u by simp
  have "(of_nat p * PAGE_SIZE :: u32) AND (PAGE_SIZE - 1) = take_bit 12 (of_nat p * PAGE_SIZE)"
    by (simp add: take_bit_eq_mask mask_eq_exp_minus_1)
  also have "\<dots> = 0" by (simp add: word_unat_eq_iff take_bit_eq_mod unat_mod u)
  finally show "(of_nat p * PAGE_SIZE :: u32) AND (PAGE_SIZE - 1) = 0" .
qed

lemma free_pages_correct:
  assumes "pages_inv s" "buddy_ready s" "total_pages s = mem_map_pages s"
    "block_ok s z p order" "block p order \<inter> free_frames s = {}" "p < 0xC0000"
  shows "\<exists>s'. free_pages (of_nat p * PAGE_SIZE) order s = Some (Inr s') \<and> pages_inv s' \<and>
    (\<forall>f. refcount (mem_map s' f) = (if f \<in> block p order then refcount (mem_map s f) - 1 else refcount (mem_map s f))) \<and>
    free_frames s' = (if \<forall>f \<in> block p order. refcount (mem_map s f) \<le> 1
      then free_frames s \<union> block p order else free_frames s)"
proof -
  let ?addr = "of_nat p * PAGE_SIZE :: u32"
  have ok: "\<not> ?addr \<ge> PAGE_OFFSET" "?addr AND (PAGE_SIZE - 1) = 0" "unat (?addr div PAGE_SIZE) = p"
    using page_addr [of p] assms(6) by (simp_all add: word_le_nat_alt)
  obtain F where F: "buddy_inv s F" "coalesced s" using assms(1) by (auto simp: pages_inv_def)
  have g: "geometry s" using F(1) by (rule buddy_inv_geometry)
  have inm: "pfn_to_page s f = Some f" if "f \<in> block p order" for f
    using that assms(4) geometry_zone(1) [OF g, of z f] g
    by (simp add: pfn_to_page_def block_ok_def block_def geometry_def)
  have p: "p < total_pages s" using inm [of p] assms(3) by (simp add: pfn_to_page_def split: if_splits)
  obtain cf s1 where st: "fold free_page_step [p..<p + 2 ^ order] (True, s) = (cf, s1)" by (metis surj_pair)
  note e = free_page_steps_effect [OF st distinct_upt]
  have sb: "same_buddy s s1" using e by blast
  note sbd = same_buddyD [OF sb]
  have rc: "refcount (mem_map s1 f) = (if f \<in> block p order then refcount (mem_map s f) - 1 else refcount (mem_map s f))" for f
    using e inm by (auto simp: block_def)
  have cf: "cf \<longleftrightarrow> (\<forall>f \<in> block p order. refcount (mem_map s f) \<le> 1)"
    using e inm by (auto simp: block_def)
  have inv1: "pages_inv s1" using assms(1) sbd rc by (auto simp: pages_inv_def)
  have ff1: "block p order \<inter> free_frames s1 = {}" using assms(5) sbd by simp
  have ok1: "block_ok s1 z p order" using assms(4) same_shapeD [OF sbd(5)] by simp
  obtain s2 p' k' s3 F3 where fb: "buddy_free_block (Some z) p order s1 = Some s3" "merged s1 z p order s2 p' k'"
    "adds_block z k' p' s2 s3" "buddy_inv s3 F3" "free_frames s3 = free_frames s1 \<union> block p order"
    using buddy_free_block_cases [of s1 F z p order] F(1) sbd(4) ok1 ff1 by metis
  have "pfn_to_zone s1 p = Some z"
    using block_ok_zone [OF g assms(4)] same_shapeD [OF sbd(5)] by simp
  then have res: "free_pages ?addr order s = (if cf then Some (Inr s3) else Some (Inr s1))"
    using ok p assms(2) st fb(1) by (simp add: free_pages_def Let_def)
  show ?thesis
  proof (cases cf)
    case True
    have er: "erase s3 = erase s1" by (rule erase_buddy_free_block [OF fb(1)])
    have "coalesced s3" using coalesced_free [OF _ _ fb(2,3)] inv1 by (auto simp: pages_inv_def)
    moreover have "refcount (mem_map s3 f) = 0" if "f \<in> free_frames s3" for f
    proof -
      have "f \<in> free_frames s \<or> f \<in> block p order" using that fb(5) sbd(2) by auto
      then show ?thesis
        using True cf rc assms(1) erase_page(1) [OF er] by (auto simp: pages_inv_def)
    qed
    ultimately have "pages_inv s3" using fb(4) by (auto simp: pages_inv_def)
    then show ?thesis
      using res True cf fb(5) sbd(2) rc erase_page(1) [OF er] by simp
  next
    case False
    then have nc: "\<not> (\<forall>f \<in> block p order. refcount (mem_map s f) \<le> 1)" using cf by blast
    have "free_pages ?addr order s = Some (Inr s1)" using res False by simp
    then show ?thesis unfolding if_not_P [OF nc] using inv1 sbd(2) rc by auto
  qed
qed

text \<open>
  C9: Freeing a block of allocated pages never panics and always returns.  Every page of the block
  loses one reference; if no page was shared the whole block goes back to the free lists, and if some page was
  shared nothing does.  The page invariant is kept.
\<close>
theorem free_pages_spec:
  assumes "pages_inv s" "buddy_ready s" "total_pages s = mem_map_pages s"
    "block_ok s z p order" "block p order \<inter> free_frames s = {}" "p < 0xC0000"
  shows "\<exists>s'. free_pages (of_nat p * PAGE_SIZE) order s = Some (Inr s') \<and> pages_inv s' \<and>
    (\<forall>f \<in> block p order. refcount (mem_map s' f) = refcount (mem_map s f) - 1) \<and>
    free_frames s' = (if \<forall>f \<in> block p order. refcount (mem_map s f) \<le> 1
      then free_frames s \<union> block p order else free_frames s)"
  using free_pages_correct [OF assms] by auto

text \<open>
  C10: Taking a reference with \<open>get_page\<close> and dropping it with \<open>free_pages\<close> leaves the whole state as it was, for every
  allocated page that is not on an inactive list and whose 16-bit count is not saturated.
\<close>
theorem get_page_free_page:
  assumes "buddy_ready s" "mem_map_set s" "total_pages s = mem_map_pages s" "p < mem_map_pages s" "p < 0xC0000"
    "0 < refcount (mem_map s p)" "refcount (mem_map s p) < 0xFFFF" "\<not> has_flag (pg_flags (mem_map s p)) PG_LRU"
  shows "free_pages (of_nat p * PAGE_SIZE) 0 (get_page (of_nat p * PAGE_SIZE) s) = Some (Inr s)"
proof -
  let ?addr = "of_nat p * PAGE_SIZE :: u32"
  let ?t = "upd_page p (\<lambda>q. q\<lparr>refcount := refcount q + 1\<rparr>) s"
  have ok: "\<not> ?addr \<ge> PAGE_OFFSET" "?addr AND (PAGE_SIZE - 1) = 0" "unat (?addr div PAGE_SIZE) = p"
    using page_addr [of p] assms(5) by (simp_all add: word_le_nat_alt)
  have "get_page ?addr s = ?t"
    using assms(2,4,6,7) by (simp add: get_page_def ok(3) pfn_to_page_def)
  moreover have "upd_page p (\<lambda>q. q\<lparr>refcount := refcount q - 1\<rparr>) ?t = s"
    by (cases s) (simp add: upd_page_def)
  ultimately show ?thesis
    using assms ok by (simp add: free_pages_def free_page_step_def pfn_to_page_def)
qed

subsection \<open>Start-up\<close>

lemma takeWhile_upt: "takeWhile (\<lambda>i. a + i < n) [0..<m] = [0..<min m (n - a)]"
proof (induction m)
  case (Suc m)
  show ?case
  proof (cases "a + m < n")
    case True
    then have "takeWhile (\<lambda>i. a + i < n) [0..<m] = [0..<m]" by (auto simp: takeWhile_eq_all_conv)
    then show ?thesis using True by (simp add: takeWhile_append min_def)
  next
    case False
    then have "takeWhile (\<lambda>i. a + i < n) ([0..<m] @ [m]) = takeWhile (\<lambda>i. a + i < n) [0..<m]"
      by (metis (no_types, lifting) append_Nil2 takeWhile.simps(1,2) takeWhile_append takeWhile_eq_all_conv)
    moreover have "min m (n - a) = n - a" "min (Suc m) (n - a) = n - a" using False by auto
    ultimately show ?thesis using Suc by simp
  qed
qed simp

text \<open>The part of the state that releasing reserved pages does not touch.\<close>

definition release_frame :: "'a mm_state_scheme \<Rightarrow> 'a mm_state_scheme \<Rightarrow> bool" where
  "release_frame s s' \<longleftrightarrow> same_buddy s s' \<and> bootmem s' = bootmem s \<and> total_pages s' = total_pages s \<and>
     (\<forall>q. refcount (mem_map s' q) = refcount (mem_map s q))"

lemma release_frame_refl [simp]: "release_frame s s"
  by (simp add: release_frame_def)

lemma release_frame_trans: "release_frame s t \<Longrightarrow> release_frame t u \<Longrightarrow> release_frame s u"
  by (auto simp: release_frame_def intro: same_buddy_trans)

definition page_reserved :: "'a mm_state_scheme \<Rightarrow> nat \<Rightarrow> bool" where
  "page_reserved s q \<longleftrightarrow> has_flag (pg_flags (mem_map s q)) PG_RESERVED"

lemma mem_init_page_effect:
  "release_frame s (mem_init_page pfn s)"
  "page_reserved (mem_init_page pfn s) q \<longleftrightarrow> page_reserved s q \<and>
     \<not> (q = unat pfn \<and> pfn_to_page s q \<noteq> None \<and> \<not> bootmem_is_reserved (bootmem s) (pfn * PAGE_SIZE) PAGE_SIZE)"
proof -
  have b: "has_flag (clear_flag x PG_RESERVED) PG_BUDDY = has_flag x PG_BUDDY" for x
    by (rule has_flag_clear_other) (simp add: PG_defs)
  show "release_frame s (mem_init_page pfn s)"
    by (auto simp: mem_init_page_def release_frame_def b split: option.split intro!: same_buddy_upd_page)
  show "page_reserved (mem_init_page pfn s) q \<longleftrightarrow> page_reserved s q \<and>
     \<not> (q = unat pfn \<and> pfn_to_page s q \<noteq> None \<and> \<not> bootmem_is_reserved (bootmem s) (pfn * PAGE_SIZE) PAGE_SIZE)"
    by (auto simp: mem_init_page_def page_reserved_def has_flag_clear pfn_to_page_def PG_defs split: option.split)
qed

lemma release_pfn: "release_frame s s' \<Longrightarrow> pfn_to_page s' = pfn_to_page s"
  by (auto simp: release_frame_def dest!: same_buddyD(5) dest: same_shapeD)

lemma mem_init_pages_effect:
  "release_frame s (fold (\<lambda>i. mem_init_page (f i)) is s)"
  "page_reserved (fold (\<lambda>i. mem_init_page (f i)) is s) q \<longleftrightarrow> page_reserved s q \<and>
     \<not> (pfn_to_page s q \<noteq> None \<and>
        (\<exists>i \<in> set is. q = unat (f i) \<and> \<not> bootmem_is_reserved (bootmem s) (f i * PAGE_SIZE) PAGE_SIZE))"
proof (induction "is" arbitrary: s q)
  case (Cons i "is")
  { case 1 show ?case
      using Cons(1) [of "mem_init_page (f i) s"] mem_init_page_effect(1) [of s "f i"] release_frame_trans by simp blast }
  { case 2
    note e = mem_init_page_effect(1) [of s "f i"] mem_init_page_effect(2) [of "f i" s]
    have "bootmem (mem_init_page (f i) s) = bootmem s" using e(1) by (simp add: release_frame_def)
    then show ?case 
      by (cases "q = unat (f i)") (auto simp: Cons(2) release_pfn [OF e(1)] e(2)) }
qed simp_all

lemma page_number_lt: "unat ((x :: u32) div PAGE_SIZE) < 2 ^ 20"
proof -
  have "unat x < 2 ^ 20 * 4096" using unsigned_less [of x] by simp
  then have "unat x div 4096 < 2 ^ 20" by (rule less_mult_imp_div_less)
  then show ?thesis by (simp add: unat_div)
qed

text \<open>The frames that an entry of the memory map releases.\<close>

definition entry_frames :: "'a mm_state_scheme \<Rightarrow> multiboot_memory_map \<Rightarrow> nat set" where
  "entry_frames s e = (if mtype e = MULTIBOOT_MEMORY_AVAILABLE \<and> addr_low e \<ge> 0x100000
     then {f. unat (addr_low e div PAGE_SIZE) \<le> f \<and> f < unat (addr_low e div PAGE_SIZE) + unat (len_low e div PAGE_SIZE) \<and>
              f < total_pages s \<and> \<not> bootmem_is_reserved (bootmem s) (of_nat f * PAGE_SIZE) PAGE_SIZE}
     else {})"

lemma mem_init_entry_effect:
  "release_frame s (mem_init_entry e s)"
  "page_reserved (mem_init_entry e s) q \<longleftrightarrow> page_reserved s q \<and> \<not> (pfn_to_page s q \<noteq> None \<and> q \<in> entry_frames s e)"
proof -
  let ?a = "addr_low e div PAGE_SIZE" and ?n = "len_low e div PAGE_SIZE"
  let ?is = "takeWhile (\<lambda>i. unat ?a + i < total_pages s) [0..<unat ?n]"
  define g where "g = (\<lambda>i. ?a + of_nat i)"
  have m: "mem_init_entry e s = (if mtype e = MULTIBOOT_MEMORY_AVAILABLE \<and> addr_low e \<ge> 0x100000
      then fold (\<lambda>i. mem_init_page (g i)) ?is s else s)"
    by (auto simp: mem_init_entry_def Let_def g_def not_le)
  show "release_frame s (mem_init_entry e s)" unfolding m by (simp add: mem_init_pages_effect(1))
  have u: "unat (g i) = unat ?a + i" if "i < unat ?n" for i
    using that page_number_lt [of "addr_low e"] page_number_lt [of "len_low e"]
    unfolding g_def by (simp add: unat_word_ariths unat_of_nat)
  have w: "g i = of_nat (unat ?a + i)" for i by (simp add: g_def)
  have "(\<exists>i \<in> set ?is. q = unat (g i) \<and> \<not> bootmem_is_reserved (bootmem s) (g i * PAGE_SIZE) PAGE_SIZE) \<longleftrightarrow>
    (unat ?a \<le> q \<and> q < unat ?a + unat ?n \<and> q < total_pages s \<and>
      \<not> bootmem_is_reserved (bootmem s) (of_nat q * PAGE_SIZE) PAGE_SIZE)" (is "?l \<longleftrightarrow> ?r")
  proof
    assume ?l
    then obtain i where i: "i < unat ?n" "unat ?a + i < total_pages s" "q = unat (g i)"
      "\<not> bootmem_is_reserved (bootmem s) (g i * PAGE_SIZE) PAGE_SIZE"
      by (auto simp: takeWhile_upt)
    have q: "q = unat ?a + i" using i(1,3) u by simp
    then show ?r using i(1,2,4) unfolding w by simp
  next
    assume r: ?r
    define i where "i = q - unat ?a"
    have i: "i < unat ?n" "q = unat ?a + i" "unat ?a + i < total_pages s" using r by (auto simp: i_def)
    then have "i \<in> set ?is" by (auto simp: takeWhile_upt)
    moreover have "q = unat (g i)" using i u by simp
    moreover have "\<not> bootmem_is_reserved (bootmem s) (g i * PAGE_SIZE) PAGE_SIZE" using r unfolding w i(2) by simp
    ultimately show ?l by blast
  qed
  then show "page_reserved (mem_init_entry e s) q \<longleftrightarrow>
      page_reserved s q \<and> \<not> (pfn_to_page s q \<noteq> None \<and> q \<in> entry_frames s e)"
    unfolding m entry_frames_def by (simp add: mem_init_pages_effect(2))
qed

lemma entry_frames_release: "release_frame s s' \<Longrightarrow> entry_frames s' e = entry_frames s e"
  by (simp add: entry_frames_def release_frame_def)

lemma mem_init_entries_effect:
  "release_frame s (fold mem_init_entry es s)"
  "page_reserved (fold mem_init_entry es s) q \<longleftrightarrow> page_reserved s q \<and>
     \<not> (pfn_to_page s q \<noteq> None \<and> (\<exists>e \<in> set es. q \<in> entry_frames s e))"
proof (induction es arbitrary: s)
  case (Cons e es)
  { case 1 show ?case
      using release_frame_trans [OF mem_init_entry_effect(1) Cons(1)] by simp }
  { case 2 show ?case
      by (auto simp: Cons(2) mem_init_entry_effect(2) release_pfn [OF mem_init_entry_effect(1)]
          entry_frames_release [OF mem_init_entry_effect(1)]) }
qed simp_all

lemma has_flag_clear_eq:
  "clear_flag x PG_BUDDY = clear_flag y PG_BUDDY \<Longrightarrow> has_flag x PG_RESERVED = has_flag y PG_RESERVED"
  using has_flag_clear_other [of PG_BUDDY PG_RESERVED x] has_flag_clear_other [of PG_BUDDY PG_RESERVED y]
  by (simp add: PG_defs)

lemma erase_reserved: "erase s' = erase s \<Longrightarrow> page_reserved s' = page_reserved s"
  by (auto simp: fun_eq_iff page_reserved_def intro!: has_flag_clear_eq dest: erase_page)

lemma pages_inv_free_one:
  assumes inv: "pages_inv s" and p: "p < mem_map_pages s" "p \<noteq> 0" "p \<notin> free_frames s" "refcount (mem_map s p) = 0"
  shows "\<exists>s'. buddy_free_block (pfn_to_zone s p) p 0 s = Some s' \<and> pages_inv s' \<and> same_shape s s' \<and>
    free_frames s' = insert p (free_frames s) \<and> erase s' = erase s"
proof -
  obtain F where F: "buddy_inv s F" "coalesced s" using inv by (auto simp: pages_inv_def)
  obtain z where z: "pfn_to_zone s p = Some z" using zone_cases by blast
  have "block_ok s z p 0" using F(1) p z by (auto simp: block_ok_def dest: buddy_inv_geometry simp: geometry_def)
  moreover have "block p 0 \<inter> free_frames s = {}" using p by (simp add: block_def)
  ultimately obtain s1 p' k' s' F' where s': "buddy_free_block (Some z) p 0 s = Some s'" "merged s z p 0 s1 p' k'"
    "adds_block z k' p' s1 s'" "buddy_inv s' F'" "same_shape s s'" "free_frames s' = free_frames s \<union> block p 0"
    using buddy_free_block_cases [OF F(1)] by metis
  have er: "erase s' = erase s" by (rule erase_buddy_free_block [OF s'(1)])
  have ff: "free_frames s' = insert p (free_frames s)" using s'(6) by (auto simp: block_def)
  then have "pages_inv s'"
    using s'(4) coalesced_free [OF F s'(2,3)] inv p(4) erase_page(1) [OF er] by (auto simp: pages_inv_def)
  then show ?thesis using s' z ff er by auto
qed

text \<open>What the second loop of \<open>mem_init\<close> does from frame \<open>i\<close> on.\<close>

definition managed_upto :: "'a mm_state_scheme \<Rightarrow> nat \<Rightarrow> nat \<Rightarrow> zone_type \<Rightarrow> nat set" where
  "managed_upto s i n z = {f \<in> {i..<n}. \<not> page_reserved s f \<and> pfn_to_zone s f = Some z}"

lemma mem_init_free_loop:
  assumes "pages_inv s" "n = mem_map_pages s" "i \<le> n" "free_frames s = {f. f < i \<and> \<not> page_reserved s f}"
    "page_reserved s 0" "\<forall>f < n. refcount (mem_map s f) = 0"
  shows "\<exists>s'. mem_init_free [i..<n] s = Some s' \<and> pages_inv s' \<and> free_frames s' = {f. f < n \<and> \<not> page_reserved s f} \<and>
    (\<forall>z. managed_pages (get_zone z s') = managed_pages (get_zone z s) + card (managed_upto s i n z))"
  using assms
proof (induction "n - i" arbitrary: i s)
  case 0
  then show ?case by (auto simp: managed_upto_def)
next
  case (Suc d)
  then have i: "i < n" by simp
  have ms: "mem_map_set s" using Suc.prems(1) buddy_inv_geometry by (auto simp: pages_inv_def geometry_def)
  have up: "[i..<n] = i # [Suc i..<n]" using i by (simp add: upt_conv_Cons)
  have pp: "pfn_to_page s i = Some i" using i ms Suc.prems(2) by (simp add: pfn_to_page_def)
  show ?case
  proof (cases "page_reserved s i")
    case True
    have "managed_upto s i n z = managed_upto s (Suc i) n z" for z
      using True by (auto simp: managed_upto_def Suc_le_eq le_less)
    moreover have "free_frames s = {f. f < Suc i \<and> \<not> page_reserved s f}"
      using Suc.prems(4) True by (auto simp: less_Suc_eq)
    ultimately show ?thesis
      using Suc.hyps(1) [of "Suc i" s] Suc.hyps(2) Suc.prems i up pp True by (simp add: page_reserved_def)
  next
    case False
    obtain z where z: "pfn_to_zone s i = Some z" using zone_cases by blast
    define s1 where "s1 = upd_zone z (\<lambda>zn. zn\<lparr>managed_pages := managed_pages zn + 1\<rparr>) s"
    have sb: "same_buddy s s1" unfolding s1_def by (rule same_buddy_upd_zone) simp_all
    note sbd = same_buddyD [OF sb]
    have mm: "mem_map s1 = mem_map s" by (simp add: s1_def)
    have inv1: "pages_inv s1" using Suc.prems(1) sbd mm by (simp add: pages_inv_def)
    have nf: "i \<notin> free_frames s1" using Suc.prems(4) sbd(2) by simp
    have nb: "\<not> has_flag (pg_flags (mem_map s1 i)) PG_BUDDY"
    proof
      assume "has_flag (pg_flags (mem_map s1 i)) PG_BUDDY"
      then have "is_free s1 i (pg_order (mem_map s1 i))"
        using i Suc.prems(2) same_shapeD(6) [OF sbd(5)] by (simp add: is_free_def)
      then show False using nf is_free_in_free_frames by blast
    qed
    have "i \<noteq> 0" using False Suc.prems(5) by (cases i) simp_all
    then obtain s2 where s2: "buddy_free_block (pfn_to_zone s1 i) i 0 s1 = Some s2" "pages_inv s2" "same_shape s1 s2"
      "free_frames s2 = insert i (free_frames s1)" "erase s2 = erase s1"
      using pages_inv_free_one [OF inv1, of i] i Suc.prems(2,6) nf mm same_shapeD [OF sbd(5)] by auto
    have rs: "page_reserved s2 = page_reserved s"
      using erase_reserved [OF s2(5)] mm by (simp add: page_reserved_def fun_eq_iff)
    have sh: "mem_map_pages s2 = n" "pfn_to_zone s2 = pfn_to_zone s" "pfn_to_zone s1 = pfn_to_zone s"
      using same_shapeD [OF s2(3)] same_shapeD [OF sbd(5)] Suc.prems(2) by simp_all
    have ff: "free_frames s2 = {f. f < Suc i \<and> \<not> page_reserved s2 f}"
      using s2(4) sbd(2) Suc.prems(4) False by (auto simp: rs less_Suc_eq)
    have rc: "\<forall>f < n. refcount (mem_map s2 f) = 0" using Suc.prems(6) erase_page(1) [OF s2(5)] mm by simp
    have IH: "\<exists>s'. mem_init_free [Suc i..<n] s2 = Some s' \<and> pages_inv s' \<and> free_frames s' = {f. f < n \<and> \<not> page_reserved s2 f} \<and>
      (\<forall>z. managed_pages (get_zone z s') = managed_pages (get_zone z s2) + card (managed_upto s2 (Suc i) n z))"
    proof (rule Suc.hyps(1) [OF _ s2(2) sh(1) [symmetric] _ ff _ rc])
      show "d = n - Suc i" "Suc i \<le> n" using Suc.hyps(2) i by simp_all
      show "page_reserved s2 0" using Suc.prems(5) by (simp add: rs)
    qed
    have card: "card (managed_upto s i n y) = (if y = z then 1 else 0) + card (managed_upto s2 (Suc i) n y)" for y
    proof -
      have "managed_upto s i n y = (if y = z then {i} else {}) \<union> managed_upto s2 (Suc i) n y"
        using False i z by (auto simp: managed_upto_def rs sh Suc_le_eq le_less)
      moreover have "i \<notin> managed_upto s2 (Suc i) n y" "finite (managed_upto s2 (Suc i) n y)"
        by (simp_all add: managed_upto_def)
      ultimately show ?thesis by (cases "y = z") simp_all
    qed
    have mg: "managed_pages (get_zone y s2) = managed_pages (get_zone y s) + (if y = z then 1 else 0)" for y
      using erase_state(11) [OF s2(5)] by (simp add: s1_def)
    have "mem_init_free [i..<n] s = mem_init_free [Suc i..<n] s2"
      using up pp z False nb s2(1) sh(3) mm
      by (simp add: page_reserved_def s1_def Let_def)
    then show ?thesis using IH by (auto simp: rs mg card)
  qed
qed


lemma same_buddy_ready [simp]: "same_buddy s (s\<lparr>managed_pages_total := m, buddy_ready := b\<rparr>)"
proof -
  have "get_zone z (s\<lparr>managed_pages_total := m, buddy_ready := b\<rparr>) = get_zone z s" for z by (cases z) simp_all
  then show ?thesis by (simp add: same_buddy_def same_shape_def)
qed

lemma same_buddy_wmarks [simp]: "same_buddy s (setup_per_zone_wmarks s)"
  unfolding setup_per_zone_wmarks_def
  by (rule same_buddy_trans; rule same_buddy_upd_zone) simp_all

lemma same_buddy_managed0:
  "same_buddy s (upd_zone ZONE_NORMAL (\<lambda>z. z\<lparr>managed_pages := 0\<rparr>) (upd_zone ZONE_DMA (\<lambda>z. z\<lparr>managed_pages := 0\<rparr>) s))"
  by (rule same_buddy_trans; rule same_buddy_upd_zone) simp_all

text \<open>The state that \<open>init_zones\<close> and \<open>free_area_init_core\<close> leave: nothing free, every page reserved.\<close>

definition zones_ready :: "multiboot_info \<Rightarrow> 'a mm_state_scheme \<Rightarrow> bool" where
  "zones_ready mbi s \<longleftrightarrow> geometry s \<and> total_pages s = mem_map_pages s \<and> 0 < total_pages s \<and> buddy_next_set s \<and>
     cached_mbi s = Some mbi \<and> mbi_flags mbi AND 0x40 \<noteq> 0 \<and>
     (\<forall>z. \<forall>k < MAX_ORDER. free_area (get_zone z s) k = \<lparr>free_list = -1, nr_free = 0\<rparr>) \<and>
     (\<forall>p < mem_map_pages s. pg_flags (mem_map s p) = PG_RESERVED \<and> refcount (mem_map s p) = 0)"

lemma entry_frames_nonzero: "f \<in> entry_frames s e \<Longrightarrow> f \<noteq> 0 \<and> f < total_pages s"
proof -
  assume f: "f \<in> entry_frames s e"
  then have "addr_low e \<ge> 0x100000" "unat (addr_low e div PAGE_SIZE) \<le> f" "f < total_pages s"
    by (auto simp: entry_frames_def split: if_splits)
  moreover from this(1) have "0x100000 div 4096 \<le> unat (addr_low e) div 4096"
    by (intro div_le_mono) (simp add: word_le_nat_alt)
  ultimately show ?thesis by (simp add: unat_div)
qed

lemma mem_init_frames:
  assumes zr: "zones_ready mbi s" and s2: "s2 = upd_zone ZONE_NORMAL (\<lambda>z. z\<lparr>managed_pages := 0\<rparr>)
      (upd_zone ZONE_DMA (\<lambda>z. z\<lparr>managed_pages := 0\<rparr>) (fold mem_init_entry (mbi_mmap mbi) s))"
  defines "A \<equiv> \<Union>e \<in> set (mbi_mmap mbi). entry_frames s e"
  shows "\<exists>s3. mem_init_free [0..<total_pages s2] s2 = Some s3 \<and> pages_inv s3 \<and> free_frames s3 = A \<and>
    (\<forall>z. managed_pages (get_zone z s3) = card {f \<in> A. pfn_to_zone s f = Some z})"
proof -
  let ?s1 = "fold mem_init_entry (mbi_mmap mbi) s"
  have rf: "release_frame s ?s1" by (rule mem_init_entries_effect(1))
  have sb: "same_buddy s s2"
    using rf same_buddy_managed0 [of ?s1] same_buddy_trans by (auto simp: s2 release_frame_def)
  note sbd = same_buddyD [OF sb] and sh = same_shapeD [OF same_buddyD(5) [OF sb]]
  have mm: "mem_map s2 = mem_map ?s1" by (simp add: s2)
  have tp: "total_pages s2 = mem_map_pages s2" using rf zr sh by (simp add: s2 release_frame_def zones_ready_def)
  have e: "buddy_inv s (\<lambda>_ _. [])" "coalesced s" "free_frames s = {}"
    using zr by (intro empty_buddy_inv; simp add: zones_ready_def has_flag_def PG_defs)+
  have A: "f \<noteq> 0 \<and> f < mem_map_pages s" if "f \<in> A" for f
  proof -
    obtain e where "f \<in> entry_frames s e" using \<open>f \<in> A\<close> by (auto simp: A_def)
    then show ?thesis using entry_frames_nonzero [of f s e] zr by (simp add: zones_ready_def)
  qed
  have rs: "page_reserved s2 f \<longleftrightarrow> f \<notin> A" if "f < mem_map_pages s" for f
  proof -
    have "page_reserved s f" using zr that by (simp add: page_reserved_def zones_ready_def has_flag_def PG_defs)
    moreover have "pfn_to_page s f \<noteq> None" using zr that by (simp add: pfn_to_page_def zones_ready_def geometry_def)
    ultimately show ?thesis
      using mem_init_entries_effect(2) [of "mbi_mmap mbi" s f] mm by (simp add: page_reserved_def A_def)
  qed
  have "\<exists>s3. mem_init_free [0..<mem_map_pages s2] s2 = Some s3 \<and> pages_inv s3 \<and>
      free_frames s3 = {f. f < mem_map_pages s2 \<and> \<not> page_reserved s2 f} \<and>
      (\<forall>z. managed_pages (get_zone z s3) = managed_pages (get_zone z s2) + card (managed_upto s2 0 (mem_map_pages s2) z))"
  proof (rule mem_init_free_loop)
    show "pages_inv s2" using e sbd by (auto simp: pages_inv_def)
    show "free_frames s2 = {f. f < 0 \<and> \<not> page_reserved s2 f}" using e(3) sbd(2) by simp
    show "page_reserved s2 0" using rs [of 0] A zr by (auto simp: zones_ready_def)
    show "\<forall>f < mem_map_pages s2. refcount (mem_map s2 f) = 0"
      using rf zr by (simp add: mm sh release_frame_def zones_ready_def)
  qed simp_all
  moreover have "{f. f < mem_map_pages s2 \<and> \<not> page_reserved s2 f} = A" using rs A by (auto simp: sh)
  moreover have "managed_upto s2 0 (mem_map_pages s2) z = {f \<in> A. pfn_to_zone s f = Some z}" for z
    using rs A by (auto simp: managed_upto_def sh)
  moreover have "managed_pages (get_zone z s2) = 0" for z by (cases z) (simp_all add: s2)
  ultimately show ?thesis using tp by simp
qed



subsection \<open>Witnesses\<close>

text \<open>The small arena with frames 8 to 15 free is a page allocator state; its zone has no watermark to keep.\<close>

definition demo_pages :: "'a \<Rightarrow> 'a mm_state_scheme" where
  "demo_pages x = upd_zone ZONE_DMA (\<lambda>z. z\<lparr>watermark := (\<lambda>_. 0)\<rparr>) (demo_free x)"

lemma demo_free_erase: "erase (demo_free x) = erase (demo_arena x)"
proof -
  have "block 8 3 \<inter> free_frames (demo_arena x) = {}" by (simp add: demo_arena_inv(3) [where x = x])
  then obtain s' where "buddy_free_block (Some ZONE_DMA) 8 3 (demo_arena x) = Some s'"
    using buddy_free_block_cases [OF demo_arena_inv(1) [where x = x] demo_block_ok [where x = x]] by metis
  then show ?thesis using erase_buddy_free_block by (simp add: demo_free_def) blast
qed

lemma demo_pages_buddy: "same_buddy (demo_free x) (demo_pages x)"
  unfolding demo_pages_def by (rule same_buddy_upd_zone) simp_all

lemmas demo_pages_sb = same_buddyD [OF demo_pages_buddy]

lemma demo_pages_state:
  "pages_inv (demo_pages x)" "buddy_ready (demo_pages x)" "total_pages (demo_pages x) = 16" "mem_map_pages (demo_pages x) = 16"
  "contig_zonelist (demo_pages x) = build_zonelist [ZONE_DMA]" "mem_map_set (demo_pages x)"
  "refcount (mem_map (demo_pages x) f) = 0" "free_frames (demo_pages x) = {8..<16}"
proof -
  note er = erase_state [OF demo_free_erase [where x = x]] erase_page [OF demo_free_erase [where x = x]]
  show "buddy_ready (demo_pages x)" "total_pages (demo_pages x) = 16" "mem_map_pages (demo_pages x) = 16"
    "contig_zonelist (demo_pages x) = build_zonelist [ZONE_DMA]" "mem_map_set (demo_pages x)"
    using er by (simp_all add: demo_pages_def demo_arena_def)
  show rc: "refcount (mem_map (demo_pages x) f) = 0" for f
    using er by (simp add: demo_pages_def demo_arena_def zero_page_def)
  show "free_frames (demo_pages x) = {8..<16}" using demo_pages_sb(2) [where x = x] demo_free_inv(3) [where x = x] by simp
  show "pages_inv (demo_pages x)" using demo_free_inv(1,2) [where x = x] demo_pages_sb [where x = x] rc by (auto simp: pages_inv_def)
qed

lemma demo_pages_block: "is_free (demo_pages x) 8 3" "pfn_to_zone (demo_pages x) 8 = Some ZONE_DMA"
  using demo_free_inv(5) [where x = x] demo_zone_8 [where x = x] demo_pages_sb(1) [where x = x] same_shapeD [OF demo_pages_sb(5) [where x = x]] by simp_all

lemma demo_pages_free: "zone_free_pages (Some ZONE_DMA) (demo_pages x) = 8"
proof -
  obtain F where F: "buddy_inv (demo_free x) F" using demo_free_inv(1) [where x = x] by blast
  have "zone_frames ZONE_DMA (demo_free x) = {0..<16}"
    unfolding zone_frames_def same_shapeD [OF demo_free_inv(4) [where x = x]]
    by (simp add: zone_end_def demo_arena_def init_zone_def)
  then show ?thesis
    using zone_free_pages_card [OF F, of ZONE_DMA] demo_pages_sb(6) [where x = x] demo_free_inv(3) [where x = x] by (simp add: Int_absorb2)
qed

lemma demo_watermark: "watermark (get_zone ZONE_DMA (demo_pages x)) w = 0"
  by (simp add: demo_pages_def)

theorem alloc_pages_fast_witness:
  "pages_inv (demo_pages ()) \<and> buddy_ready (demo_pages ()) \<and>
   ZONE_DMA \<in> set (zl_zones (default_zonelist_for_gfp GFP_KERNEL (demo_pages ()))) \<and>
   zone_watermark_ok ZONE_DMA 1 WMARK_HIGH (demo_pages ()) \<and>
   (\<exists>p s'. alloc_pages (\<lambda>_ _ _ s. Some (0, s)) GFP_KERNEL 1 (demo_pages ()) = Some (of_nat p * PAGE_SIZE, s') \<and>
     block p 1 \<subseteq> free_frames (demo_pages ()) \<and> free_frames s' = free_frames (demo_pages ()) - block p 1 \<and>
     fresh_block s' 1 p \<and> pages_inv s')"
proof -
  have h: "ZONE_DMA \<in> set (zl_zones (default_zonelist_for_gfp GFP_KERNEL (demo_pages ())))"
    "zone_watermark_ok ZONE_DMA 1 WMARK_HIGH (demo_pages ())"
    by (simp_all add: default_zonelist_for_gfp_def GFP_KERNEL_def has_flag_def demo_pages_state [where x = "()"] build_zonelist_def
        zone_watermark_ok_def demo_pages_free [where x = "()"] demo_watermark [where x = "()"] del: get_zone.simps)
  have "1 \<le> (3::nat)" by simp
  from alloc_pages_fast [OF demo_pages_state(1,2) [where x = "()"] h demo_pages_block(1) [where x = "()"] this demo_pages_block(2) [where x = "()"]] h
  show ?thesis using demo_pages_state(1,2) [where x = "()"] by blast
qed


lemma demo_block_4: "block_ok (demo_pages x) ZONE_DMA 4 2" "block 4 2 \<inter> free_frames (demo_pages x) = {}"
proof -
  have "block_ok (demo_arena x) ZONE_DMA 4 2" by (simp add: block_ok_def zone_end_def demo_arena_def init_zone_def)
  then show "block_ok (demo_pages x) ZONE_DMA 4 2"
    using same_shapeD [OF demo_free_inv(4) [where x = x]] same_shapeD [OF demo_pages_sb(5) [where x = x]] by simp
  show "block 4 2 \<inter> free_frames (demo_pages x) = {}" by (simp add: demo_pages_state(8) [where x = x] block_def)
qed

theorem free_pages_spec_witness:
  "pages_inv (demo_pages ()) \<and> buddy_ready (demo_pages ()) \<and> total_pages (demo_pages ()) = mem_map_pages (demo_pages ()) \<and>
   block_ok (demo_pages ()) ZONE_DMA 4 2 \<and> block 4 2 \<inter> free_frames (demo_pages ()) = {} \<and>
   (\<exists>s'. free_pages (of_nat 4 * PAGE_SIZE) 2 (demo_pages ()) = Some (Inr s') \<and> pages_inv s' \<and>
     free_frames s' = free_frames (demo_pages ()) \<union> block 4 2)"
proof -
  have t: "total_pages (demo_pages ()) = mem_map_pages (demo_pages ())" by (simp add: demo_pages_state [where x = "()"])
  show ?thesis
    using free_pages_spec [OF demo_pages_state(1,2) [where x = "()"] t demo_block_4 [where x = "()"]] demo_pages_state(1,2) [where x = "()"] t demo_block_4 [where x = "()"]
    by (simp add: demo_pages_state(7) [where x = "()"]) blast
qed

definition demo_shared :: mm_state where
  "demo_shared = upd_page 4 (\<lambda>q. q\<lparr>refcount := 1\<rparr>) (demo_pages ())"

theorem get_page_free_page_witness:
  "buddy_ready demo_shared \<and> refcount (mem_map demo_shared 4) = 1 \<and>
   free_pages (of_nat 4 * PAGE_SIZE) 0 (get_page (of_nat 4 * PAGE_SIZE) demo_shared) = Some (Inr demo_shared)"
proof -
  have c: "has_flag (clear_flag x PG_BUDDY) PG_LRU = has_flag x PG_LRU" for x
    by (rule has_flag_clear_other) (simp add: PG_defs)
  have "clear_flag (pg_flags (mem_map (demo_pages ()) 4)) PG_BUDDY = clear_flag 0 PG_BUDDY"
    using erase_page(6) [OF demo_free_erase [where x = "()"], of 4] by (simp add: demo_pages_def demo_arena_def zero_page_def)
  then have lru: "\<not> has_flag (pg_flags (mem_map (demo_pages ()) 4)) PG_LRU"
    using c [of "pg_flags (mem_map (demo_pages ()) 4)"] c [of 0] by (simp add: has_flag_def)
  have "free_pages (of_nat 4 * PAGE_SIZE) 0 (get_page (of_nat 4 * PAGE_SIZE) demo_shared) = Some (Inr demo_shared)"
    by (rule get_page_free_page) (use lru in \<open>simp_all add: demo_shared_def demo_pages_state [where x = "()"]\<close>)
  then show ?thesis by (simp add: demo_shared_def demo_pages_state [where x = "()"])
qed

text \<open>Sixteen MiB of memory with the first megabyte reserved, before \<open>mem_init\<close>.\<close>

definition demo_boot :: mm_state where
  "demo_boot = (demo_arena ())
     \<lparr>mem_map := (\<lambda>_. zero_page\<lparr>pg_flags := PG_RESERVED\<rparr>), mem_map_pages := 4096, total_pages := 4096,
      zone_dma := init_zone ZONE_DMA 0 4096 4096 demo_zone, zone_normal := init_zone ZONE_NORMAL 4096 0 0 demo_zone,
      buddy_max_order := 10, cached_mbi := Some demo_mbi\<rparr>"


end
