(* ===== verification/Radix_Tree.thy ===== *)
theory Radix_Tree
  imports Prelude
begin

text \<open>
  The radix tree \<open>lib/radix-tree.c\<close>, the index structure behind the id allocator.  A
  \<open>void *\<close> stored in a slot is a value of type \<open>'v slot\<close>: NULL, an item, or a node with
  its height, its count of used slots and its 64 slots.  Nodes are owned by exactly one
  slot, so the tree is a value and an update returns the new tree.  The outcomes of
  \<open>kmalloc\<close> are a list that the allocating operations consume.
\<close>

datatype 'v slot = Null | Item 'v | Node nat nat "'v slot list"

record 'v radix_tree_root =
  rt_height :: nat
  rt_gfp_mask :: u32
  rnode :: "'v slot"

definition RADIX_TREE_MAP_SHIFT :: nat where "RADIX_TREE_MAP_SHIFT = 6"
definition RADIX_TREE_MAP_SIZE :: nat where "RADIX_TREE_MAP_SIZE = 64"
definition RADIX_TREE_MAP_MASK :: u32 where "RADIX_TREE_MAP_MASK = 63"

lemmas radix_consts = RADIX_TREE_MAP_SHIFT_def RADIX_TREE_MAP_SIZE_def RADIX_TREE_MAP_MASK_def

fun slots :: "'v slot \<Rightarrow> 'v slot list" where
  "slots (Node h c xs) = xs"
| "slots _ = []"

fun count :: "'v slot \<Rightarrow> nat" where
  "count (Node h c xs) = c"
| "count _ = 0"

fun node_height :: "'v slot \<Rightarrow> nat" where
  "node_height (Node h c xs) = h"
| "node_height _ = 0"

subsection \<open>Operations\<close>

definition radix_tree_node_alloc :: "nat \<Rightarrow> outcomes \<Rightarrow> 'v slot \<times> outcomes" where
  "radix_tree_node_alloc height oc =
     (case kmalloc_ok oc of
        (ok, oc') \<Rightarrow> (if ok then Node height 0 (replicate RADIX_TREE_MAP_SIZE Null) else Null, oc'))"

fun radix_tree_maxindex :: "nat \<Rightarrow> u32" where
  "radix_tree_maxindex 0 = 0"
| "radix_tree_maxindex (Suc h) = push_bit RADIX_TREE_MAP_SHIFT (radix_tree_maxindex h) OR RADIX_TREE_MAP_MASK"

text \<open>The index of the slot to follow at a node of height \<open>h\<close>.\<close>

definition radix_offset :: "u32 \<Rightarrow> nat \<Rightarrow> nat" where
  "radix_offset index h = unat (drop_bit ((h - 1) * RADIX_TREE_MAP_SHIFT) index AND RADIX_TREE_MAP_MASK)"

lemma maxindex_nat: "unat (radix_tree_maxindex h) = min (64 ^ h) (2 ^ 32) - 1"
proof -
  have m: "radix_tree_maxindex h = mask (6 * h)" for h
  proof (induction h)
    case (Suc h)
    have "push_bit 6 (mask (6 * h)) OR mask 6 = (mask (6 * Suc h) :: u32)"
      by (rule bit_word_eqI) (auto simp: bit_simps)
    moreover have "mask 6 = (63 :: u32)" by (simp add: mask_eq_exp_minus_1)
    ultimately show ?case using Suc by (simp add: radix_consts)
  qed simp
  have p: "64 ^ h = (2 :: nat) ^ (6 * h)" by (simp add: power_mult)
  show ?thesis
  proof (cases "32 \<le> 6 * h")
    case True
    then have "(2 :: nat) ^ 32 \<le> 2 ^ (6 * h)" by (rule power_increasing) simp
    moreover have "mask (6 * h) = (- 1 :: u32)"
      using True by (intro bit_word_eqI) (simp add: bit_simps)
    moreover have "unat (- 1 :: u32) = 2 ^ 32 - 1" by (simp add: unsigned_minus_1_eq_mask mask_eq_exp_minus_1)
    ultimately show ?thesis unfolding m p by simp
  next
    case False
    then have "(2 :: nat) ^ (6 * h) \<le> 2 ^ 32" by (intro power_increasing) simp_all
    then show ?thesis unfolding m p using False by (simp only: unat_mask_u32 min_def not_le if_True)
  qed
qed

lemma maxindex_6: "radix_tree_maxindex height < index \<Longrightarrow> height < 6"
proof (rule ccontr)
  assume a: "radix_tree_maxindex height < index" "\<not> height < 6"
  then have "(64 :: nat) ^ 6 \<le> 64 ^ height" by (intro power_increasing) simp_all
  then have "unat (radix_tree_maxindex height) = 2 ^ 32 - 1" by (simp add: maxindex_nat)
  then have "2 ^ 32 - 1 < unat index" using a(1) by (simp only: word_less_nat_alt)
  then show False using unsigned_less [of index, where ?'a = nat] by simp
qed

function required_from :: "u32 \<Rightarrow> nat \<Rightarrow> nat" where
  "required_from index height =
     (if index > radix_tree_maxindex height then required_from index (height + 1) else height)"
  by auto
termination
  by (relation "measure (\<lambda>(index, height). 6 - height)") (auto dest: maxindex_6)

declare required_from.simps [simp del]

definition radix_tree_required_height :: "u32 \<Rightarrow> nat" where
  "radix_tree_required_height index = required_from index 1"

fun extend_loop :: "nat \<Rightarrow> 'v radix_tree_root \<Rightarrow> outcomes \<Rightarrow> int \<times> 'v radix_tree_root \<times> outcomes" where
  "extend_loop 0 root oc = (0, root, oc)"
| "extend_loop (Suc left) root oc =
     (case radix_tree_node_alloc (rt_height root + 1) oc of
        (Node h c xs, oc') \<Rightarrow>
          extend_loop left (root\<lparr>rnode := Node h 1 (xs[0 := rnode root]), rt_height := rt_height root + 1\<rparr>) oc'
      | (_, oc') \<Rightarrow> (- ENOMEM, root, oc'))"

definition radix_tree_extend :: "'v radix_tree_root \<Rightarrow> u32 \<Rightarrow> outcomes \<Rightarrow> int \<times> 'v radix_tree_root \<times> outcomes" where
  "radix_tree_extend root index oc =
     (let required = radix_tree_required_height index
      in case rnode root of
           Null \<Rightarrow>
             (case radix_tree_node_alloc required oc of
                (Null, oc') \<Rightarrow> (- ENOMEM, root\<lparr>rnode := Null\<rparr>, oc')
              | (n, oc') \<Rightarrow> (0, root\<lparr>rnode := n, rt_height := required\<rparr>, oc'))
         | _ \<Rightarrow> extend_loop (required - rt_height root) root oc)"

text \<open>
  The descent of \<open>radix_tree_insert\<close>, which also writes the changed child back into its slot.
\<close>

fun insert_walk :: "nat \<Rightarrow> u32 \<Rightarrow> 'v slot \<Rightarrow> 'v slot \<Rightarrow> outcomes \<Rightarrow> int \<times> 'v slot \<times> outcomes" where
  "insert_walk (Suc (Suc h)) index item node oc =
     (let offset = radix_offset index (Suc (Suc h))
      in case slots node ! offset of
           Null \<Rightarrow>
             (case radix_tree_node_alloc (Suc h) oc of
                (Null, oc') \<Rightarrow> (- ENOMEM, node, oc')
              | (child, oc') \<Rightarrow>
                  (case insert_walk (Suc h) index item child oc' of
                     (r, child', oc'') \<Rightarrow>
                       (r, Node (node_height node) (count node + 1) ((slots node)[offset := child']), oc'')))
         | child \<Rightarrow>
             (case insert_walk (Suc h) index item child oc of
                (r, child', oc') \<Rightarrow>
                  (r, Node (node_height node) (count node) ((slots node)[offset := child']), oc')))"
| "insert_walk _ index item node oc =
     (let offset = radix_offset index 1
      in if slots node ! offset \<noteq> Null then (- EEXIST, node, oc)
         else (0, Node (node_height node) (count node + 1) ((slots node)[offset := item]), oc))"

definition radix_tree_insert ::
  "'v radix_tree_root \<Rightarrow> u32 \<Rightarrow> 'v slot \<Rightarrow> outcomes \<Rightarrow> int \<times> 'v radix_tree_root \<times> outcomes" where
  "radix_tree_insert root index item oc =
     (case radix_tree_extend root index oc of
        (r, root1, oc1) \<Rightarrow>
          if r \<noteq> 0 then (- ENOMEM, root1, oc1)
          else case insert_walk (rt_height root1) index item (rnode root1) oc1 of
                 (r', n, oc2) \<Rightarrow> (r', root1\<lparr>rnode := n\<rparr>, oc2))"

fun lookup_walk :: "nat \<Rightarrow> u32 \<Rightarrow> 'v slot \<Rightarrow> 'v slot" where
  "lookup_walk (Suc (Suc h)) index node =
     (case slots node ! radix_offset index (Suc (Suc h)) of
        Null \<Rightarrow> Null
      | child \<Rightarrow> lookup_walk (Suc h) index child)"
| "lookup_walk _ index node = slots node ! radix_offset index 1"

definition radix_tree_lookup :: "'v radix_tree_root \<Rightarrow> u32 \<Rightarrow> 'v slot" where
  "radix_tree_lookup root index =
     (if rnode root = Null \<or> index > radix_tree_maxindex (rt_height root) then Null
      else lookup_walk (rt_height root) index (rnode root))"

text \<open>
  \<open>radix_tree_delete\<close>.  The first loop descends, the second frees the nodes on the path whose count
  fell to zero and stops at the first that is still used.  The walk returns the
  removed item, the node after the update, and whether this node was freed.
\<close>

definition drop_slot :: "nat \<Rightarrow> 'v slot \<Rightarrow> 'v slot" where
  "drop_slot offset node = Node (node_height node) (count node - 1) ((slots node)[offset := Null])"

fun delete_walk :: "nat \<Rightarrow> u32 \<Rightarrow> 'v slot \<Rightarrow> ('v slot \<times> 'v slot \<times> bool) option" where
  "delete_walk (Suc (Suc h)) index node =
     (let offset = radix_offset index (Suc (Suc h))
      in case slots node ! offset of
           Null \<Rightarrow> None
         | child \<Rightarrow>
             (case delete_walk (Suc h) index child of
                None \<Rightarrow> None
              | Some (item, child', freed) \<Rightarrow>
                  if freed then let node' = drop_slot offset node in Some (item, node', count node' = 0)
                  else Some (item, Node (node_height node) (count node) ((slots node)[offset := child']), False)))"
| "delete_walk _ index node =
     (let offset = radix_offset index 1; item = slots node ! offset
      in if item = Null then None
         else let node' = drop_slot offset node in Some (item, node', count node' = 0))"

definition radix_tree_delete :: "'v radix_tree_root \<Rightarrow> u32 \<Rightarrow> 'v slot \<times> 'v radix_tree_root" where
  "radix_tree_delete root index =
     (if rnode root = Null \<or> index > radix_tree_maxindex (rt_height root) then (Null, root)
      else case delete_walk (rt_height root) index (rnode root) of
             None \<Rightarrow> (Null, root)
           | Some (item, node, freed) \<Rightarrow>
               if freed then (item, root\<lparr>rnode := Null, rt_height := 0\<rparr>)
               else (item, root\<lparr>rnode := node, rt_height := node_height node\<rparr>))"

definition radix_tree_delete_item :: "'v radix_tree_root \<Rightarrow> u32 \<Rightarrow> 'v slot \<Rightarrow> 'v slot \<times> 'v radix_tree_root" where
  "radix_tree_delete_item root index item =
     (let entry = radix_tree_lookup root index
      in if entry = Null then (Null, root)
         else if item \<noteq> Null \<and> entry \<noteq> item then (Null, root)
         else radix_tree_delete root index)"

text \<open>
  \<open>radix_tree_replace_slot\<close> through the pointer that \<open>radix_tree_lookup_slot\<close> returns.
\<close>

fun replace_walk :: "nat \<Rightarrow> u32 \<Rightarrow> 'v slot \<Rightarrow> 'v slot \<Rightarrow> 'v slot" where
  "replace_walk (Suc (Suc h)) index item node =
     (let offset = radix_offset index (Suc (Suc h))
      in Node (node_height node) (count node)
           ((slots node)[offset := replace_walk (Suc h) index item (slots node ! offset)]))"
| "replace_walk _ index item node =
     Node (node_height node) (count node) ((slots node)[radix_offset index 1 := item])"

text \<open>
  \<open>radix_tree_gang_lookup_slot\<close>: the filled part of the arrays \<open>indices\<close> and \<open>results\<close> is the list of the pairs
  found so far; \<open>radix_tree_gang_lookup\<close> stores the items only.
\<close>

fun gang_lookup_node ::
  "nat \<Rightarrow> u32 \<Rightarrow> u32 \<Rightarrow> nat \<Rightarrow> 'v slot \<Rightarrow> (u32 \<times> 'v slot) list \<Rightarrow> (u32 \<times> 'v slot) list" where
  "gang_lookup_node (Suc (Suc h)) base first_index max_items node found =
     (if node = Null \<or> length found = max_items then found
      else fold (\<lambda>(i, child) found.
             if length found \<ge> max_items then found
             else
               let child_base = base + push_bit ((Suc h) * RADIX_TREE_MAP_SHIFT) (of_nat i);
                   last0 = child_base + radix_tree_maxindex (Suc h);
                   child_last = (if last0 < child_base then - 1 else last0)
               in if child_last < first_index then found
                  else gang_lookup_node (Suc h) child_base first_index max_items child found)
             (enumerate 0 (slots node)) found)"
| "gang_lookup_node _ base first_index max_items node found =
     (if node = Null \<or> length found = max_items then found
      else fold (\<lambda>(i, item) found.
             if length found \<ge> max_items then found
             else let index = base + of_nat i
                  in if index < first_index then found
                     else if item \<noteq> Null then found @ [(index, item)] else found)
             (enumerate 0 (slots node)) found)"

definition radix_tree_gang_lookup_slot :: "'v radix_tree_root \<Rightarrow> u32 \<Rightarrow> nat \<Rightarrow> (u32 \<times> 'v slot) list" where
  "radix_tree_gang_lookup_slot root first_index max_items =
     (if rnode root = Null \<or> max_items = 0 then []
      else gang_lookup_node (rt_height root) 0 first_index max_items (rnode root) [])"

definition radix_tree_gang_lookup :: "'v radix_tree_root \<Rightarrow> u32 \<Rightarrow> nat \<Rightarrow> 'v slot list" where
  "radix_tree_gang_lookup root first_index max_items =
     map snd (radix_tree_gang_lookup_slot root first_index max_items)"

text \<open>\<open>radix_tree_locate_item\<close>; a search that finds nothing returns \<open>(unsigned long)-1\<close>.\<close>

fun locate_item_node :: "nat \<Rightarrow> u32 \<Rightarrow> 'v slot \<Rightarrow> 'v slot \<Rightarrow> u32" where
  "locate_item_node (Suc (Suc h)) base item node =
     (if node = Null then - 1
      else fold (\<lambda>(i, child) r. if r \<noteq> - 1 then r
                   else locate_item_node (Suc h) (base + push_bit (Suc h * RADIX_TREE_MAP_SHIFT) (of_nat i)) item child)
             (enumerate 0 (slots node)) (- 1))"
| "locate_item_node _ base item node =
     (if node = Null then - 1
      else case filter (\<lambda>(i, x). x = item) (enumerate 0 (slots node)) of
             [] \<Rightarrow> - 1 | (i, x) # _ \<Rightarrow> base + of_nat i)"

definition radix_tree_locate_item :: "'v radix_tree_root \<Rightarrow> 'v slot \<Rightarrow> u32" where
  "radix_tree_locate_item root item =
     (if rnode root = Null then - 1 else locate_item_node (rt_height root) 0 item (rnode root))"

definition radix_tree_destroy :: "'v radix_tree_root \<Rightarrow> 'v radix_tree_root" where
  "radix_tree_destroy root = root\<lparr>rnode := Null, rt_height := 0\<rparr>"

definition init_radix_tree :: "u32 \<Rightarrow> 'v radix_tree_root" where
  "init_radix_tree m = \<lparr>rt_height = 0, rt_gfp_mask = m, rnode = Null\<rparr>"

subsection \<open>Well-formed trees\<close>

fun wf_node :: "nat \<Rightarrow> 'v slot \<Rightarrow> bool" where
  "wf_node 0 n = False"
| "wf_node (Suc h) n = (\<exists>c xs. n = Node (Suc h) c xs \<and> length xs = 64 \<and> c = length (filter (\<lambda>x. x \<noteq> Null) xs) \<and>
     (\<forall>x \<in> set xs. x = Null \<or> (if h = 0 then \<exists>v. x = Item v else wf_node h x)))"

lemma wf_nodeE:
  assumes "wf_node (Suc h) n"
  obtains c xs where "n = Node (Suc h) c xs" "length xs = 64" "c = length (filter (\<lambda>x. x \<noteq> Null) xs)"
    "\<And>x. x \<in> set xs \<Longrightarrow> x = Null \<or> (if h = 0 then \<exists>v. x = Item v else wf_node h x)"
  using assms by auto

lemma wf_not_Null [simp]: "\<not> wf_node h Null"
  by (cases h) auto

lemma wf_nodeD: "wf_node h n \<Longrightarrow> node_height n = h \<and> n \<noteq> Null"
  by (cases h) auto

declare wf_node.simps(2) [simp del]

lemma length_filter_update:
  "i < length xs \<Longrightarrow> length (filter P (xs[i := x])) + (if P (xs ! i) then 1 else 0) =
     length (filter P xs) + (if P x then 1 else 0)"
proof (induction xs arbitrary: i)
  case (Cons a xs)
  then show ?case by (cases i) auto
qed simp

lemma radix_offset_nat: "radix_offset i h = unat i div 64 ^ (h - 1) mod 64"
proof -
  have "unat (drop_bit k i AND 63) = unat i div 2 ^ k mod 64" for k
  proof -
    have "unat (drop_bit k i AND mask 6) = take_bit 6 (drop_bit k (unat i))"
      by (rule bit_eqI) (auto simp: bit_simps dest: bit_imp_le_length)
    then show ?thesis by (simp add: take_bit_eq_mod drop_bit_eq_div mask_eq_exp_minus_1)
  qed
  moreover have "(2 :: nat) ^ ((h - 1) * 6) = 64 ^ (h - 1)"
    using power_mult [of "2 :: nat" 6 "h - 1"] by (simp add: mult.commute)
  ultimately show ?thesis by (simp add: radix_offset_def radix_consts)
qed

lemma radix_offset_lt [simp]: "radix_offset i h < 64"
  by (simp add: radix_offset_nat)

text \<open>Two indices agree below height \<open>h\<close> if they have the same lowest \<open>h\<close> digits in base 64.\<close>

definition same_digits :: "nat \<Rightarrow> u32 \<Rightarrow> u32 \<Rightarrow> bool" where
  "same_digits h i j \<longleftrightarrow> unat i mod 64 ^ h = unat j mod 64 ^ h"

lemma same_digits_Suc: "same_digits (Suc h) i j \<longleftrightarrow> radix_offset i (Suc h) = radix_offset j (Suc h) \<and> same_digits h i j"
proof -
  have d: "a mod 64 ^ Suc h = 64 ^ h * (a div 64 ^ h mod 64) + a mod 64 ^ h" for a :: nat
    using mod_mult2_eq [of a "64 ^ h" 64] by (simp add: mult.commute)
  have "x = y \<and> r = s" if "64 ^ h * x + r = 64 ^ h * y + s" "r < 64 ^ h" "s < 64 ^ h" for x y r s :: nat
  proof -
    have "(64 ^ h * x + r) div 64 ^ h = x" "(64 ^ h * y + s) div 64 ^ h = y"
      using that(2,3) by simp_all
    then show ?thesis using that by simp
  qed
  from this [of "unat i div 64 ^ h mod 64" "unat i mod 64 ^ h" "unat j div 64 ^ h mod 64" "unat j mod 64 ^ h"]
  have "unat i mod 64 ^ Suc h = unat j mod 64 ^ Suc h \<longleftrightarrow>
      unat i div 64 ^ h mod 64 = unat j div 64 ^ h mod 64 \<and> unat i mod 64 ^ h = unat j mod 64 ^ h"
    unfolding d by auto
  then show ?thesis by (simp add: same_digits_def radix_offset_nat)
qed

lemma same_digits_1: "same_digits (Suc 0) i j \<longleftrightarrow> radix_offset i (Suc 0) = radix_offset j (Suc 0)"
  by (simp add: same_digits_def radix_offset_nat)

lemma same_digits_refl [simp]: "same_digits h i i"
  by (simp add: same_digits_def)

lemma same_digits_maxindex:
  assumes "i \<le> radix_tree_maxindex h" "j \<le> radix_tree_maxindex h"
  shows "same_digits h i j \<longleftrightarrow> i = j"
proof -
  have lt: "unat k < 64 ^ h" if "k \<le> radix_tree_maxindex h" for k
  proof -
    have "unat k \<le> min (64 ^ h) (2 ^ 32) - 1" using that by (simp only: word_le_nat_alt maxindex_nat)
    moreover have "0 < min (64 ^ h) (2 ^ 32 :: nat)" by simp
    ultimately show ?thesis by linarith
  qed
  then show ?thesis using assms by (simp add: same_digits_def word_unat_eq_iff)
qed

subsection \<open>Descents\<close>

definition empty_node :: "nat \<Rightarrow> 'v slot" where
  "empty_node h = Node h 0 (replicate 64 Null)"

lemma wf_empty_node: "0 < h \<Longrightarrow> wf_node h (empty_node h)"
  by (cases h) (auto simp: empty_node_def wf_node.simps)

lemma lookup_empty_node [simp]: "lookup_walk h i (empty_node k) = Null"
  by (cases "(h, i, empty_node k :: 'a slot)" rule: lookup_walk.cases) (auto simp: empty_node_def radix_offset_lt)

lemma lookup_Suc:
  assumes "wf_node (Suc (Suc h)) n"
  shows "lookup_walk (Suc (Suc h)) i n =
    (if slots n ! radix_offset i (Suc (Suc h)) = Null then Null
     else lookup_walk (Suc h) i (slots n ! radix_offset i (Suc (Suc h))))"
  by (simp split: slot.split)

text \<open>Replacing the child on the path of \<open>i\<close> changes the lookups of the indices that share the digit.\<close>

lemma wf_update_child:
  assumes "wf_node (Suc (Suc h)) n" "wf_node (Suc h) x" "k < 64" "slots n ! k \<noteq> Null \<Longrightarrow> c = count n"
    "slots n ! k = Null \<Longrightarrow> c = count n + 1"
  shows "wf_node (Suc (Suc h)) (Node (node_height n) c ((slots n)[k := x]))"
proof -
  obtain d xs where n: "n = Node (Suc (Suc h)) d xs" "length xs = 64" "d = length (filter (\<lambda>x. x \<noteq> Null) xs)"
    "\<And>x. x \<in> set xs \<Longrightarrow> x = Null \<or> wf_node (Suc h) x"
    using assms(1) by (elim wf_nodeE) (auto split: if_splits)
  have "x \<noteq> Null" using assms(2) by auto
  then have "c = length (filter (\<lambda>x. x \<noteq> Null) (xs[k := x]))"
    using length_filter_update [of k xs "\<lambda>x. x \<noteq> Null" x] assms(3-5) n(1-3) by (auto split: if_splits)
  moreover have "\<forall>y \<in> set (xs[k := x]). y = Null \<or> wf_node (Suc h) y"
    using n(4) assms(2) set_update_subset_insert [of xs k x] by blast
  ultimately show ?thesis using n by (simp add: wf_node.simps(2) [of "Suc h"])
qed


lemma wf_child:
  assumes "wf_node (Suc (Suc h)) n" "k < 64" "slots n ! k \<noteq> Null"
  shows "wf_node (Suc h) (slots n ! k)"
proof -
  obtain d xs where n: "n = Node (Suc (Suc h)) d xs" "length xs = 64"
    "\<And>x. x \<in> set xs \<Longrightarrow> x = Null \<or> wf_node (Suc h) x"
    using assms(1) by (elim wf_nodeE) (auto split: if_splits)
  then show ?thesis using assms(2,3) n(3) [of "xs ! k"] by simp
qed

lemma lookup_update_child:
  assumes "wf_node (Suc (Suc h)) n" "x \<noteq> Null" "k < 64"
  shows "lookup_walk (Suc (Suc h)) j (Node (node_height n) c ((slots n)[k := x])) =
    (if radix_offset j (Suc (Suc h)) = k then lookup_walk (Suc h) j x else lookup_walk (Suc (Suc h)) j n)"
proof -
  have "length (slots n) = 64" using assms(1) by (elim wf_nodeE) simp
  then show ?thesis using assms(2,3) by (auto simp: nth_list_update split: slot.split)
qed

lemma wf_leaf_update:
  assumes "wf_node (Suc 0) n" "k < 64" "slots n ! k = Null"
  shows "wf_node (Suc 0) (Node (node_height n) (count n + 1) ((slots n)[k := Item v]))"
    "lookup_walk (Suc 0) j (Node (node_height n) (count n + 1) ((slots n)[k := Item v])) =
       (if radix_offset j (Suc 0) = k then Item v else lookup_walk (Suc 0) j n)"
proof -
  obtain d xs where n: "n = Node (Suc 0) d xs" "length xs = 64" "d = length (filter (\<lambda>x. x \<noteq> Null) xs)"
    "\<And>x. x \<in> set xs \<Longrightarrow> x = Null \<or> (\<exists>v. x = Item v)"
    using assms(1) by (elim wf_nodeE) (auto split: if_splits)
  have "\<forall>y \<in> set (xs[k := Item v]). y = Null \<or> (\<exists>v. y = Item v)"
    using n(4) set_update_subset_insert [of xs k "Item v"] by blast
  then show "wf_node (Suc 0) (Node (node_height n) (count n + 1) ((slots n)[k := Item v]))"
    using length_filter_update [of k xs "\<lambda>x. x \<noteq> Null" "Item v"] assms(2,3) n by (simp add: wf_node.simps)
  show "lookup_walk (Suc 0) j (Node (node_height n) (count n + 1) ((slots n)[k := Item v])) =
       (if radix_offset j (Suc 0) = k then Item v else lookup_walk (Suc 0) j n)"
    using assms(2) n(1,2) by simp
qed

text \<open>The three outcomes of the descent of an insertion.\<close>

definition inserted :: "nat \<Rightarrow> u32 \<Rightarrow> 'v \<Rightarrow> 'v slot \<Rightarrow> int \<Rightarrow> 'v slot \<Rightarrow> bool" where
  "inserted h i v n r n' \<longleftrightarrow>
     r = 0 \<and> lookup_walk h i n = Null \<and>
       (\<forall>j. lookup_walk h j n' = (if same_digits h i j then Item v else lookup_walk h j n)) \<or>
     r = - ENOMEM \<and> lookup_walk h i n = Null \<and> (\<forall>j. lookup_walk h j n' = lookup_walk h j n) \<or>
     r = - EEXIST \<and> lookup_walk h i n \<noteq> Null \<and> (\<forall>j. lookup_walk h j n' = lookup_walk h j n)"

lemma insert_walk_null:
  assumes "slots n ! radix_offset i (Suc (Suc h)) = Null"
  shows "insert_walk (Suc (Suc h)) i item n oc =
    (if fst (kmalloc_ok oc)
     then case insert_walk (Suc h) i item (empty_node (Suc h)) (snd (kmalloc_ok oc)) of
       (r, c, oc') \<Rightarrow> (r, Node (node_height n) (count n + 1) ((slots n)[radix_offset i (Suc (Suc h)) := c]), oc')
     else (- ENOMEM, n, snd (kmalloc_ok oc)))"
  using assms
  by (simp add: radix_tree_node_alloc_def empty_node_def radix_consts Let_def split: prod.split)

lemma insert_walk_child:
  assumes "slots n ! radix_offset i (Suc (Suc h)) \<noteq> Null"
  shows "insert_walk (Suc (Suc h)) i item n oc =
    (case insert_walk (Suc h) i item (slots n ! radix_offset i (Suc (Suc h))) oc of
       (r, c, oc') \<Rightarrow> (r, Node (node_height n) (count n) ((slots n)[radix_offset i (Suc (Suc h)) := c]), oc'))"
  using assms by (cases "slots n ! radix_offset i (Suc (Suc h))") (simp_all add: Let_def)

declare insert_walk.simps(1) [simp del]

lemma insert_walk_correct:
  assumes "wf_node (Suc h) n" "insert_walk (Suc h) i (Item v) n oc = (r, n', oc')"
  shows "wf_node (Suc h) n' \<and> inserted (Suc h) i v n r n'"
  using assms
proof (induction h arbitrary: n oc r n' oc')
  case 0
  show ?case
  proof (cases "slots n ! radix_offset i 1 = Null")
    case True
    then show ?thesis
      using 0 wf_leaf_update [OF 0(1), of "radix_offset i 1"]
      by (auto simp: inserted_def same_digits_1)
  next
    case False
    then show ?thesis using 0 by (auto simp: inserted_def)
  qed
next
  case (Suc h)
  let ?k = "radix_offset i (Suc (Suc h))"
  show ?case
  proof (cases "slots n ! ?k = Null")
    case True
    have li: "lookup_walk (Suc (Suc h)) i n = Null" using True by simp
    show ?thesis
    proof (cases "fst (kmalloc_ok oc)")
      case ok: True
      obtain r1 c1 oc1 where c1: "insert_walk (Suc h) i (Item v) (empty_node (Suc h)) (snd (kmalloc_ok oc)) = (r1, c1, oc1)"
        by (metis surj_pair)
      have "n' = Node (node_height n) (count n + 1) ((slots n)[?k := c1])" "r = r1"
        using Suc.prems(2) ok c1 by (simp_all add: insert_walk_null [OF True])
      then show ?thesis
        using Suc.IH [OF wf_empty_node c1] wf_update_child [OF Suc.prems(1), of c1 ?k] True li
          lookup_update_child [OF Suc.prems(1), of c1 ?k] wf_nodeD [of "Suc h" c1] lookup_Suc [OF Suc.prems(1)]
        by (auto simp: inserted_def same_digits_Suc [of "Suc h"] simp del: lookup_walk.simps)
    next
      case False
      then show ?thesis
        using Suc.prems li by (simp add: insert_walk_null [OF True] inserted_def del: lookup_walk.simps)
    qed
  next
    case False
    obtain r1 c1 oc1 where c1: "insert_walk (Suc h) i (Item v) (slots n ! ?k) oc = (r1, c1, oc1)" by (metis surj_pair)
    note IH = Suc.IH [OF wf_child [OF Suc.prems(1) radix_offset_lt False] c1]
    have "n' = Node (node_height n) (count n) ((slots n)[?k := c1])" "r = r1"
      using Suc.prems(2) c1 by (simp_all add: insert_walk_child [OF False])
    then show ?thesis
      using IH wf_update_child [OF Suc.prems(1), of c1 ?k] False lookup_Suc [OF Suc.prems(1)]
        lookup_update_child [OF Suc.prems(1), of c1 ?k] wf_nodeD [of "Suc h" c1]
      by (auto simp: inserted_def same_digits_Suc [of "Suc h"] simp del: lookup_walk.simps)
  qed
qed

lemma wf_drop_slot:
  assumes "wf_node (Suc h) n" "k < 64" "slots n ! k \<noteq> Null"
  shows "wf_node (Suc h) (drop_slot k n)"
    "lookup_walk (Suc h) j (drop_slot k n) =
       (if radix_offset j (Suc h) = k then Null else lookup_walk (Suc h) j n)"
proof -
  obtain d xs where n: "n = Node (Suc h) d xs" "length xs = 64" "d = length (filter (\<lambda>x. x \<noteq> Null) xs)"
    "\<And>x. x \<in> set xs \<Longrightarrow> x = Null \<or> (if h = 0 then \<exists>v. x = Item v else wf_node h x)"
    using wf_nodeE [OF assms(1)] by blast
  have "\<forall>y \<in> set (xs[k := Null]). y = Null \<or> (if h = 0 then \<exists>v. y = Item v else wf_node h y)"
    using n(4) set_update_subset_insert [of xs k Null] by blast
  then show "wf_node (Suc h) (drop_slot k n)"
    using length_filter_update [of k xs "\<lambda>x. x \<noteq> Null" Null] assms(2,3) n(1-3)
    by (simp add: wf_node.simps drop_slot_def)
  show "lookup_walk (Suc h) j (drop_slot k n) =
       (if radix_offset j (Suc h) = k then Null else lookup_walk (Suc h) j n)"
    using assms(2) n(1,2) by (cases h) (auto simp: drop_slot_def nth_list_update)
qed

lemma wf_count_0:
  assumes "wf_node (Suc h) n" "count n = 0"
  shows "lookup_walk (Suc h) j n = Null"
proof -
  obtain d xs where n: "n = Node (Suc h) d xs" "length xs = 64" "d = length (filter (\<lambda>x. x \<noteq> Null) xs)"
    using assms(1) by (elim wf_nodeE)
  have "xs ! k = Null" if "k < 64" for k
    using assms(2) n that by (auto simp: filter_empty_conv)
  then show ?thesis using n(1) by (cases h) simp_all
qed

lemma wf_count_pos: "wf_node (Suc h) n \<Longrightarrow> k < 64 \<Longrightarrow> slots n ! k \<noteq> Null \<Longrightarrow> count n \<noteq> 0"
  by (elim wf_nodeE) (auto simp: filter_empty_conv)

lemma delete_walk_child:
  assumes "slots n ! radix_offset i (Suc (Suc h)) \<noteq> Null"
  shows "delete_walk (Suc (Suc h)) i n =
    (case delete_walk (Suc h) i (slots n ! radix_offset i (Suc (Suc h))) of
       None \<Rightarrow> None
     | Some (item, c, freed) \<Rightarrow>
         if freed then Some (item, drop_slot (radix_offset i (Suc (Suc h))) n,
           count (drop_slot (radix_offset i (Suc (Suc h))) n) = 0)
         else Some (item, Node (node_height n) (count n) ((slots n)[radix_offset i (Suc (Suc h)) := c]), False))"
  using assms by (cases "slots n ! radix_offset i (Suc (Suc h))") (simp_all add: Let_def split: option.split)

declare delete_walk.simps(1) [simp del]

lemma delete_walk_correct:
  assumes "wf_node (Suc h) n"
  shows "case delete_walk (Suc h) i n of
      None \<Rightarrow> lookup_walk (Suc h) i n = Null
    | Some (item, n', freed) \<Rightarrow> item = lookup_walk (Suc h) i n \<and> item \<noteq> Null \<and> wf_node (Suc h) n' \<and>
        (freed \<longleftrightarrow> count n' = 0) \<and>
        (\<forall>j. lookup_walk (Suc h) j n' = (if same_digits (Suc h) i j then Null else lookup_walk (Suc h) j n))"
  using assms
proof (induction h arbitrary: n)
  case 0
  show ?case
    using wf_drop_slot [OF 0, of "radix_offset i 1"] by (auto simp: Let_def same_digits_1)
next
  case (Suc h)
  let ?k = "radix_offset i (Suc (Suc h))"
  show ?case
  proof (cases "slots n ! ?k = Null")
    case True
    then show ?thesis by (simp add: delete_walk.simps(1))
  next
    case False
    let ?c = "slots n ! ?k"
    have wc: "wf_node (Suc h) ?c" by (rule wf_child [OF Suc.prems radix_offset_lt False])
    have lk: "lookup_walk (Suc (Suc h)) j n =
        (if slots n ! radix_offset j (Suc (Suc h)) = Null then Null
         else lookup_walk (Suc h) j (slots n ! radix_offset j (Suc (Suc h))))" for j
      by (rule lookup_Suc [OF Suc.prems])
    show ?thesis
    proof (cases "delete_walk (Suc h) i ?c")
      case None
      then show ?thesis using Suc.IH [OF wc] False lk by (simp add: delete_walk_child del: lookup_walk.simps)
    next
      case (Some p)
      obtain item c freed where p: "p = (item, c, freed)" by (cases p)
      have IH: "item = lookup_walk (Suc h) i ?c" "item \<noteq> Null" "wf_node (Suc h) c" "freed \<longleftrightarrow> count c = 0"
        "\<And>j. lookup_walk (Suc h) j c = (if same_digits (Suc h) i j then Null else lookup_walk (Suc h) j ?c)"
        using Suc.IH [OF wc] by (auto simp: Some p)
      show ?thesis
      proof (cases freed)
        case True
        have "lookup_walk (Suc h) j ?c = Null" if "\<not> same_digits (Suc h) i j" for j
          using wf_count_0 [OF IH(3)] IH(4) IH(5) [of j] True that by simp
        then show ?thesis
          using True Some p False IH(1,2) lk wf_drop_slot [OF Suc.prems radix_offset_lt False]
          by (auto simp: delete_walk_child same_digits_Suc [of "Suc h"] simp del: lookup_walk.simps)
      next
        case nf: False
        have cn: "c \<noteq> Null" using IH(3) by auto
        have wu: "wf_node (Suc (Suc h)) (Node (node_height n) (count n) ((slots n)[?k := c]))"
          by (rule wf_update_child [OF Suc.prems IH(3) radix_offset_lt]) (use False in simp_all)
        show ?thesis
          using nf Some p False IH lk wf_count_pos [OF Suc.prems radix_offset_lt False]
            wu lookup_update_child [OF Suc.prems cn radix_offset_lt]
          by (auto simp: delete_walk_child same_digits_Suc [of "Suc h"] simp del: lookup_walk.simps)
      qed
    qed
  qed
qed

subsection \<open>Trees as maps\<close>

text \<open>
  The map a tree represents.  A root is well formed if it is empty, or its tree has the root's height, at most 6,
  and in a tree of height 6 only the four slots that 32-bit indices reach are used.
\<close>

definition radix_map :: "'v radix_tree_root \<Rightarrow> u32 \<Rightarrow> 'v option" where
  "radix_map root i = (case radix_tree_lookup root i of Item v \<Rightarrow> Some v | _ \<Rightarrow> None)"

definition top_ok :: "nat \<Rightarrow> 'v slot \<Rightarrow> bool" where
  "top_ok h n \<longleftrightarrow> (h = 6 \<longrightarrow> (\<forall>k \<in> {4..<64}. slots n ! k = Null))"

definition root_ok :: "'v radix_tree_root \<Rightarrow> bool" where
  "root_ok root \<longleftrightarrow> rnode root = Null \<or>
     0 < rt_height root \<and> rt_height root \<le> 6 \<and> wf_node (rt_height root) (rnode root) \<and>
     top_ok (rt_height root) (rnode root)"

lemma top_ok_empty [simp]: "top_ok h (empty_node k)"
  by (simp add: top_ok_def empty_node_def)

lemma radix_offset_6: "radix_offset i 6 < 4"
proof -
  have "unat i < 4 * 64 ^ 5" using unsigned_less [of i, where ?'a = nat] by simp
  then have "unat i div 64 ^ 5 < 4" by (rule less_mult_imp_div_less)
  then show ?thesis by (simp add: radix_offset_nat)
qed

lemma top_ok_update:
  assumes "top_ok h n" "slots n' = slots n \<or> slots n' = (slots n)[radix_offset i h := x]"
  shows "top_ok h n'"
proof -
  have "(slots n)[radix_offset i h := x] ! k = slots n ! k" if "h = 6" "4 \<le> k" for k
    using radix_offset_6 [of i] that by simp
  then show ?thesis using assms by (auto simp: top_ok_def)
qed

lemma insert_walk_slots:
  assumes "insert_walk (Suc h) i item n oc = (r, n', oc')"
  shows "\<exists>x. slots n' = slots n \<or> slots n' = (slots n)[radix_offset i (Suc h) := x]"
proof (cases h)
  case 0
  then show ?thesis using assms by (auto simp: Let_def split: if_splits)
next
  case (Suc k)
  show ?thesis
  proof (cases "slots n ! radix_offset i (Suc (Suc k)) = Null")
    case True
    then show ?thesis using assms by (auto simp: Suc insert_walk_null split: if_splits prod.splits)
  next
    case False
    then show ?thesis using assms by (auto simp: Suc insert_walk_child split: prod.splits)
  qed
qed

lemma delete_walk_slots:
  assumes "delete_walk (Suc h) i n = Some (item, n', freed)"
  shows "\<exists>x. slots n' = (slots n)[radix_offset i (Suc h) := x]"
proof (cases h)
  case 0
  then show ?thesis using assms by (auto simp: Let_def drop_slot_def split: if_splits)
next
  case (Suc k)
  show ?thesis
  proof (cases "slots n ! radix_offset i (Suc (Suc k)) = Null")
    case True
    then show ?thesis using assms by (simp add: Suc delete_walk.simps(1))
  next
    case False
    then show ?thesis using assms by (auto simp: Suc delete_walk_child drop_slot_def split: if_splits prod.splits option.splits)
  qed
qed

lemma lookup_walk_item:
  assumes "wf_node (Suc h) n"
  shows "lookup_walk (Suc h) i n = Null \<or> (\<exists>v. lookup_walk (Suc h) i n = Item v)"
  using assms
proof (induction h arbitrary: n)
  case 0
  then obtain xs c where n: "n = Node (Suc 0) c xs" "length xs = 64" "\<And>x. x \<in> set xs \<Longrightarrow> x = Null \<or> (\<exists>v. x = Item v)"
    by (elim wf_nodeE) (auto split: if_splits)
  then show ?case by simp
next
  case (Suc h)
  then show ?case
    using lookup_Suc [OF Suc.prems, of i] wf_child [OF Suc.prems radix_offset_lt, of i]
    by (simp del: lookup_walk.simps)
qed

lemma required_height:
  "index \<le> radix_tree_maxindex (radix_tree_required_height index)"
  "1 \<le> radix_tree_required_height index" "radix_tree_required_height index \<le> 6"
proof -
  have "index \<le> radix_tree_maxindex (required_from index k) \<and> k \<le> required_from index k \<and>
      (k \<le> 6 \<longrightarrow> required_from index k \<le> 6)" for k
  proof (induction index k rule: required_from.induct)
    case (1 index k)
    show ?case
    proof (cases "index > radix_tree_maxindex k")
      case True
      then show ?thesis using 1 maxindex_6 [OF True] by (simp add: required_from.simps [of index k])
    next
      case False
      then show ?thesis by (simp add: required_from.simps [of index k])
    qed
  qed
  from this [of 1] show "index \<le> radix_tree_maxindex (radix_tree_required_height index)"
    "1 \<le> radix_tree_required_height index" "radix_tree_required_height index \<le> 6"
    by (simp_all add: radix_tree_required_height_def)
qed


lemma root_okE:
  assumes "root_ok root" "rnode root \<noteq> Null"
  obtains h where "rt_height root = Suc h" "Suc h \<le> 6" "wf_node (Suc h) (rnode root)"
  using assms by (cases "rt_height root") (auto simp: root_ok_def)

lemma radix_lookup_item: "root_ok root \<Longrightarrow> radix_tree_lookup root i = Null \<or> (\<exists>v. radix_tree_lookup root i = Item v)"
  by (auto simp: radix_tree_lookup_def elim!: root_okE dest: lookup_walk_item [of _ _ i])

lemma radix_map_None: "root_ok root \<Longrightarrow> radix_map root i = None \<longleftrightarrow> radix_tree_lookup root i = Null"
  using radix_lookup_item [of root i] by (auto simp: radix_map_def)

lemma maxindex_mono: "h \<le> k \<Longrightarrow> radix_tree_maxindex h \<le> radix_tree_maxindex k"
  unfolding word_le_nat_alt maxindex_nat by (intro diff_le_mono min.mono power_increasing) auto

text \<open>Adding a level on top keeps all lookups.\<close>

lemma wf_new_level:
  assumes "wf_node (Suc h) n"
  shows "wf_node (Suc (Suc h)) (Node (Suc (Suc h)) 1 ((replicate 64 Null)[0 := n]))"
    "lookup_walk (Suc (Suc h)) i (Node (Suc (Suc h)) 1 ((replicate 64 Null)[0 := n])) =
       (if i \<le> radix_tree_maxindex (Suc h) \<or> radix_offset i (Suc (Suc h)) = 0 then lookup_walk (Suc h) i n else Null)"
proof -
  have nn: "n \<noteq> Null" using assms by auto
  have "length (filter (\<lambda>x. x \<noteq> Null) ((replicate 64 Null)[0 := n])) = 1"
    using length_filter_update [of 0 "replicate 64 Null" "\<lambda>x. x \<noteq> Null" n] nn by simp
  moreover have "\<forall>y \<in> set ((replicate 64 Null)[0 := n]). y = Null \<or> wf_node (Suc h) y"
    using assms set_update_subset_insert [of "replicate 64 Null" 0 n] by auto
  ultimately show "wf_node (Suc (Suc h)) (Node (Suc (Suc h)) 1 ((replicate 64 Null)[0 := n]))"
    by (simp add: wf_node.simps(2) [of "Suc h"])
  have "radix_offset i (Suc (Suc h)) = 0" if "i \<le> radix_tree_maxindex (Suc h)"
  proof -
    have "unat i \<le> min (64 ^ Suc h) (2 ^ 32) - 1" using that by (simp only: word_le_nat_alt maxindex_nat)
    moreover have "0 < min (64 ^ Suc h) (2 ^ 32 :: nat)" by simp
    ultimately have "unat i < 64 ^ Suc h" by linarith
    then show ?thesis by (simp add: radix_offset_nat del: power_Suc)
  qed
  then show "lookup_walk (Suc (Suc h)) i (Node (Suc (Suc h)) 1 ((replicate 64 Null)[0 := n])) =
       (if i \<le> radix_tree_maxindex (Suc h) \<or> radix_offset i (Suc (Suc h)) = 0 then lookup_walk (Suc h) i n else Null)"
    using nn by (auto simp: nth_list_update split: slot.split)
qed

lemma radix_map_new_level:
  assumes "root_ok root" "rnode root \<noteq> Null" "rt_height root < 6"
  defines "r' \<equiv> root\<lparr>rnode := Node (rt_height root + 1) 1 ((replicate 64 Null)[0 := rnode root]), rt_height := rt_height root + 1\<rparr>"
  shows "root_ok r'" "radix_tree_lookup r' = radix_tree_lookup root" "rnode r' \<noteq> Null"
proof -
  obtain h where h: "rt_height root = Suc h" "wf_node (Suc h) (rnode root)" using root_okE [OF assms(1,2)] by metis
  note w = wf_new_level [OF h(2)]
  show "root_ok r'" "rnode r' \<noteq> Null" using w(1) h assms(3) by (auto simp: root_ok_def r'_def top_ok_def)
  have "radix_tree_lookup r' i = radix_tree_lookup root i" for i
  proof (cases "i \<le> radix_tree_maxindex (Suc h)")
    case True
    moreover have "i \<le> radix_tree_maxindex (Suc (Suc h))"
      using True maxindex_mono [of "Suc h" "Suc (Suc h)"] by simp
    ultimately have "\<not> radix_tree_maxindex (Suc h) < i" "\<not> radix_tree_maxindex (Suc (Suc h)) < i"
      by (simp_all only: not_less)
    then show ?thesis
      using w(2) [of i] h(1) assms(2) True
      by (simp add: radix_tree_lookup_def r'_def del: lookup_walk.simps radix_tree_maxindex.simps)
  next
    case False
    have "64 ^ Suc h \<le> unat i"
    proof -
      have "\<not> unat i \<le> min (64 ^ Suc h) (2 ^ 32) - 1" using False by (simp only: word_le_nat_alt maxindex_nat not_False_eq_True)
      then show ?thesis using unsigned_less [of i, where ?'a = nat] by (auto simp: min_def split: if_splits)
    qed
    moreover have "radix_offset i (Suc (Suc h)) \<noteq> 0" if "i \<le> radix_tree_maxindex (Suc (Suc h))"
    proof -
      have "unat i < 64 ^ Suc (Suc h)"
      proof -
        have "unat i \<le> min (64 ^ Suc (Suc h)) (2 ^ 32) - 1" using that by (simp only: word_le_nat_alt maxindex_nat)
        moreover have "0 < min (64 ^ Suc (Suc h)) (2 ^ 32 :: nat)" by simp
        ultimately show ?thesis by linarith
      qed
      then have "unat i div 64 ^ Suc h < 64" by (simp add: div_less_iff_less_mult mult.commute)
      moreover have "0 < unat i div 64 ^ Suc h" using \<open>64 ^ Suc h \<le> unat i\<close> by (simp add: div_greater_zero_iff del: power_Suc)
      ultimately show ?thesis by (simp add: radix_offset_nat del: power_Suc)
    qed
    ultimately show ?thesis
      using w(2) h(1) False assms(2)
      by (auto simp: radix_tree_lookup_def r'_def not_less not_le simp del: lookup_walk.simps radix_tree_maxindex.simps)
  qed
  then show "radix_tree_lookup r' = radix_tree_lookup root" by auto
qed

lemma extend_loop_correct:
  assumes "root_ok root" "rnode root \<noteq> Null" "rt_height root + d \<le> 6" "extend_loop d root oc = (r, root', oc')"
  shows "root_ok root' \<and> radix_tree_lookup root' = radix_tree_lookup root \<and> rnode root' \<noteq> Null \<and>
    (r = 0 \<and> rt_height root' = rt_height root + d \<or> r = - ENOMEM)"
  using assms
proof (induction d arbitrary: root oc)
  case (Suc d)
  let ?r = "root\<lparr>rnode := Node (rt_height root + 1) 1 ((replicate 64 Null)[0 := rnode root]), rt_height := rt_height root + 1\<rparr>"
  have lt: "rt_height root < 6" using Suc.prems(3) by simp
  show ?case
  proof (cases "fst (kmalloc_ok oc)")
    case True
    then have "extend_loop d ?r (snd (kmalloc_ok oc)) = (r, root', oc')"
      using Suc.prems(4) by (cases "kmalloc_ok oc") (simp add: radix_tree_node_alloc_def radix_consts)
    then show ?thesis
      using Suc.IH [of ?r] radix_map_new_level [OF Suc.prems(1,2) lt] Suc.prems(3) by auto
  next
    case False
    then show ?thesis using Suc.prems by (simp add: radix_tree_node_alloc_def split: prod.splits)
  qed
qed auto

lemma radix_extend_correct:
  assumes "root_ok root" "radix_tree_extend root i oc = (r, root', oc')"
  shows "root_ok root'" "radix_tree_lookup root' = radix_tree_lookup root"
    "r = 0 \<and> rnode root' \<noteq> Null \<and> i \<le> radix_tree_maxindex (rt_height root') \<or> r = - ENOMEM"
proof -
  let ?q = "radix_tree_required_height i"
  have *: "root_ok root' \<and> radix_tree_lookup root' = radix_tree_lookup root \<and>
    (r = 0 \<and> rnode root' \<noteq> Null \<and> i \<le> radix_tree_maxindex (rt_height root') \<or> r = - ENOMEM)"
  proof (cases "rnode root = Null")
    case True
    show ?thesis
    proof (cases "fst (kmalloc_ok oc)")
      case ok: True
      have "root' = root\<lparr>rnode := empty_node ?q, rt_height := ?q\<rparr>" "r = 0"
        using assms(2) True ok
        by (cases "kmalloc_ok oc"; simp add: radix_tree_extend_def Let_def radix_tree_node_alloc_def empty_node_def radix_consts)+
      moreover have "radix_tree_lookup root = (\<lambda>_. Null)" using True by (simp add: radix_tree_lookup_def fun_eq_iff)
      ultimately show ?thesis
        using required_height [of i] wf_empty_node [of ?q] wf_nodeD [OF wf_empty_node [of ?q]]
        by (auto simp: root_ok_def radix_tree_lookup_def fun_eq_iff)
    next
      case False
      have "root' = root\<lparr>rnode := Null\<rparr>" "r = - ENOMEM"
        using assms(2) True False by (cases "kmalloc_ok oc"; simp add: radix_tree_extend_def Let_def radix_tree_node_alloc_def)+
      then show ?thesis using True assms(1) by (simp add: root_ok_def radix_tree_lookup_def fun_eq_iff)
    qed
  next
    case False
    have el: "extend_loop (?q - rt_height root) root oc = (r, root', oc')"
      using assms(2) False by (cases "rnode root") (simp_all add: radix_tree_extend_def Let_def)
    have h6: "rt_height root + (?q - rt_height root) \<le> 6"
      using required_height(3) [of i] assms(1) False by (auto simp: root_ok_def)
    have "i \<le> radix_tree_maxindex (rt_height root')" if "rt_height root' = rt_height root + (?q - rt_height root)"
    proof -
      have "?q \<le> rt_height root'" using that by simp
      then show ?thesis using required_height(1) [of i] maxindex_mono order_trans by blast
    qed
    then show ?thesis using extend_loop_correct [OF assms(1) False h6 el] by auto
  qed
  then show "root_ok root'" "radix_tree_lookup root' = radix_tree_lookup root"
    "r = 0 \<and> rnode root' \<noteq> Null \<and> i \<le> radix_tree_maxindex (rt_height root') \<or> r = - ENOMEM" by auto
qed

lemma radix_map_cong: "radix_tree_lookup r = radix_tree_lookup s \<Longrightarrow> radix_map r = radix_map s"
  by (simp add: radix_map_def fun_eq_iff)

subsection \<open>Properties\<close>

lemma radix_insert_correct:
  assumes "root_ok root" "radix_tree_insert root i (Item v) oc = (r, root', oc')"
  shows "root_ok root' \<and>
    (r = 0 \<and> radix_map root i = None \<and> radix_map root' = (radix_map root)(i \<mapsto> v) \<or>
     r = - ENOMEM \<and> radix_map root' = radix_map root \<or>
     r = - EEXIST \<and> radix_map root i \<noteq> None \<and> radix_map root' = radix_map root)"
proof -
  obtain r1 root1 oc1 where e: "radix_tree_extend root i oc = (r1, root1, oc1)" by (metis surj_pair)
  note x = radix_extend_correct [OF assms(1) e]
  show ?thesis
  proof (cases "r1 = 0")
    case False
    then show ?thesis
      using assms(2) e x radix_map_cong [OF x(2)] by (auto simp: radix_tree_insert_def)
  next
    case True
    then have nn: "rnode root1 \<noteq> Null" and mi: "i \<le> radix_tree_maxindex (rt_height root1)"
      using x(3) by (auto simp: errno_defs)
    obtain h where h: "rt_height root1 = Suc h" "Suc h \<le> 6" "wf_node (Suc h) (rnode root1)"
      using root_okE [OF x(1) nn] by metis
    obtain n oc2 where w: "insert_walk (Suc h) i (Item v) (rnode root1) oc1 = (r, n, oc2)" "root' = root1\<lparr>rnode := n\<rparr>"
      using assms(2) e True h(1) by (auto simp: radix_tree_insert_def split: prod.splits)
    note c = insert_walk_correct [OF h(3) w(1)]
    have "top_ok (Suc h) (rnode root1)" using x(1) nn h(1) by (auto simp: root_ok_def)
    then have "top_ok (Suc h) n" using insert_walk_slots [OF w(1)] top_ok_update by blast
    then have ok: "root_ok root'" using c h w(2) by (auto simp: root_ok_def)
    have nn': "n \<noteq> Null" using c wf_nodeD by blast
    have lk: "radix_tree_lookup root' j = (if j > radix_tree_maxindex (Suc h) then Null else lookup_walk (Suc h) j n)"
      "radix_tree_lookup root1 j = (if j > radix_tree_maxindex (Suc h) then Null else lookup_walk (Suc h) j (rnode root1))" for j
      using nn nn' h(1) w(2) by (auto simp: radix_tree_lookup_def)
    have sd: "same_digits (Suc h) i j \<longleftrightarrow> i = j" if "\<not> j > radix_tree_maxindex (Suc h)" for j
      using that mi h(1) by (intro same_digits_maxindex) (auto simp: not_less)
    have li: "lookup_walk (Suc h) i (rnode root1) = radix_tree_lookup root i"
      using lk(2) [of i] mi h(1) x(2) by (simp add: linorder_not_less [symmetric] del: lookup_walk.simps)
    have old: "radix_map root = radix_map root1" using radix_map_cong [OF x(2)] by simp
    have new: "radix_map root' j = (if j > radix_tree_maxindex (Suc h) then None
        else case lookup_walk (Suc h) j n of Item v \<Rightarrow> Some v | _ \<Rightarrow> None)" for j
      by (simp add: radix_map_def lk(1) del: lookup_walk.simps)
    have new1: "radix_map root1 j = (if j > radix_tree_maxindex (Suc h) then None
        else case lookup_walk (Suc h) j (rnode root1) of Item v \<Rightarrow> Some v | _ \<Rightarrow> None)" for j
      by (simp add: radix_map_def lk(2) del: lookup_walk.simps)
    have "radix_map root' = (radix_map root)(i \<mapsto> v)"
      if "\<forall>j. lookup_walk (Suc h) j n = (if same_digits (Suc h) i j then Item v else lookup_walk (Suc h) j (rnode root1))"
      using that sd mi h(1) by (auto simp: fun_eq_iff old new new1 not_less simp del: lookup_walk.simps)
    moreover have "radix_map root' = radix_map root"
      if "\<forall>j. lookup_walk (Suc h) j n = lookup_walk (Suc h) j (rnode root1)"
      using that by (simp add: fun_eq_iff old new new1 del: lookup_walk.simps)
    ultimately show ?thesis
      using c ok radix_map_None [OF assms(1), of i] unfolding inserted_def li by blast
  qed
qed


lemma radix_delete_correct:
  assumes "root_ok root" "radix_tree_delete root i = (item, root')"
  shows "root_ok root' \<and> radix_map root' = (radix_map root)(i := None) \<and>
    item = (case radix_map root i of None \<Rightarrow> Null | Some v \<Rightarrow> Item v)"
proof (cases "rnode root = Null \<or> i > radix_tree_maxindex (rt_height root)")
  case True
  then have "radix_map root i = None" by (auto simp: radix_map_def radix_tree_lookup_def)
  then show ?thesis using True assms by (auto simp: radix_tree_delete_def)
next
  case False
  then have nn: "rnode root \<noteq> Null" by simp
  obtain h where h: "rt_height root = Suc h" "Suc h \<le> 6" "wf_node (Suc h) (rnode root)"
    using root_okE [OF assms(1) nn] by metis
  have lk: "radix_map root j = (if j > radix_tree_maxindex (Suc h) then None
      else case lookup_walk (Suc h) j (rnode root) of Item v \<Rightarrow> Some v | _ \<Rightarrow> None)" for j
    using nn h(1) by (simp add: radix_map_def radix_tree_lookup_def del: lookup_walk.simps)
  have sd: "same_digits (Suc h) i j \<longleftrightarrow> i = j" if "\<not> j > radix_tree_maxindex (Suc h)" for j
    using that False h(1) by (intro same_digits_maxindex) (auto simp: not_less)
  note it = lookup_walk_item [OF h(3), of i]
  show ?thesis
  proof (cases "delete_walk (Suc h) i (rnode root)")
    case None
    then have "lookup_walk (Suc h) i (rnode root) = Null" using delete_walk_correct [OF h(3), of i] by simp
    then have "radix_map root i = None" by (simp add: lk del: lookup_walk.simps)
    then show ?thesis using None False h(1) assms by (auto simp: radix_tree_delete_def)
  next
    case (Some p)
    obtain x n freed where p: "p = (x, n, freed)" by (cases p)
    have c: "x = lookup_walk (Suc h) i (rnode root)" "x \<noteq> Null" "wf_node (Suc h) n" "freed \<longleftrightarrow> count n = 0"
      "\<And>j. lookup_walk (Suc h) j n = (if same_digits (Suc h) i j then Null else lookup_walk (Suc h) j (rnode root))"
      using delete_walk_correct [OF h(3), of i] by (auto simp: Some p)
    have x: "x = (case radix_map root i of None \<Rightarrow> Null | Some v \<Rightarrow> Item v)"
      using c(1,2) it False h(1) by (auto simp: lk simp del: lookup_walk.simps)
    have res: "(item, root') = (if freed then (x, root\<lparr>rnode := Null, rt_height := 0\<rparr>)
        else (x, root\<lparr>rnode := n, rt_height := Suc h\<rparr>))"
      using assms(2) False Some p h(1) wf_nodeD [OF c(3)] by (auto simp: radix_tree_delete_def)
    have gone: "(radix_map root)(i := None) = (\<lambda>j. if j > radix_tree_maxindex (Suc h) then None
        else case lookup_walk (Suc h) j n of Item v \<Rightarrow> Some v | _ \<Rightarrow> None)"
      using sd False h(1) by (auto simp: fun_eq_iff lk c(5) simp del: lookup_walk.simps)
    have "radix_map root' = (radix_map root)(i := None)"
      unfolding gone using res wf_nodeD [OF c(3)] wf_count_0 [OF c(3)] c(4)
      by (auto simp: fun_eq_iff radix_map_def radix_tree_lookup_def simp del: lookup_walk.simps)
    moreover have "top_ok (Suc h) n"
    proof -
      have "top_ok (Suc h) (rnode root)" using assms(1) nn h(1) by (auto simp: root_ok_def)
      moreover obtain y where "slots n = (slots (rnode root))[radix_offset i (Suc h) := y]"
        using delete_walk_slots Some unfolding p by blast
      ultimately show ?thesis using top_ok_update by blast
    qed
    then have "root_ok root'" using res c(3) h(2) by (cases freed) (auto simp: root_ok_def)
    ultimately show ?thesis using res x by (auto split: if_splits)
  qed
qed

text \<open>
  C14: Deletion refines the removal from a finite map: on a well-formed tree \<open>radix_tree_delete\<close>
  returns the item stored at the index, or NULL if there is none, and leaves a well-formed tree with
  exactly that association removed, however many emptied nodes it freed on the way.
\<close>
theorem radix_tree_delete_spec:
  assumes "root_ok root" "radix_tree_delete root i = (item, root')"
  shows "root_ok root' \<and> radix_map root' = (radix_map root)(i := None) \<and>
    item = (case radix_map root i of None \<Rightarrow> Null | Some v \<Rightarrow> Item v)"
  using assms by (rule radix_delete_correct)

definition demo_root :: "nat radix_tree_root" where
  "demo_root = \<lparr>rt_height = 1, rt_gfp_mask = 0, rnode = Node 1 1 ((replicate 64 Null)[5 := Item 7])\<rparr>"

lemma demo_root_ok: "root_ok demo_root"
proof -
  have "length (filter (\<lambda>x. x \<noteq> Null) ((replicate 64 Null)[5 := Item (7 :: nat)])) = 1"
    using length_filter_update [of 5 "replicate 64 Null" "\<lambda>x. x \<noteq> Null" "Item 7"] by simp
  moreover have "\<forall>y \<in> set ((replicate 64 Null)[5 := Item (7::nat)]). y = Null \<or> (\<exists>v. y = Item v)"
    using set_update_subset_insert [of "replicate 64 Null" 5 "Item (7::nat)"] by auto
  ultimately show ?thesis by (simp add: root_ok_def demo_root_def wf_node.simps top_ok_def)
qed


theorem radix_tree_delete_spec_witness:
  "root_ok demo_root \<and> radix_tree_delete demo_root 5 = (Item 7, \<lparr>rt_height = 0, rt_gfp_mask = 0, rnode = Null\<rparr>) \<and>
   radix_map \<lparr>rt_height = 0, rt_gfp_mask = 0, rnode = Null\<rparr> = (radix_map demo_root)(5 := None)"
proof -
  have d: "radix_tree_delete demo_root 5 = (Item 7, \<lparr>rt_height = 0, rt_gfp_mask = 0, rnode = Null\<rparr>)"
    by (simp add: radix_tree_delete_def demo_root_def radix_consts radix_offset_def drop_slot_def Let_def)
  from radix_tree_delete_spec [OF demo_root_ok d] d demo_root_ok show ?thesis by blast
qed

subsection \<open>The interface to clients\<close>

text \<open>
  What a client relies on: an index structure that holds items under keys.  \<open>assoc t\<close> is the map it stands
  for; an insertion returns 0, \<open>-EEXIST\<close> or \<open>-ENOMEM\<close>, and a removal returns the pointer \<open>ptr_of\<close>
  of what the key held.
\<close>

locale item_index =
  fixes ok :: "'t \<Rightarrow> bool" and assoc :: "'t \<Rightarrow> 'k \<Rightarrow> 'v option" and ptr_of :: "'v option \<Rightarrow> 'p"
    and ins :: "'t \<Rightarrow> 'k \<Rightarrow> 'v \<Rightarrow> outcomes \<Rightarrow> int \<times> 't \<times> outcomes" and del :: "'t \<Rightarrow> 'k \<Rightarrow> 'p \<times> 't"
  assumes ins_law: "ok t \<Longrightarrow> ins t k v oc = (r, t', oc') \<Longrightarrow> ok t' \<and>
      (r = 0 \<and> assoc t k = None \<and> assoc t' = (assoc t)(k \<mapsto> v) \<or>
       r = - ENOMEM \<and> assoc t' = assoc t \<or>
       r = - EEXIST \<and> assoc t k \<noteq> None \<and> assoc t' = assoc t)"
    and del_law: "ok t \<Longrightarrow> del t k = (p, t') \<Longrightarrow> ok t' \<and> assoc t' = (assoc t)(k := None) \<and> p = ptr_of (assoc t k)"
begin

lemma ins_free:
  assumes "ok t" "assoc t k = None" "ins t k v oc = (r, t', oc')"
  obtains "r = 0" "ok t'" "assoc t' = (assoc t)(k \<mapsto> v)" | "r = - ENOMEM" "ok t'" "assoc t' = assoc t"
  using ins_law [OF assms(1,3)] assms(2) by blast

lemma ins_taken:
  assumes "ok t" "assoc t k \<noteq> None" "ins t k v oc = (r, t', oc')"
  shows "r \<noteq> 0" "ok t'" "assoc t' = assoc t"
  using ins_law [OF assms(1,3)] assms(2) by (auto simp: errno_defs)

lemma del_after_ins:
  assumes "ok t" "ins t k v oc = (0, t', oc')" "del t' k = (p, t'')"
  shows "ok t''" "assoc t'' = assoc t" "p = ptr_of (Some v)"
proof -
  have i: "ok t'" "assoc t k = None" "assoc t' = (assoc t)(k \<mapsto> v)"
    using ins_law [OF assms(1,2)] by (auto simp: errno_defs)
  show "ok t''" "assoc t'' = assoc t" "p = ptr_of (Some v)"
    using del_law [OF i(1) assms(3)] i by auto
qed

end

fun item_slot :: "'v option \<Rightarrow> 'v slot" where
  "item_slot None = Null"
| "item_slot (Some v) = Item v"

interpretation radix: item_index root_ok radix_map item_slot "\<lambda>t k v. radix_tree_insert t k (Item v)" radix_tree_delete
proof unfold_locales
  fix t :: "'a radix_tree_root" and k p t'
  assume "root_ok t" "radix_tree_delete t k = (p, t')"
  then show "root_ok t' \<and> radix_map t' = (radix_map t)(k := None) \<and> p = item_slot (radix_map t k)"
    using radix_delete_correct [of t k p t'] by (cases "radix_map t k") auto
qed (rule radix_insert_correct)

subsection \<open>Entries in order\<close>

text \<open>The entries below a node whose indices start at \<open>b\<close>, in the order of the indices.\<close>

fun entries :: "nat \<Rightarrow> nat \<Rightarrow> 'v slot \<Rightarrow> (nat \<times> 'v slot) list" where
  "entries (Suc (Suc h)) b n =
     concat (map (\<lambda>(k, c). if c = Null then [] else entries (Suc h) (b + k * 64 ^ Suc h) c) (enumerate 0 (slots n)))"
| "entries _ b n = map (\<lambda>(k, x). (b + k, x)) (filter (\<lambda>(k, x). x \<noteq> Null) (enumerate 0 (slots n)))"

lemma in_enumerate_0: "(k, x) \<in> set (enumerate 0 xs) \<longleftrightarrow> k < length xs \<and> x = xs ! k"
  by (auto simp: in_set_enumerate_eq)

lemma digit_below:
  assumes "b mod (64 * m) = 0" "b \<le> i" "i < b + 64 * m" "0 < (m :: nat)"
  shows "i div m mod 64 = (i - b) div m"
proof -
  obtain q where "b = 64 * m * q" using assms(1) by (metis dvdE mod_0_imp_dvd)
  then have i: "i = (64 * q) * m + (i - b)" using assms(2) by (simp add: mult.commute mult.left_commute)
  have "i div m = 64 * q + (i - b) div m" by (subst i) (use assms(4) in simp)
  moreover have "(i - b) div m < 64" using assms(2,3) by (intro less_mult_imp_div_less) simp
  ultimately show ?thesis by simp
qed

lemma offset_below:
  assumes "b mod 64 ^ Suc h = 0" "b + 64 ^ Suc h \<le> 2 ^ 32" "b \<le> i" "i < b + 64 ^ Suc h"
  shows "radix_offset (of_nat i) (Suc h) = (i - b) div 64 ^ h"
proof -
  have "unat (of_nat i :: u32) = i" using assms(2,4) by (simp add: unat_of_nat)
  then show ?thesis using digit_below [of b "64 ^ h" i] assms by (simp add: radix_offset_nat)
qed

lemma entries_child:
  "(i, x) \<in> set (entries (Suc (Suc h)) b n) \<longleftrightarrow>
     (\<exists>k < length (slots n). slots n ! k \<noteq> Null \<and> (i, x) \<in> set (entries (Suc h) (b + k * 64 ^ Suc h) (slots n ! k)))"
proof
  assume "(i, x) \<in> set (entries (Suc (Suc h)) b n)"
  then obtain k c where "(k, c) \<in> set (enumerate 0 (slots n))" "c \<noteq> Null" "(i, x) \<in> set (entries (Suc h) (b + k * 64 ^ Suc h) c)"
    by (auto split: if_splits)
  then show "\<exists>k < length (slots n). slots n ! k \<noteq> Null \<and> (i, x) \<in> set (entries (Suc h) (b + k * 64 ^ Suc h) (slots n ! k))"
    by (auto simp: in_enumerate_0)
next
  assume "\<exists>k < length (slots n). slots n ! k \<noteq> Null \<and> (i, x) \<in> set (entries (Suc h) (b + k * 64 ^ Suc h) (slots n ! k))"
  then obtain k where k: "k < length (slots n)" "slots n ! k \<noteq> Null" "(i, x) \<in> set (entries (Suc h) (b + k * 64 ^ Suc h) (slots n ! k))"
    by blast
  then have "(k, slots n ! k) \<in> set (enumerate 0 (slots n))" by (simp add: in_enumerate_0)
  then show "(i, x) \<in> set (entries (Suc (Suc h)) b n)" using k(2,3) by (simp only: entries.simps set_concat set_map) force
qed

declare entries.simps(1) [simp del]

lemma entries_iff:
  assumes "wf_node (Suc h) n" "b mod 64 ^ Suc h = 0" "b + 64 ^ Suc h \<le> 2 ^ 32"
  shows "(i, x) \<in> set (entries (Suc h) b n) \<longleftrightarrow>
    b \<le> i \<and> i < b + 64 ^ Suc h \<and> x = lookup_walk (Suc h) (of_nat i) n \<and> x \<noteq> Null"
  using assms
proof (induction h arbitrary: b n)
  case 0
  have len: "length (slots n) = 64" using 0(1) by (elim wf_nodeE) simp
  have off: "radix_offset (of_nat i) (Suc 0) = i - b" if "b \<le> i" "i < b + 64"
    using offset_below [of b 0 i] that 0(2,3) by simp
  show ?case
  proof
    assume "(i, x) \<in> set (entries (Suc 0) b n)"
    then obtain k where "i = b + k" "k < 64" "x = slots n ! k" "x \<noteq> Null" by (auto simp: in_enumerate_0 len)
    then show "b \<le> i \<and> i < b + 64 ^ Suc 0 \<and> x = lookup_walk (Suc 0) (of_nat i) n \<and> x \<noteq> Null" using off by simp
  next
    assume r: "b \<le> i \<and> i < b + 64 ^ Suc 0 \<and> x = lookup_walk (Suc 0) (of_nat i) n \<and> x \<noteq> Null"
    then have "(i - b, x) \<in> set (enumerate 0 (slots n))" using off by (auto simp: in_enumerate_0 len)
    moreover have "i = b + (i - b)" using r by simp
    ultimately show "(i, x) \<in> set (entries (Suc 0) b n)" using r by force
  qed
next
  case (Suc h)
  define m where "m = (64 :: nat) ^ Suc h"
  have m: "64 ^ Suc h = m" "64 ^ Suc (Suc h) = 64 * m" by (simp_all add: m_def)
  have len: "length (slots n) = 64" using Suc.prems(1) by (elim wf_nodeE) simp
  have bm: "b mod m = 0" using Suc.prems(2) unfolding m by (metis dvd_mult_right mod_0_imp_dvd dvd_imp_mod_0)
  have km: "k * m + m \<le> 64 * m" if "k < 64" for k
    using mult_le_mono1 [of "Suc k" 64 m] that by simp
  have off: "radix_offset (of_nat i) (Suc (Suc h)) = (i - b) div m" if "b \<le> i" "i < b + 64 * m"
    using offset_below [OF Suc.prems(2,3)] that unfolding m by blast
  have ch: "(i, x) \<in> set (entries (Suc h) (b + k * m) (slots n ! k)) \<longleftrightarrow>
      b + k * m \<le> i \<and> i < b + k * m + m \<and> x = lookup_walk (Suc h) (of_nat i) (slots n ! k) \<and> x \<noteq> Null"
    if "k < 64" "slots n ! k \<noteq> Null" for k
    unfolding m(1) [symmetric]
  proof (rule Suc.IH)
    show "wf_node (Suc h) (slots n ! k)" by (rule wf_child [OF Suc.prems(1) that])
    show "(b + k * 64 ^ Suc h) mod 64 ^ Suc h = 0" using bm unfolding m by simp
    show "b + k * 64 ^ Suc h + 64 ^ Suc h \<le> 2 ^ 32" using km [OF that(1)] Suc.prems(3) unfolding m by linarith
  qed
  have "(i, x) \<in> set (entries (Suc (Suc h)) b n) \<longleftrightarrow>
      (\<exists>k < 64. slots n ! k \<noteq> Null \<and> (i, x) \<in> set (entries (Suc h) (b + k * m) (slots n ! k)))"
    unfolding entries_child len m ..
  also have "\<dots> \<longleftrightarrow> b \<le> i \<and> i < b + 64 * m \<and> x = lookup_walk (Suc (Suc h)) (of_nat i) n \<and> x \<noteq> Null"
    (is "?l \<longleftrightarrow> ?r")
  proof
    assume ?l
    then obtain k where k: "k < 64" "slots n ! k \<noteq> Null" "b + k * m \<le> i" "i < b + k * m + m"
      "x = lookup_walk (Suc h) (of_nat i) (slots n ! k)" "x \<noteq> Null" using ch by blast
    have i: "b \<le> i" "i < b + 64 * m" using k(3,4) km [OF k(1)] by linarith+
    have "(i - b) div m = k" using k(3,4) by (intro div_nat_eqI) (simp_all add: mult.commute)
    then show ?r using i off [OF i] k lookup_Suc [OF Suc.prems(1)] by (simp del: lookup_walk.simps)
  next
    assume r: ?r
    define k where "k = (i - b) div m"
    have ko: "radix_offset (of_nat i) (Suc (Suc h)) = k" using off r by (simp add: k_def)
    have k64: "k < 64" using radix_offset_lt ko by metis
    have "0 < m" by (simp add: m_def)
    then have "k * m \<le> i - b" "i - b < k * m + m"
      using div_times_less_eq_dividend [of "i - b" m] dividend_less_div_times [of m "i - b"] by (auto simp: k_def)
    then have "b + k * m \<le> i" "i < b + k * m + m" using r by auto
    moreover have "slots n ! k \<noteq> Null" "x = lookup_walk (Suc h) (of_nat i) (slots n ! k)"
      using r lookup_Suc [OF Suc.prems(1), of "of_nat i"] ko by (auto simp del: lookup_walk.simps split: if_splits)
    ultimately show ?l using ch [OF k64] k64 r by blast
  qed
  finally show ?case unfolding m .
qed

lemma sorted_concat_enumerate:
  assumes "\<And>k c. (k, c) \<in> set (enumerate s xs) \<Longrightarrow> sorted_wrt (<) (map fst (g k c))"
    "\<And>k c p. (k, c) \<in> set (enumerate s xs) \<Longrightarrow> p \<in> set (g k c) \<Longrightarrow> B + k * m \<le> fst p \<and> fst p < B + k * m + (m :: nat)"
  shows "sorted_wrt (<) (map fst (concat (map (\<lambda>(k, c). g k c) (enumerate s xs))))"
  using assms
proof (induction xs arbitrary: s)
  case (Cons x xs)
  have "fst p < fst q" if "p \<in> set (g s x)" "(k, c) \<in> set (enumerate (Suc s) xs)" "q \<in> set (g k c)" for p q k c
  proof -
    have "fst p < B + s * m + m" "B + k * m \<le> fst q"
      using Cons.prems(2) [of s x p] Cons.prems(2) [of k c q] that by simp_all
    moreover have "s * m + m \<le> k * m"
      using that(2) mult_le_mono1 [of "Suc s" k m] by (auto simp: in_set_enumerate_eq)
    ultimately show ?thesis by linarith
  qed
  moreover have "sorted_wrt (<) (map fst (concat (map (\<lambda>(k, c). g k c) (enumerate (Suc s) xs))))"
  proof (rule Cons.IH)
    show "sorted_wrt (<) (map fst (g k c))" if "(k, c) \<in> set (enumerate (Suc s) xs)" for k c
      using Cons.prems(1) [of k c] that by simp
    show "B + k * m \<le> fst p \<and> fst p < B + k * m + m" if "(k, c) \<in> set (enumerate (Suc s) xs)" "p \<in> set (g k c)" for k c p
      using Cons.prems(2) [of k c p] that by simp
  qed
  ultimately show ?case using Cons.prems(1) [of s x] by (auto simp: sorted_wrt_append)
qed simp

lemma entries_bounds:
  assumes "wf_node (Suc h) n" "b mod 64 ^ Suc h = 0" "b + 64 ^ Suc h \<le> 2 ^ 32" "p \<in> set (entries (Suc h) b n)"
  shows "b \<le> fst p \<and> fst p < b + 64 ^ Suc h"
  using entries_iff [OF assms(1-3), of "fst p" "snd p"] assms(4) by simp

lemma subtree_bounds:
  assumes "b mod 64 ^ Suc (Suc h) = 0" "b + 64 ^ Suc (Suc h) \<le> (N :: nat)" "k < 64"
  shows "(b + k * 64 ^ Suc h) mod 64 ^ Suc h = 0" "b + k * 64 ^ Suc h + 64 ^ Suc h \<le> N"
proof -
  define m where "m = (64 :: nat) ^ Suc h"
  have m: "64 ^ Suc h = m" "64 ^ Suc (Suc h) = 64 * m" by (simp_all add: m_def)
  have "b mod m = 0" using assms(1) unfolding m by (metis dvd_mult_right mod_0_imp_dvd dvd_imp_mod_0)
  then show "(b + k * 64 ^ Suc h) mod 64 ^ Suc h = 0" unfolding m by simp
  have "k * m + m \<le> 64 * m" using mult_le_mono1 [of "Suc k" 64 m] assms(3) by simp
  then show "b + k * 64 ^ Suc h + 64 ^ Suc h \<le> N" using assms(2) unfolding m by linarith
qed

lemma entries_sorted:
  assumes "wf_node (Suc h) n" "b mod 64 ^ Suc h = 0" "b + 64 ^ Suc h \<le> 2 ^ 32"
  shows "sorted_wrt (<) (map fst (entries (Suc h) b n))"
  using assms
proof (induction h arbitrary: b n)
  case 0
  have "sorted_wrt (<) (map fst (filter P (enumerate 0 (slots n))))" for P
  proof -
    have "sorted_wrt (\<lambda>x y. fst x < fst y) (enumerate 0 (slots n))"
      by (rule iffD1 [OF sorted_wrt_map]) (simp add: map_fst_enumerate)
    then show ?thesis by (simp add: sorted_wrt_map sorted_wrt_filter)
  qed
  then show ?case by (simp add: comp_def case_prod_unfold sorted_wrt_map)
next
  case (Suc h)
  have len: "length (slots n) = 64" using Suc.prems(1) by (elim wf_nodeE) simp
  have c: "c \<noteq> Null \<Longrightarrow> wf_node (Suc h) c" "k < 64" if "(k, c) \<in> set (enumerate 0 (slots n))" for k c
    using that wf_child [OF Suc.prems(1)] by (auto simp: in_enumerate_0 len)
  note sb = subtree_bounds [OF Suc.prems(2,3)]
  show ?case
    unfolding entries.simps(1)
  proof (rule sorted_concat_enumerate [where B = b and m = "64 ^ Suc h"])
    fix k c assume kc: "(k, c) \<in> set (enumerate 0 (slots n))"
    show "sorted_wrt (<) (map fst (if c = Null then [] else entries (Suc h) (b + k * 64 ^ Suc h) c))"
      using Suc.IH [OF c(1) [OF kc] sb [OF c(2) [OF kc]]] by simp
    fix p assume "p \<in> set (if c = Null then [] else entries (Suc h) (b + k * 64 ^ Suc h) c)"
    then show "b + k * 64 ^ Suc h \<le> fst p \<and> fst p < b + k * 64 ^ Suc h + 64 ^ Suc h"
      using entries_bounds [OF c(1) [OF kc] sb [OF c(2) [OF kc]]] by (auto split: if_splits)
  qed
qed

lemma fold_take_append:
  assumes "\<And>x found. x \<in> set L \<Longrightarrow> length found \<le> m \<Longrightarrow> step x found = found @ take (m - length found) (E x)"
    "length found \<le> m"
  shows "fold step L found = found @ take (m - length found) (concat (map E L))"
  using assms
proof (induction L arbitrary: found)
  case (Cons x L)
  have "fold step L (found @ take (m - length found) (E x)) =
      (found @ take (m - length found) (E x)) @
      take (m - length (found @ take (m - length found) (E x))) (concat (map E L))"
    by (rule Cons.IH) (use Cons.prems in auto)
  then show ?case using Cons.prems by (auto simp: min_def)
qed simp

definition conv :: "nat \<times> 'v slot \<Rightarrow> u32 \<times> 'v slot" where
  "conv p = (of_nat (fst p), snd p)"

lemma gang_leaf_step:
  assumes "b + 64 \<le> 2 ^ 32" "first < 2 ^ 32" "(k, x) \<in> set (enumerate 0 (slots n))" "length (slots n) = 64" "length found \<le> m"
  shows "(if m \<le> length found then found
     else let index = of_nat b + of_nat k in if index < of_nat first then found else if x \<noteq> Null then found @ [(index, x)] else found) =
    found @ take (m - length found) (map conv (filter (\<lambda>(i, _). first \<le> i) (if x \<noteq> Null then [(b + k, x)] else [])))"
proof -
  have k: "k < 64" using assms(3,4) by (simp add: in_enumerate_0)
  have "(of_nat b + of_nat k < (of_nat first :: u32)) \<longleftrightarrow> b + k < first"
    using assms(1,2) k by (simp add: word_less_nat_alt unat_word_ariths unat_of_nat)
  then show ?thesis using assms(5) by (auto simp: conv_def Let_def)
qed


lemma entries_leaf: "entries (Suc 0) b n = concat (map (\<lambda>(k, x). if x \<noteq> Null then [(b + k, x)] else []) (enumerate 0 (slots n)))"
proof -
  have "map (\<lambda>(k, x). (b + k, x)) (filter (\<lambda>(k, x). x \<noteq> Null) L) =
      concat (map (\<lambda>(k, x). if x \<noteq> Null then [(b + k, x)] else []) L)" for L :: "(nat \<times> 'a slot) list"
    by (induction L) auto
  then show ?thesis by simp
qed

lemma maxindex_subtree: "h \<le> 5 \<Longrightarrow> unat (radix_tree_maxindex h) = 64 ^ h - 1"
proof -
  assume "h \<le> 5"
  then have "(64 :: nat) ^ h \<le> 64 ^ 5" by (intro power_increasing) simp_all
  then show ?thesis by (simp add: maxindex_nat)
qed

text \<open>The last index of a subtree is computed without wrap-around.\<close>

lemma child_range:
  assumes "b + k * 64 ^ Suc h + 64 ^ Suc h \<le> 2 ^ 32" "h \<le> 4"
  shows "of_nat b + push_bit (Suc h * 6) (of_nat k) = (of_nat (b + k * 64 ^ Suc h) :: u32)"
    "unat (of_nat (b + k * 64 ^ Suc h) + radix_tree_maxindex (Suc h)) = b + k * 64 ^ Suc h + (64 ^ Suc h - 1)"
proof -
  have "2 ^ (Suc h * 6) = (64 :: u32) ^ Suc h"
    using power_mult [of "2 :: u32" 6 "Suc h"] by (simp add: mult.commute del: power_Suc)
  then show "of_nat b + push_bit (Suc h * 6) (of_nat k) = (of_nat (b + k * 64 ^ Suc h) :: u32)"
    by (simp add: push_bit_eq_mult del: power_Suc)
  have "unat (of_nat (b + k * 64 ^ Suc h) :: u32) = b + k * 64 ^ Suc h"
  proof -
    have "0 < (64 :: nat) ^ Suc h" by simp
    then have "b + k * 64 ^ Suc h < 2 ^ 32" using assms(1) by linarith
    then show ?thesis by (simp add: unat_of_nat del: of_nat_add power_Suc)
  qed
  moreover have "unat (radix_tree_maxindex (Suc h)) = 64 ^ Suc h - 1" using assms(2) by (intro maxindex_subtree) simp
  ultimately show "unat (of_nat (b + k * 64 ^ Suc h) + radix_tree_maxindex (Suc h)) = b + k * 64 ^ Suc h + (64 ^ Suc h - 1)"
    using assms(1) by (subst unat_add_lem [THEN iffD1]) simp_all
qed

lemma gang_stop: "n = Null \<or> length found = m \<Longrightarrow> gang_lookup_node (Suc h) b f m n found = found"
  by (cases h) auto

text \<open>One round of the loop over the children of an inner node.\<close>

lemma gang_child_step:
  assumes "c \<noteq> Null \<Longrightarrow> wf_node (Suc h) c" "c \<noteq> Null \<Longrightarrow> (b + k * 64 ^ Suc h) mod 64 ^ Suc h = 0"
    "c \<noteq> Null \<Longrightarrow> b + k * 64 ^ Suc h + 64 ^ Suc h \<le> 2 ^ 32" "h \<le> 4" "first < 2 ^ 32" "length acc \<le> m"
    "c \<noteq> Null \<Longrightarrow> gang_lookup_node (Suc h) (of_nat (b + k * 64 ^ Suc h)) (of_nat first) m c acc =
       acc @ take (m - length acc) (map conv (filter (\<lambda>(i, _). first \<le> i) (entries (Suc h) (b + k * 64 ^ Suc h) c)))"
  shows "(case (k, c) of (i, child) \<Rightarrow> \<lambda>found. if m \<le> length found then found
     else let child_base = of_nat b + push_bit (Suc h * RADIX_TREE_MAP_SHIFT) (of_nat i);
              last0 = child_base + radix_tree_maxindex (Suc h);
              child_last = if last0 < child_base then - 1 else last0
          in if child_last < of_nat first then found
             else gang_lookup_node (Suc h) child_base (of_nat first) m child found) acc =
    acc @ take (m - length acc) (map conv (filter (\<lambda>(i, _). first \<le> i)
      (if c = Null then [] else entries (Suc h) (b + k * 64 ^ Suc h) c)))"
proof (cases "c = Null \<or> m \<le> length acc")
  case True
  then show ?thesis by (auto simp: Let_def gang_stop simp del: power_Suc gang_lookup_node.simps)
next
  case False
  then have c: "c \<noteq> Null" and lt: "(m \<le> length acc) = False" "(c = Null) = False" by auto
  let ?cb = "of_nat (b + k * 64 ^ Suc h) :: u32"
  let ?last = "?cb + radix_tree_maxindex (Suc h)"
  note cr = child_range [OF assms(3) [OF c] assms(4)]
  have "0 < (64 :: nat) ^ Suc h" by simp
  then have "b + k * 64 ^ Suc h < 2 ^ 32" using assms(3) [OF c] by linarith
  then have cb: "unat ?cb = b + k * 64 ^ Suc h" by (simp add: unat_of_nat del: of_nat_add power_Suc)
  have l1: "(?last < ?cb) = False" unfolding word_less_nat_alt cb cr(2) using not_add_less1 by blast
  have uf: "unat (of_nat first :: u32) = first" using assms(5) by (simp add: unat_of_nat)
  have l2: "?last < of_nat first \<longleftrightarrow> b + k * 64 ^ Suc h + (64 ^ Suc h - 1) < first"
    unfolding word_less_nat_alt uf cr(2) ..
  show ?thesis
  proof (cases "?last < of_nat first")
    case True
    have f: "(?last < of_nat first) = True" using True by simp
    have "fst q < first" if "q \<in> set (entries (Suc h) (b + k * 64 ^ Suc h) c)" for q
      using entries_bounds [OF assms(1) [OF c] assms(2) [OF c] assms(3) [OF c] that] True l2 by linarith
    then have e: "filter (\<lambda>(i, _). first \<le> i) (entries (Suc h) (b + k * 64 ^ Suc h) c) = []"
      by (force simp: filter_empty_conv simp del: power_Suc)
    show ?thesis unfolding prod.case Let_def RADIX_TREE_MAP_SHIFT_def cr(1) lt l1 f if_False if_True e by simp
  next
    case False
    have f: "(?last < of_nat first) = False" using False by simp
    show ?thesis unfolding prod.case Let_def RADIX_TREE_MAP_SHIFT_def cr(1) lt l1 f if_False by (rule assms(7) [OF c])
  qed
qed

lemma entries_children:
  "map conv (filter P (entries (Suc (Suc h)) b n)) = concat (map (\<lambda>(k, c). map conv (filter P
     (if c = Null then [] else entries (Suc h) (b + k * 64 ^ Suc h) c))) (enumerate 0 (slots n)))"
  unfolding entries.simps(1) by (simp add: filter_concat map_concat comp_def case_prod_unfold)

lemma gang_node_correct:
  assumes "wf_node (Suc h) n" "b mod 64 ^ Suc h = 0" "b + 64 ^ Suc h \<le> 2 ^ 32" "h \<le> 4" "first < 2 ^ 32"
    "length found \<le> m"
  shows "gang_lookup_node (Suc h) (of_nat b) (of_nat first) m n found =
    found @ take (m - length found) (map conv (filter (\<lambda>(i, _). first \<le> i) (entries (Suc h) b n)))"
  using assms
proof (induction h arbitrary: b n found)
  case 0
  have len: "length (slots n) = 64" using 0(1) by (elim wf_nodeE) auto
  have nn: "n \<noteq> Null" using 0(1) by auto
  show ?case
  proof (cases "length found = m")
    case False
    then have "(n = Null \<or> length found = m) = False" using nn by simp
    then have "gang_lookup_node (Suc 0) (of_nat b) (of_nat first) m n found =
        found @ take (m - length found) (concat (map (\<lambda>(k, x).
          map conv (filter (\<lambda>(i, _). first \<le> i) (if x \<noteq> Null then [(b + k, x)] else []))) (enumerate 0 (slots n))))"
      unfolding gang_lookup_node.simps
      by (simp only: if_False, intro fold_take_append)
        (use gang_leaf_step [OF _ 0(5) _ len] 0(3,6) in \<open>auto simp del: of_nat_add\<close>)
    moreover have "map conv (filter (\<lambda>(i, _). first \<le> i) (entries (Suc 0) b n)) = concat (map (\<lambda>(k, x).
          map conv (filter (\<lambda>(i, _). first \<le> i) (if x \<noteq> Null then [(b + k, x)] else []))) (enumerate 0 (slots n)))"
      unfolding entries_leaf by (simp add: filter_concat map_concat comp_def case_prod_unfold)
    ultimately show ?thesis by (simp only:)
  qed (simp add: gang_stop del: gang_lookup_node.simps)
next
  case (Suc h)
  have len: "length (slots n) = 64" using Suc.prems(1) by (elim wf_nodeE) auto
  have nn: "n \<noteq> Null" using Suc.prems(1) by auto
  have h4: "h \<le> 4" using Suc.prems(4) by simp
  note sb = subtree_bounds [OF Suc.prems(2,3)]
  show ?case
  proof (cases "length found = m")
    case False
    then have f: "(n = Null \<or> length found = m) = False" using nn by simp
    show ?thesis
      unfolding gang_lookup_node.simps entries_children f if_False
    proof (rule fold_take_append)
      fix p and acc :: "(u32 \<times> 'a slot) list"
      assume p: "p \<in> set (enumerate 0 (slots n))" "length acc \<le> m"
      obtain k c where kc: "p = (k, c)" by (cases p)
      have k: "k < 64" "c = slots n ! k" using p kc by (auto simp: in_enumerate_0 len)
      have wc: "c \<noteq> Null \<Longrightarrow> wf_node (Suc h) c" using wf_child [OF Suc.prems(1) k(1)] k(2) by auto
      show "(case p of (i, child) \<Rightarrow> \<lambda>found. if m \<le> length found then found
             else let child_base = of_nat b + push_bit (Suc h * RADIX_TREE_MAP_SHIFT) (of_nat i);
                      last0 = child_base + radix_tree_maxindex (Suc h);
                      child_last = if last0 < child_base then - 1 else last0
                  in if child_last < of_nat first then found
                     else gang_lookup_node (Suc h) child_base (of_nat first) m child found) acc =
            acc @ take (m - length acc) (case p of (k, c) \<Rightarrow> map conv (filter (\<lambda>(i, _). first \<le> i)
              (if c = Null then [] else entries (Suc h) (b + k * 64 ^ Suc h) c)))"
        unfolding kc using gang_child_step [OF wc sb [OF k(1)] h4 Suc.prems(5) p(2) Suc.IH [OF wc sb [OF k(1)] h4 Suc.prems(5) p(2)]]
        by simp
    qed (rule Suc.prems(6))
  qed (simp add: gang_stop del: gang_lookup_node.simps)
qed


subsection \<open>Gang lookup\<close>

definition radix_entries :: "'v radix_tree_root \<Rightarrow> (nat \<times> 'v slot) list" where
  "radix_entries root = (if rnode root = Null then [] else entries (rt_height root) 0 (rnode root))"

text \<open>The children of the root of a tree of height 6 that 32-bit indices reach.\<close>

lemma wf_slots_length: "wf_node h n \<Longrightarrow> length (slots n) = 64"
  by (cases h) (auto simp: wf_node.simps(2))

lemma top_child:
  assumes "wf_node 6 n" "top_ok 6 n" "(k, c) \<in> set (enumerate 0 (slots n))" "c \<noteq> Null"
  shows "wf_node 5 c" "k < 4"
proof -
  have len: "length (slots n) = 64" by (rule wf_slots_length [OF assms(1)])
  then have k: "k < 64" "c = slots n ! k" using assms(3) by (simp_all add: in_enumerate_0)
  show "k < 4"
  proof (rule ccontr)
    assume "\<not> k < 4"
    then have "slots n ! k = Null" using assms(2) k(1) by (simp add: top_ok_def)
    then show False using k(2) assms(4) by simp
  qed
  have "wf_node (Suc (Suc 4)) n" using assms(1) by simp
  from wf_child [OF this k(1)] show "wf_node 5 c" using assms(4) k(2) by simp
qed

lemma top_bounds:
  assumes "k < (4 :: nat)"
  shows "(0 + k * 64 ^ Suc 4) mod 64 ^ Suc 4 = 0" "0 + k * 64 ^ Suc 4 + 64 ^ Suc 4 \<le> (2 :: nat) ^ 32"
  using assms by simp_all

lemma sub_bounds: "h \<le> 4 \<Longrightarrow> 0 + 64 ^ Suc h \<le> (2 :: nat) ^ 32"
  using power_increasing [of "Suc h" 5 "64 :: nat"] by simp

lemma gang_root_correct:
  assumes "wf_node (Suc h) n" "top_ok (Suc h) n" "h \<le> 5" "first < 2 ^ 32"
  shows "gang_lookup_node (Suc h) 0 (of_nat first) m n [] =
    take m (map conv (filter (\<lambda>(i, _). first \<le> i) (entries (Suc h) 0 n)))"
proof (cases "h \<le> 4")
  case True
  then show ?thesis
    using gang_node_correct [OF assms(1) _ sub_bounds [OF True] True assms(4), of "[]" m] by (simp del: gang_lookup_node.simps)
next
  case False
  then have h: "h = Suc 4" using assms(3) by simp
  have wf: "wf_node 6 n" "top_ok 6 n" using assms(1,2) h by simp_all
  have nn: "n \<noteq> Null" using assms(1) by auto
  show ?thesis
  proof (cases "m = 0")
    case m: False
    then have f: "(n = Null \<or> length ([] :: (u32 \<times> 'a slot) list) = m) = False" using nn by simp
    have "gang_lookup_node (Suc h) (of_nat 0) (of_nat first) m n [] =
      [] @ take (m - length ([] :: (u32 \<times> 'a slot) list)) (map conv (filter (\<lambda>(i, _). first \<le> i) (entries (Suc h) 0 n)))"
      unfolding h gang_lookup_node.simps entries_children f if_False
    proof (rule fold_take_append)
      fix p and acc :: "(u32 \<times> 'a slot) list"
      assume p: "p \<in> set (enumerate 0 (slots n))" "length acc \<le> m"
      obtain k c where kc: "p = (k, c)" by (cases p)
      have c: "wf_node (Suc 4) c" "k < 4" if "c \<noteq> Null" using top_child [OF wf] p(1) kc that by simp_all
      note sb = top_bounds [OF c(2)]
      show "(case p of (i, child) \<Rightarrow> \<lambda>found. if m \<le> length found then found
             else let child_base = of_nat 0 + push_bit (Suc 4 * RADIX_TREE_MAP_SHIFT) (of_nat i);
                      last0 = child_base + radix_tree_maxindex (Suc 4);
                      child_last = if last0 < child_base then - 1 else last0
                  in if child_last < of_nat first then found
                     else gang_lookup_node (Suc 4) child_base (of_nat first) m child found) acc =
            acc @ take (m - length acc) (case p of (k, c) \<Rightarrow> map conv (filter (\<lambda>(i, _). first \<le> i)
              (if c = Null then [] else entries (Suc 4) (0 + k * 64 ^ Suc 4) c)))"
        unfolding kc using gang_child_step [OF c(1) sb order.refl assms(4) p(2) gang_node_correct [OF c(1) sb order.refl assms(4) p(2)]]
        by simp
    qed simp
    then show ?thesis by (simp del: gang_lookup_node.simps)
  qed (simp add: gang_stop del: gang_lookup_node.simps)
qed

lemma root_entries_sorted:
  assumes "wf_node (Suc h) n" "top_ok (Suc h) n" "h \<le> 5"
  shows "sorted_wrt (<) (map fst (entries (Suc h) 0 n))"
proof (cases "h \<le> 4")
  case True
  show ?thesis by (rule entries_sorted [OF assms(1) _ sub_bounds [OF True]]) simp
next
  case False
  then have h: "h = Suc 4" using assms(3) by simp
  have wf: "wf_node 6 n" "top_ok 6 n" using assms(1,2) h by simp_all
  show ?thesis
    unfolding h entries.simps(1)
  proof (rule sorted_concat_enumerate [where B = 0 and m = "64 ^ Suc 4"])
    fix k c assume kc: "(k, c) \<in> set (enumerate 0 (slots n))"
    have c: "wf_node (Suc 4) c" "k < 4" if "c \<noteq> Null" using top_child [OF wf kc] that by simp_all
    show "sorted_wrt (<) (map fst (if c = Null then [] else entries (Suc 4) (0 + k * 64 ^ Suc 4) c))"
      using entries_sorted [OF c(1) top_bounds [OF c(2)]] by simp
    fix p assume "p \<in> set (if c = Null then [] else entries (Suc 4) (0 + k * 64 ^ Suc 4) c)"
    then show "0 + k * 64 ^ Suc 4 \<le> fst p \<and> fst p < 0 + k * 64 ^ Suc 4 + 64 ^ Suc 4"
      using entries_bounds [OF c(1) top_bounds [OF c(2)]] by (simp split: if_splits)
  qed
qed

lemma root_entries_iff:
  assumes "wf_node (Suc h) n" "top_ok (Suc h) n" "h \<le> 5"
  shows "(i, x) \<in> set (entries (Suc h) 0 n) \<longleftrightarrow>
    i < 2 ^ 32 \<and> i < 64 ^ Suc h \<and> x = lookup_walk (Suc h) (of_nat i) n \<and> x \<noteq> Null"
proof (cases "h \<le> 4")
  case True
  have "i < 64 ^ Suc h \<Longrightarrow> i < 2 ^ 32" using sub_bounds [OF True] by linarith
  then show ?thesis using entries_iff [OF assms(1) _ sub_bounds [OF True], of i x] by auto
next
  case False
  then have h: "h = Suc 4" using assms(3) by simp
  have wf: "wf_node 6 n" "top_ok 6 n" using assms(1,2) h by simp_all
  have wf': "wf_node (Suc (Suc 4)) n" using wf(1) by simp
  have len: "length (slots n) = 64" by (rule wf_slots_length [OF wf(1)])
  define m :: nat where "m = 64 ^ Suc 4"
  have m: "m = 64 ^ Suc 4" "0 < m" "2 ^ 32 = 4 * m" by (simp_all add: m_def)
  have ch: "(i, x) \<in> set (entries (Suc 4) (0 + k * m) (slots n ! k)) \<longleftrightarrow>
      k * m \<le> i \<and> i < k * m + m \<and> x = lookup_walk (Suc 4) (of_nat i) (slots n ! k) \<and> x \<noteq> Null"
    if "k < 64" "slots n ! k \<noteq> Null" for k
  proof -
    have "(k, slots n ! k) \<in> set (enumerate 0 (slots n))" using that(1) len by (simp add: in_enumerate_0)
    note c = top_child [OF wf this that(2)]
    have "wf_node (Suc 4) (slots n ! k)" using c(1) by simp
    from entries_iff [OF this top_bounds [OF c(2)]] show ?thesis unfolding m(1) by (simp only: add_0)
  qed
  have off: "radix_offset (of_nat i) (Suc (Suc 4)) = i div m" if "i < 2 ^ 32"
  proof -
    have "i div m < 64" using that m by (intro less_mult_imp_div_less) simp
    then show ?thesis using that by (simp add: radix_offset_nat unat_of_nat m_def)
  qed
  have "(i, x) \<in> set (entries (Suc h) 0 n) \<longleftrightarrow>
      (\<exists>k < 64. slots n ! k \<noteq> Null \<and> (i, x) \<in> set (entries (Suc 4) (0 + k * m) (slots n ! k)))"
    unfolding h m(1) using entries_child [of i x 4 0 n] len by (simp only:)
  also have "\<dots> \<longleftrightarrow> i < 2 ^ 32 \<and> x = lookup_walk (Suc (Suc 4)) (of_nat i) n \<and> x \<noteq> Null"
    (is "?l \<longleftrightarrow> ?r")
  proof
    assume ?l
    then obtain k where k: "k < 64" "slots n ! k \<noteq> Null" "k * m \<le> i" "i < k * m + m"
      "x = lookup_walk (Suc 4) (of_nat i) (slots n ! k)" "x \<noteq> Null" using ch by blast
    have "k < 4" using top_child [OF wf _ k(2)] k(1) len by (simp add: in_enumerate_0)
    then have "k * m + m \<le> 4 * m" using mult_le_mono1 [of "Suc k" 4 m] by simp
    then have i: "i < 2 ^ 32" using k(4) m(3) by linarith
    have "i div m = k" using k(3,4) by (intro div_nat_eqI) (simp_all add: mult.commute)
    then show ?r using i off [OF i] k lookup_Suc [OF wf'] by (simp del: lookup_walk.simps)
  next
    assume r: ?r
    define k where "k = i div m"
    have ko: "radix_offset (of_nat i) (Suc (Suc 4)) = k" using off r by (simp add: k_def)
    have k64: "k < 64" using radix_offset_lt ko by metis
    have "k * m \<le> i" "i < k * m + m"
      using div_times_less_eq_dividend [of i m] dividend_less_div_times [of m i] m(2) by (auto simp: k_def)
    moreover have "slots n ! k \<noteq> Null" "x = lookup_walk (Suc 4) (of_nat i) (slots n ! k)"
      using r lookup_Suc [OF wf', of "of_nat i"] ko by (auto simp del: lookup_walk.simps split: if_splits)
    ultimately show ?l using ch [OF k64] k64 r by blast
  qed
  also have "\<dots> \<longleftrightarrow> i < 2 ^ 32 \<and> i < 64 ^ Suc h \<and> x = lookup_walk (Suc h) (of_nat i) n \<and> x \<noteq> Null"
  proof -
    have "i < 2 ^ 32 \<Longrightarrow> i < 64 ^ Suc h" unfolding h by (erule less_le_trans) simp
    then show ?thesis unfolding h by blast
  qed
  finally show ?thesis .
qed


lemma radix_entries_iff:
  assumes "root_ok root"
  shows "(i, x) \<in> set (radix_entries root) \<longleftrightarrow> i < 2 ^ 32 \<and> x = radix_tree_lookup root (of_nat i) \<and> x \<noteq> Null"
proof (cases "rnode root = Null")
  case True
  then show ?thesis by (simp add: radix_entries_def radix_tree_lookup_def)
next
  case False
  obtain h where h: "rt_height root = Suc h" "h \<le> 5" "wf_node (Suc h) (rnode root)" "top_ok (Suc h) (rnode root)"
    using assms False by (cases "rt_height root") (auto simp: root_ok_def)
  have "i < 64 ^ Suc h \<longleftrightarrow> \<not> of_nat i > radix_tree_maxindex (Suc h)" if "i < 2 ^ 32"
  proof -
    have "unat (of_nat i :: u32) = i" using that by (simp add: unat_of_nat)
    moreover have "\<not> q - 1 < i \<longleftrightarrow> i < q" if "0 < q" for q :: nat using that by auto
    ultimately show ?thesis using that
      by (simp add: word_less_nat_alt maxindex_nat min_def del: power_Suc radix_tree_maxindex.simps)
  qed
  then show ?thesis using root_entries_iff [OF h(3,4,2), of i x] False h(1)
    by (auto simp: radix_entries_def radix_tree_lookup_def simp del: power_Suc radix_tree_maxindex.simps lookup_walk.simps)
qed

lemma radix_entries_sorted: "root_ok root \<Longrightarrow> sorted_wrt (<) (map fst (radix_entries root))"
  using root_entries_sorted [of "rt_height root - 1" "rnode root"] by (auto simp: root_ok_def radix_entries_def)

lemma gang_lookup_entries:
  assumes "root_ok root"
  shows "radix_tree_gang_lookup_slot root first m =
    take m (map conv (filter (\<lambda>(i, _). unat first \<le> i) (radix_entries root)))"
proof (cases "rnode root = Null \<or> m = 0")
  case True
  then show ?thesis by (auto simp: radix_tree_gang_lookup_slot_def radix_entries_def)
next
  case False
  obtain h where h: "rt_height root = Suc h" "h \<le> 5" "wf_node (Suc h) (rnode root)" "top_ok (Suc h) (rnode root)"
    using assms False by (cases "rt_height root") (auto simp: root_ok_def)
  have "unat first < 2 ^ 32" using unsigned_less [of first, where ?'a = nat] by simp
  from gang_root_correct [OF h(3,4,2) this, of m] show ?thesis using False h(1)
    by (simp add: radix_tree_gang_lookup_slot_def radix_entries_def del: gang_lookup_node.simps)
qed

lemma sorted_take_all:
  assumes "sorted_wrt (<) (map f xs)" "x \<in> set xs" "x \<notin> set (take m xs)"
  shows "length (take m xs) = m \<and> (\<forall>y \<in> set (take m xs). f y < (f x :: 'b :: linorder))"
proof -
  have x: "x \<in> set (drop m xs)" using assms(2,3) by (metis Un_iff append_take_drop_id set_append)
  then have "m < length xs" by (cases "m < length xs") auto
  moreover have "f y < f x" if "y \<in> set (take m xs)" for y
  proof -
    have "sorted_wrt (<) (map f (take m xs) @ map f (drop m xs))" using assms(1) by (metis append_take_drop_id map_append)
    then show ?thesis using that x by (auto simp: sorted_wrt_append)
  qed
  ultimately show ?thesis by simp
qed


lemma conv_filter_sorted:
  assumes "root_ok root"
  shows "sorted_wrt (<) (map fst (map conv (filter P (radix_entries root))))"
proof -
  have "sorted_wrt (\<lambda>p q. fst p < fst q) (filter P (radix_entries root))"
    using radix_entries_sorted [OF assms] by (intro sorted_wrt_filter) (simp add: sorted_wrt_map)
  then have "sorted_wrt (\<lambda>p q. fst (conv p) < fst (conv q)) (filter P (radix_entries root))"
  proof (rule sorted_wrt_mono_rel [rotated])
    fix p q assume pq: "p \<in> set (filter P (radix_entries root))" "q \<in> set (filter P (radix_entries root))" "fst p < fst q"
    have "fst p < 2 ^ 32" "fst q < 2 ^ 32"
      using pq(1,2) radix_entries_iff [OF assms, of "fst p" "snd p"] radix_entries_iff [OF assms, of "fst q" "snd q"] by auto
    then show "fst (conv p) < fst (conv q)" using pq(3) by (simp add: conv_def word_less_nat_alt unat_of_nat)
  qed
  then show ?thesis by (simp add: sorted_wrt_map comp_def)
qed

lemma in_conv_filter:
  assumes "root_ok root"
  shows "(i, x) \<in> set (map conv (filter (\<lambda>(j, _). unat first \<le> j) (radix_entries root))) \<longleftrightarrow>
    first \<le> i \<and> radix_tree_lookup root i = x \<and> x \<noteq> Null"
proof
  assume "(i, x) \<in> set (map conv (filter (\<lambda>(j, _). unat first \<le> j) (radix_entries root)))"
  then obtain j where j: "i = of_nat j" "(j, x) \<in> set (radix_entries root)" "unat first \<le> j" by (auto simp: conv_def)
  then show "first \<le> i \<and> radix_tree_lookup root i = x \<and> x \<noteq> Null"
    using radix_entries_iff [OF assms, of j x] by (auto simp: word_le_nat_alt unat_of_nat)
next
  assume r: "first \<le> i \<and> radix_tree_lookup root i = x \<and> x \<noteq> Null"
  have "unat i < 2 ^ 32" using unsigned_less [of i, where ?'a = nat] by simp
  then have "(unat i, x) \<in> set (radix_entries root)" using radix_entries_iff [OF assms, of "unat i" x] r by simp
  then have "(unat i, x) \<in> set (filter (\<lambda>(j, _). unat first \<le> j) (radix_entries root))" using r by (simp add: word_le_nat_alt)
  then have "conv (unat i, x) \<in> set (map conv (filter (\<lambda>(j, _). unat first \<le> j) (radix_entries root)))" by force
  then show "(i, x) \<in> set (map conv (filter (\<lambda>(j, _). unat first \<le> j) (radix_entries root)))" by (simp add: conv_def)
qed

text \<open>
  C15: \<open>radix_tree_gang_lookup_slot\<close> returns at most \<open>max_items\<close> entries, in strictly increasing order of
  their indices; each is an entry of the tree at an index from \<open>first_index\<close> on.  An entry from
  \<open>first_index\<close> on is missing only if the result is full and all returned indices are smaller.
\<close>

theorem gang_lookup_spec:
  assumes "root_ok root" "radix_tree_gang_lookup_slot root first max_items = found"
  shows "length found \<le> max_items \<and> sorted_wrt (<) (map fst found) \<and>
    (\<forall>(i, x) \<in> set found. first \<le> i \<and> radix_tree_lookup root i = x \<and> x \<noteq> Null) \<and>
    (\<forall>i. first \<le> i \<and> radix_tree_lookup root i \<noteq> Null \<longrightarrow>
       (i, radix_tree_lookup root i) \<in> set found \<or> length found = max_items \<and> (\<forall>(j, y) \<in> set found. j < i))"
proof (intro conjI)
  define L where "L = map conv (filter (\<lambda>(j, _). unat first \<le> j) (radix_entries root))"
  have f: "found = take max_items L" using gang_lookup_entries [OF assms(1)] assms(2) by (simp add: L_def)
  have s: "sorted_wrt (<) (map fst L)" unfolding L_def by (rule conv_filter_sorted [OF assms(1)])
  note L = in_conv_filter [OF assms(1), of _ _ first, folded L_def]
  show "length found \<le> max_items" by (simp add: f)
  show "sorted_wrt (<) (map fst found)" using s by (simp add: f sorted_wrt_map sorted_wrt_take)
  show "\<forall>(i, x) \<in> set found. first \<le> i \<and> radix_tree_lookup root i = x \<and> x \<noteq> Null"
    using L f in_set_takeD by fast
  show "\<forall>i. first \<le> i \<and> radix_tree_lookup root i \<noteq> Null \<longrightarrow>
      (i, radix_tree_lookup root i) \<in> set found \<or> length found = max_items \<and> (\<forall>(j, y) \<in> set found. j < i)"
    using sorted_take_all [OF s, of "(_, radix_tree_lookup root _)" max_items] L f by fastforce
qed

theorem gang_lookup_spec_witness:
  "root_ok demo_root \<and> radix_tree_gang_lookup_slot demo_root 3 2 = [(5, Item 7)] \<and>
   radix_tree_lookup demo_root 5 = Item 7 \<and> length [(5 :: u32, Item (7 :: nat))] \<le> 2"
proof -
  have "radix_tree_gang_lookup_slot demo_root 3 2 = [(5, Item 7)]" by code_simp
  from gang_lookup_spec [OF demo_root_ok this] this demo_root_ok show ?thesis by simp
qed

end
