(* ===== verification/Idr.thy ===== *)
theory Idr
  imports Radix_Tree
begin

text \<open>
  The id allocator \<open>lib/idr.c\<close> on top of the radix tree.  Ids are C ints, here integers, and an id
  is turned into an index by the cast to \<open>unsigned long\<close>; a pointer argument is a slot
  value, NULL being \<open>Null\<close>.  A \<open>struct idr *\<close> is the record it points to, so
  the guards for a NULL structure have no counterpart.
\<close>

definition INT_MAX :: int where "INT_MAX = 2147483647"

record 'v idr =
  root :: "'v radix_tree_root"
  cur :: int

definition idr_init :: "'v idr" where
  "idr_init = \<lparr>root = init_radix_tree 0, cur = 0\<rparr>"

text \<open>The loop of \<open>idr_alloc\<close> from \<open>id\<close> on.\<close>

function idr_scan :: "int \<Rightarrow> int \<Rightarrow> 'v slot \<Rightarrow> 'v idr \<Rightarrow> outcomes \<Rightarrow> int \<times> 'v idr \<times> outcomes" where
  "idr_scan i end ptr idp oc =
     (if i < end then
        if radix_tree_lookup (root idp) (word_of_int i) = Null then
          case radix_tree_insert (root idp) (word_of_int i) ptr oc of
            (r, root', oc') \<Rightarrow>
              if r \<noteq> 0 then (- ENOMEM, idp\<lparr>root := root'\<rparr>, oc')
              else (i, idp\<lparr>root := root', cur := i + 1\<rparr>, oc')
        else idr_scan (i + 1) end ptr idp oc
      else (- ENOSPC, idp, oc))"
  by auto
termination
  by (relation "measure (\<lambda>(i, end, _). nat (end - i))") auto

declare idr_scan.simps [simp del]

definition idr_alloc :: "'v idr \<Rightarrow> 'v slot \<Rightarrow> int \<Rightarrow> int \<Rightarrow> u32 \<Rightarrow> outcomes \<Rightarrow> int \<times> 'v idr \<times> outcomes" where
  "idr_alloc idp ptr start end gfp_mask oc =
     (if start < 0 then (- EINVAL, idp, oc)
      else
        let end' = (if end \<le> 0 then INT_MAX else end)
        in if start \<ge> end' then (- EINVAL, idp, oc)
           else idr_scan start end' ptr (idp\<lparr>root := (root idp)\<lparr>rt_gfp_mask := gfp_mask\<rparr>\<rparr>) oc)"

definition idr_alloc_cyclic :: "'v idr \<Rightarrow> 'v slot \<Rightarrow> int \<Rightarrow> int \<Rightarrow> u32 \<Rightarrow> outcomes \<Rightarrow> int \<times> 'v idr \<times> outcomes" where
  "idr_alloc_cyclic idp ptr start end gfp_mask oc =
     (let nxt = (if cur idp > start then cur idp else start)
      in case idr_alloc idp ptr nxt end gfp_mask oc of
           (i, idp1, oc1) \<Rightarrow>
             case (if i = - ENOSPC then idr_alloc idp1 ptr start end gfp_mask oc1 else (i, idp1, oc1)) of
               (i', idp2, oc2) \<Rightarrow> (i', if i' \<ge> 0 then idp2\<lparr>cur := i' + 1\<rparr> else idp2, oc2))"

text \<open>The functions that store the id through a pointer return it as the second component.\<close>

definition idr_get_new_above :: "'v idr \<Rightarrow> 'v slot \<Rightarrow> int \<Rightarrow> outcomes \<Rightarrow> int \<times> int option \<times> 'v idr \<times> outcomes" where
  "idr_get_new_above idp ptr starting_id oc =
     (case idr_alloc idp ptr (if starting_id < 0 then 0 else starting_id) 0 0 oc of
        (ret, idp', oc') \<Rightarrow> if ret < 0 then (ret, None, idp', oc') else (0, Some ret, idp', oc'))"

definition idr_get_new :: "'v idr \<Rightarrow> 'v slot \<Rightarrow> outcomes \<Rightarrow> int \<times> int option \<times> 'v idr \<times> outcomes" where
  "idr_get_new idp ptr oc =
     (case idr_alloc idp ptr (cur idp) 0 0 oc of
        (ret, idp1, oc1) \<Rightarrow>
          case (if ret < 0 \<and> cur idp1 > 0 then idr_alloc idp1 ptr 0 (cur idp1) 0 oc1 else (ret, idp1, oc1)) of
            (ret', idp2, oc2) \<Rightarrow> if ret' < 0 then (ret', None, idp2, oc2) else (0, Some ret', idp2, oc2))"

definition idr_find :: "'v idr \<Rightarrow> int \<Rightarrow> 'v slot" where
  "idr_find idp i = (if i < 0 then Null else radix_tree_lookup (root idp) (word_of_int i))"

text \<open>
  \<open>idr_get_next_node\<close> returns the id and the pointer.  The loop state is None while the loop goes on
  and Some of the returned value once it has returned.
\<close>

fun idr_get_next_node :: "nat \<Rightarrow> u32 \<Rightarrow> u32 \<Rightarrow> 'v slot \<Rightarrow> (int \<times> 'v slot) option" where
  "idr_get_next_node (Suc (Suc h)) base start node =
     (if node = Null then None
      else case fold (\<lambda>(offset, child) st.
               case st of Some r \<Rightarrow> Some r
               | None \<Rightarrow>
                   let span = push_bit (Suc h * RADIX_TREE_MAP_SHIFT) 1;
                       child_base = base + of_nat offset * span
                   in if child_base + span - 1 < start then None
                      else if uint child_base > INT_MAX then Some None
                      else if child = Null then None
                      else case idr_get_next_node (Suc h) child_base start child of
                             None \<Rightarrow> None | Some r \<Rightarrow> Some (Some r))
             (enumerate 0 (slots node)) None of
             None \<Rightarrow> None | Some r \<Rightarrow> r)"
| "idr_get_next_node _ base start node =
     (if node = Null then None
      else let first = (if start > base then unat (start - base) else 0)
           in case fold (\<lambda>(offset, item) st.
                  case st of Some r \<Rightarrow> Some r
                  | None \<Rightarrow>
                      let i = base + of_nat offset
                      in if offset < first then None
                         else if uint i > INT_MAX then Some None
                         else if item = Null then None
                         else Some (Some (uint i, item)))
                (enumerate 0 (slots node)) None of
                None \<Rightarrow> None | Some r \<Rightarrow> r)"

definition idr_get_next :: "'v idr \<Rightarrow> int \<Rightarrow> (int \<times> 'v slot) option" where
  "idr_get_next idp nextid =
     (if nextid < 0 then None
      else idr_get_next_node (rt_height (root idp)) 0 (word_of_int nextid) (rnode (root idp)))"

text \<open>
  \<open>idr_for_each\<close> calls \<open>fn\<close> on the entries in turn; \<open>fn\<close> works on a state of its own and returns a
  code, and the loop ends at the first code other than zero.
\<close>

partial_function (option) idr_for_each_loop :: "(int \<Rightarrow> 'v slot \<Rightarrow> 's \<Rightarrow> int \<times> 's) \<Rightarrow> 'v idr \<Rightarrow> int \<Rightarrow> 's \<Rightarrow> (int \<times> 's) option" where
  "idr_for_each_loop fn idp i s =
     (case idr_get_next idp i of
        None \<Rightarrow> Some (0, s)
      | Some (i', ptr) \<Rightarrow>
          (case fn i' ptr s of
             (ret, s') \<Rightarrow>
               if ret \<noteq> 0 then Some (ret, s')
               else if i' = INT_MAX then Some (0, s')
               else idr_for_each_loop fn idp (i' + 1) s'))"

definition idr_for_each :: "(int \<Rightarrow> 'v slot \<Rightarrow> 's \<Rightarrow> int \<times> 's) \<Rightarrow> 'v idr \<Rightarrow> 's \<Rightarrow> (int \<times> 's) option" where
  "idr_for_each fn idp s = idr_for_each_loop fn idp 0 s"

text \<open>\<open>idr_replace\<close> returns an error or the old pointer.\<close>

definition idr_replace :: "'v idr \<Rightarrow> 'v slot \<Rightarrow> int \<Rightarrow> (int + 'v slot) \<times> 'v idr" where
  "idr_replace idp ptr i =
     (if i < 0 then (Inl (- EINVAL), idp)
      else let old = radix_tree_lookup (root idp) (word_of_int i)
           in if old = Null then (Inl (- ENOENT), idp)
              else (Inr old, idp\<lparr>root := (root idp)\<lparr>rnode :=
                     replace_walk (rt_height (root idp)) (word_of_int i) ptr (rnode (root idp))\<rparr>\<rparr>))"

definition idr_remove :: "'v idr \<Rightarrow> int \<Rightarrow> 'v idr" where
  "idr_remove idp i =
     (if i < 0 then idp
      else case radix_tree_delete (root idp) (word_of_int i) of
             (item, root') \<Rightarrow>
               if item \<noteq> Null \<and> i < cur idp then idp\<lparr>root := root', cur := i\<rparr> else idp\<lparr>root := root'\<rparr>)"

definition idr_destroy :: "'v idr \<Rightarrow> 'v idr" where
  "idr_destroy idp = idp\<lparr>root := radix_tree_destroy (root idp), cur := 0\<rparr>"

definition idr_is_empty :: "'v idr \<Rightarrow> bool" where
  "idr_is_empty idp \<longleftrightarrow> rnode (root idp) = Null"

subsection \<open>Allocation\<close>

definition idr_ok :: "'v idr \<Rightarrow> bool" where
  "idr_ok idp \<longleftrightarrow> root_ok (root idp)"

text \<open>The pointers an id allocator holds, as a partial map on the ids.\<close>

definition idr_map :: "'v idr \<Rightarrow> int \<Rightarrow> 'v option" where
  "idr_map idp i = (if 0 \<le> i \<and> i \<le> INT_MAX then radix_map (root idp) (word_of_int i) else None)"

lemma word_of_int_inj:
  "0 \<le> i \<Longrightarrow> i \<le> INT_MAX \<Longrightarrow> 0 \<le> j \<Longrightarrow> j \<le> INT_MAX \<Longrightarrow> (word_of_int i :: u32) = word_of_int j \<longleftrightarrow> i = j"
  by (simp add: word_uint_eq_iff uint_word_of_int INT_MAX_def)

lemma root_ok_gfp [simp]: "root_ok (r\<lparr>rt_gfp_mask := m\<rparr>) = root_ok r"
  by (simp add: root_ok_def)

lemma lookup_gfp [simp]: "radix_tree_lookup (r\<lparr>rt_gfp_mask := m\<rparr>) = radix_tree_lookup r"
  by (simp add: radix_tree_lookup_def fun_eq_iff)

lemma radix_map_gfp [simp]: "radix_map (r\<lparr>rt_gfp_mask := m\<rparr>) = radix_map r"
  by (simp add: radix_map_def fun_eq_iff)

text \<open>What a call that starts its search at \<open>start\<close> may return.\<close>

definition idr_taken :: "'v idr \<Rightarrow> int \<Rightarrow> int \<Rightarrow> bool" where
  "idr_taken idp a b \<longleftrightarrow> (\<forall>j. a \<le> j \<and> j < b \<longrightarrow> idr_map idp j \<noteq> None)"

definition idr_alloc_result :: "'v idr \<Rightarrow> int \<Rightarrow> int \<Rightarrow> 'v \<Rightarrow> int \<Rightarrow> 'v idr \<Rightarrow> bool" where
  "idr_alloc_result idp start end v r idp' \<longleftrightarrow> idr_ok idp' \<and>
     (start \<le> r \<and> r < end \<and> idr_taken idp start r \<and> idr_map idp r = None \<and>
        idr_map idp' = (idr_map idp)(r \<mapsto> v) \<and> cur idp' = r + 1 \<or>
      r = - ENOSPC \<and> idr_taken idp start end \<and> idr_map idp' = idr_map idp \<and> cur idp' = cur idp \<or>
      r = - ENOMEM \<and> \<not> idr_taken idp start end \<and> idr_map idp' = idr_map idp \<and> cur idp' = cur idp)"

lemma idr_map_insert:
  assumes "radix_map root' = (radix_map (root idp))(word_of_int i \<mapsto> v)" "0 \<le> i" "i \<le> INT_MAX"
  shows "idr_map (idp\<lparr>root := root', cur := c\<rparr>) = (idr_map idp)(i \<mapsto> v)"
  using assms by (auto simp: idr_map_def fun_eq_iff word_of_int_inj)

lemma idr_map_cong: "radix_map (root a) = radix_map (root b) \<Longrightarrow> idr_map a = idr_map b"
  by (simp add: idr_map_def fun_eq_iff)

lemma idr_scan_correct:
  assumes "idr_ok idp" "0 \<le> i" "end \<le> INT_MAX" "idr_scan i end (Item v) idp oc = (r, idp', oc')"
  shows "idr_alloc_result idp i end v r idp'"
  using assms
proof (induction "nat (end - i)" arbitrary: i rule: less_induct)
  case less
  show ?case
  proof (cases "i < end")
    case False
    then show ?thesis using less.prems by (auto simp: idr_scan.simps idr_alloc_result_def idr_taken_def)
  next
    case i: True
    have ok: "root_ok (root idp)" using less.prems(1) by (simp add: idr_ok_def)
    show ?thesis
    proof (cases "radix_tree_lookup (root idp) (word_of_int i) = Null")
      case True
      obtain q root' oc1 where ins: "radix_tree_insert (root idp) (word_of_int i) (Item v) oc = (q, root', oc1)"
        by (metis surj_pair)
      have free: "idr_map idp i = None" using True by (simp add: idr_map_def radix_map_def)
      then have nt: "\<not> idr_taken idp i end" using i by (auto simp: idr_taken_def)
      have "radix_map (root idp) (word_of_int i) = None" using True by (simp add: radix_map_def)
      from ok this ins show ?thesis
      proof (cases rule: radix.ins_free)
        case 1
        have "idr_map idp' = (idr_map idp)(i \<mapsto> v)"
          using less.prems i True ins 1 idr_map_insert [OF 1(3)] by (auto simp: idr_scan.simps)
        then show ?thesis using less.prems i True ins 1 free
          by (auto simp: idr_scan.simps idr_alloc_result_def idr_ok_def idr_taken_def)
      next
        case 2
        have "idr_map idp' = idr_map idp"
          using less.prems i True ins 2 by (auto simp: idr_scan.simps errno_defs intro!: idr_map_cong)
        then show ?thesis using less.prems i True ins 2 nt
          by (auto simp: idr_scan.simps idr_alloc_result_def idr_ok_def errno_defs)
      qed
    next
      case False
      then have rec: "idr_scan (i + 1) end (Item v) idp oc = (r, idp', oc')"
        using less.prems(4) i by (simp add: idr_scan.simps [of i])
      have t: "idr_map idp i \<noteq> None" using False less.prems(2,3) i ok by (simp add: idr_map_def radix_map_None)
      have tk: "idr_taken idp i b \<longleftrightarrow> idr_taken idp (i + 1) b" for b
      proof -
        have "i \<le> j \<longleftrightarrow> j = i \<or> i + 1 \<le> j" for j by auto
        then show ?thesis using t unfolding idr_taken_def by metis
      qed
      have "idr_alloc_result idp (i + 1) end v r idp'"
        by (rule less.hyps [OF _ less.prems(1) _ less.prems(3) rec]) (use i less.prems(2) in auto)
      then show ?thesis using tk [of r] tk [of "end"] unfolding idr_alloc_result_def by auto
    qed
  qed
qed


lemma idr_alloc_correct:
  assumes "idr_ok idp" "0 \<le> start" "start < (if end \<le> 0 then INT_MAX else end)" "end \<le> INT_MAX"
    "idr_alloc idp (Item v) start end gfp_mask oc = (r, idp', oc')"
  shows "idr_alloc_result idp start (if end \<le> 0 then INT_MAX else end) v r idp'"
proof -
  let ?last = "if end \<le> 0 then INT_MAX else end"
  let ?idp = "idp\<lparr>root := (root idp)\<lparr>rt_gfp_mask := gfp_mask\<rparr>\<rparr>"
  have "idr_map ?idp = idr_map idp" by (simp add: idr_map_def fun_eq_iff)
  moreover have "idr_alloc_result ?idp start ?last v r idp'"
  proof (rule idr_scan_correct)
    show "idr_scan start ?last (Item v) ?idp oc = (r, idp', oc')"
      using assms(2,3,5) by (simp add: idr_alloc_def Let_def split: if_splits)
  qed (use assms in \<open>auto simp: idr_ok_def\<close>)
  ultimately show ?thesis by (simp add: idr_alloc_result_def idr_taken_def)
qed

lemma idr_find_map: "idr_ok idp \<Longrightarrow> 0 \<le> i \<Longrightarrow> i \<le> INT_MAX \<Longrightarrow> idr_find idp i = item_slot (idr_map idp i)"
  using radix_lookup_item [of "root idp" "word_of_int i"]
  by (auto simp: idr_find_def idr_map_def idr_ok_def radix_map_def)

lemma idr_remove_correct:
  assumes "idr_ok idp" "0 \<le> i" "i \<le> INT_MAX"
  shows "idr_ok (idr_remove idp i)" "idr_map (idr_remove idp i) = (idr_map idp)(i := None)"
    "cur (idr_remove idp i) = (if idr_map idp i \<noteq> None \<and> i < cur idp then i else cur idp)"
proof -
  obtain p root' where d: "radix_tree_delete (root idp) (word_of_int i) = (p, root')" by (metis surj_pair)
  note l = radix.del_law [OF assms(1) [unfolded idr_ok_def] d]
  have r: "root (idr_remove idp i) = root'" using assms(2) d by (simp add: idr_remove_def)
  show "idr_ok (idr_remove idp i)" using l r by (simp add: idr_ok_def)
  show "idr_map (idr_remove idp i) = (idr_map idp)(i := None)"
    using l assms(2,3) by (auto simp: idr_map_def fun_eq_iff r word_of_int_inj)
  show "cur (idr_remove idp i) = (if idr_map idp i \<noteq> None \<and> i < cur idp then i else cur idp)"
    using l assms(2,3) d by (cases "radix_map (root idp) (word_of_int i)") (auto simp: idr_remove_def idr_map_def)
qed


subsection \<open>Iteration\<close>

text \<open>
  A loop that returns at the first hit; a step may also end the loop without a hit, which is harmless when
  no later element would hit.
\<close>

lemma fold_first_hit:
  assumes "\<And>x r. step x (Some r) = Some r"
    "\<And>x. x \<in> set L \<Longrightarrow> step x None = (if stop x then Some None else case E x of [] \<Rightarrow> None | e # _ \<Rightarrow> Some (Some e))"
    "\<And>x. x \<in> set L \<Longrightarrow> stop x \<Longrightarrow> E x = []" "sorted_wrt (\<lambda>x y. stop x \<longrightarrow> E y = []) L"
  shows "(case fold step L None of None \<Rightarrow> None | Some r \<Rightarrow> r) = (case concat (map E L) of [] \<Rightarrow> None | e # _ \<Rightarrow> Some e)"
proof -
  have stay: "fold step L (Some r) = Some r" for L r by (induction L) (simp_all add: assms(1))
  from assms(2-) show ?thesis
  proof (induction L)
    case (Cons x L)
    show ?case
    proof (cases "stop x")
      case True
      have e: "concat (map E (x # L)) = []" using Cons.prems True by auto
      have "fold step (x # L) None = Some None" using True Cons.prems(1) [of x] by (simp add: stay)
      then show ?thesis unfolding e by simp
    next
      case False
      then show ?thesis using Cons by (cases "E x") (auto simp: stay)
    qed
  qed simp
qed

text \<open>The entries from \<open>start\<close> on whose index is an int, and the first of them.\<close>

definition id_entries :: "nat \<Rightarrow> (nat \<times> 'v slot) list \<Rightarrow> (int \<times> 'v slot) list" where
  "id_entries start L = map (\<lambda>(i, x). (int i, x)) (filter (\<lambda>(i, x). start \<le> i \<and> int i \<le> INT_MAX) L)"

definition first_entry :: "'a list \<Rightarrow> 'a option" where
  "first_entry L = (case L of [] \<Rightarrow> None | e # _ \<Rightarrow> Some e)"

lemma id_entries_concat: "id_entries s (concat (map g L)) = concat (map (\<lambda>x. id_entries s (g x)) L)"
  by (induction L) (simp_all add: id_entries_def)

lemma sorted_wrt_enumerate:
  "sorted_wrt (\<lambda>x y. fst x < fst y \<and> x \<in> set (enumerate s L) \<and> y \<in> set (enumerate s L)) (enumerate s L)"
proof -
  have "sorted_wrt (\<lambda>x y. fst x < fst y) (enumerate s L)"
    by (rule iffD1 [OF sorted_wrt_map]) (simp add: map_fst_enumerate)
  then show ?thesis by (rule sorted_wrt_mono_rel [rotated]) auto
qed

lemma next_leaf:
  assumes "wf_node (Suc 0) n" "b + 64 \<le> 2 ^ 32" "start < 2 ^ 32"
  shows "idr_get_next_node (Suc 0) (of_nat b) (of_nat start) n = first_entry (id_entries start (entries (Suc 0) b n))"
proof -
  have len: "length (slots n) = 64" by (rule wf_slots_length [OF assms(1)])
  have nn: "(n = Null) = False" using assms(1) by auto
  define E :: "nat \<times> 'a slot \<Rightarrow> (int \<times> 'a slot) list" where
    "E = (\<lambda>(k, x). id_entries start (if x \<noteq> Null then [(b + k, x)] else []))"
  define stop where "stop = (\<lambda>(k, x :: 'a slot). start \<le> b + k \<and> INT_MAX < int (b + k))"
  have e: "id_entries start (entries (Suc 0) b n) = concat (map E (enumerate 0 (slots n)))"
    unfolding entries_leaf id_entries_concat by (simp add: E_def case_prod_unfold)
  have us: "unat (of_nat start :: u32) = start" "unat (of_nat b :: u32) = b"
    using assms(2,3) by (simp_all add: unat_of_nat)
  have f: "(if (of_nat start :: u32) > of_nat b then unat (of_nat start - of_nat b :: u32) else 0) = start - b"
    using us by (simp add: word_less_nat_alt unat_sub word_le_nat_alt)
  show ?thesis
    unfolding idr_get_next_node.simps e first_entry_def nn if_False Let_def f
  proof (rule fold_first_hit [where stop = stop])
    fix p assume "p \<in> set (enumerate 0 (slots n))"
    then obtain k x where p: "p = (k, x)" "k < 64" using len by (metis in_enumerate_0 surj_pair)
    have u: "uint (of_nat b + of_nat k :: u32) = int (b + k)"
      using p(2) assms(2) by (simp add: uint_nat unat_word_ariths unat_of_nat)
    have "k < start - b \<longleftrightarrow> \<not> start \<le> b + k" by auto
    then show "(case p of (offset, item) \<Rightarrow> \<lambda>st. case st of
          None \<Rightarrow> if offset < start - b then None
            else if INT_MAX < uint (of_nat b + of_nat offset :: u32) then Some None
            else if item = Null then None else Some (Some (uint (of_nat b + of_nat offset :: u32), item))
          | Some r \<Rightarrow> Some r) None =
        (if stop p then Some None else case E p of [] \<Rightarrow> None | e # _ \<Rightarrow> Some (Some e))"
      unfolding p prod.case u by (auto simp: stop_def E_def id_entries_def)
    show "stop p \<Longrightarrow> E p = []" by (auto simp: stop_def E_def id_entries_def split: prod.splits)
  next
    show "sorted_wrt (\<lambda>x y. stop x \<longrightarrow> E y = []) (enumerate 0 (slots n))"
      using sorted_wrt_enumerate by (rule sorted_wrt_mono_rel [rotated])
        (auto simp: stop_def E_def id_entries_def split: prod.splits)
  qed (auto split: prod.splits)
qed


lemma id_entries_skip:
  assumes "wf_node (Suc h) c" "b mod 64 ^ Suc h = 0" "b + 64 ^ Suc h \<le> 2 ^ 32" "b + (64 ^ Suc h - 1) < start \<or> INT_MAX < int b"
  shows "id_entries start (entries (Suc h) b c) = []"
proof -
  have "\<not> (start \<le> fst q \<and> int (fst q) \<le> INT_MAX)" if "q \<in> set (entries (Suc h) b c)" for q
    using entries_bounds [OF assms(1-3) that] assms(4) by linarith
  then show ?thesis by (auto simp: id_entries_def filter_empty_conv)
qed

text \<open>The loop over the children of an inner node.\<close>

lemma next_children:
  assumes ch: "\<And>k c. (k, c) \<in> set (enumerate 0 (slots n)) \<Longrightarrow> c \<noteq> Null \<Longrightarrow> wf_node (Suc h) c \<and>
      (b + k * 64 ^ Suc h) mod 64 ^ Suc h = 0 \<and> b + k * 64 ^ Suc h + 64 ^ Suc h \<le> 2 ^ 32 \<and>
      idr_get_next_node (Suc h) (of_nat (b + k * 64 ^ Suc h)) (of_nat start) c =
        first_entry (id_entries start (entries (Suc h) (b + k * 64 ^ Suc h) c))"
    and "n \<noteq> Null" "h \<le> 4" "start < 2 ^ 32"
  shows "idr_get_next_node (Suc (Suc h)) (of_nat b) (of_nat start) n = first_entry (id_entries start (entries (Suc (Suc h)) b n))"
proof -
  define m :: nat where "m = 64 ^ Suc h"
  define base :: "nat \<Rightarrow> u32" where "base = (\<lambda>k. of_nat b + of_nat k * push_bit (Suc h * RADIX_TREE_MAP_SHIFT) 1)"
  define lst :: "nat \<Rightarrow> u32" where "lst = (\<lambda>k. base k + push_bit (Suc h * RADIX_TREE_MAP_SHIFT) 1 - 1)"
  define E :: "nat \<times> 'a slot \<Rightarrow> (int \<times> 'a slot) list"
    where "E = (\<lambda>(k, c). id_entries start (if c = Null then [] else entries (Suc h) (b + k * m) c))"
  define stop where "stop = (\<lambda>(k, c :: 'a slot). \<not> lst k < of_nat start \<and> INT_MAX < uint (base k))"
  have "2 ^ (Suc h * 6) = (64 :: u32) ^ Suc h"
    using power_mult [of "2 :: u32" 6 "Suc h"] by (simp add: mult.commute del: power_Suc)
  then have span: "push_bit (Suc h * RADIX_TREE_MAP_SHIFT) 1 = (of_nat m :: u32)"
    by (simp add: push_bit_eq_mult RADIX_TREE_MAP_SHIFT_def m_def del: power_Suc)
  have base: "base k = of_nat (b + k * m)" for k unfolding base_def span by simp
  have m: "0 < m" by (simp add: m_def)
  have lst: "unat (lst k) = b + k * m + (m - 1)" "unat (base k) = b + k * m" if "b + k * m + m \<le> 2 ^ 32" for k
  proof -
    have sm: "unat (of_nat x :: u32) = x" if "x < 2 ^ 32" for x using that by (simp add: unat_of_nat)
    have l: "lst k = of_nat (b + k * m + (m - 1))" unfolding lst_def base span using m by (simp add: of_nat_diff)
    show "unat (lst k) = b + k * m + (m - 1)" unfolding l by (rule sm) (use that m in linarith)
    show "unat (base k) = b + k * m" using that m unfolding base by (simp add: unat_of_nat del: of_nat_add)
  qed
  have us: "unat (of_nat start :: u32) = start" using assms(4) by (simp add: unat_of_nat)
  have e: "id_entries start (entries (Suc (Suc h)) b n) = concat (map E (enumerate 0 (slots n)))"
    unfolding entries.simps(1) id_entries_concat E_def m_def by (simp add: case_prod_unfold)
  have nn: "(n = Null) = False" using assms(2) by simp
  have c: "wf_node (Suc h) c" "b + k * m + m \<le> 2 ^ 32"
      "idr_get_next_node (Suc h) (base k) (of_nat start) c = first_entry (E (k, c))"
      "lst k < of_nat start \<or> INT_MAX < int (b + k * m) \<Longrightarrow> E (k, c) = []"
    if "(k, c) \<in> set (enumerate 0 (slots n))" "c \<noteq> Null" for k c
  proof -
    note r = ch [OF that, folded m_def]
    then show "wf_node (Suc h) c" "b + k * m + m \<le> 2 ^ 32"
      "idr_get_next_node (Suc h) (base k) (of_nat start) c = first_entry (E (k, c))"
      using that(2) by (simp_all add: E_def base del: of_nat_add)
    assume "lst k < of_nat start \<or> INT_MAX < int (b + k * m)"
    then show "E (k, c) = []" using id_entries_skip [of h c "b + k * m" start, folded m_def] r lst(1) [of k] that(2)
      by (simp add: E_def word_less_nat_alt us)
  qed
  have bl: "of_nat b + of_nat k * push_bit (Suc h * RADIX_TREE_MAP_SHIFT) 1 = base k"
    "base k + push_bit (Suc h * RADIX_TREE_MAP_SHIFT) 1 - 1 = lst k" for k by (simp_all add: base_def lst_def)
  show ?thesis
    unfolding idr_get_next_node.simps(1) e first_entry_def nn if_False Let_def bl
  proof (rule fold_first_hit [where stop = stop])
    fix p assume pin: "p \<in> set (enumerate 0 (slots n))"
    obtain k c where p: "p = (k, c)" by (cases p)
    have ub: "uint (base k) = int (b + k * m)" if "c \<noteq> Null"
      using lst(2) [OF c(2) [OF pin [unfolded p] that]] by (simp only: uint_nat)
    show "stop p \<Longrightarrow> E p = []"
      using c(4) [of k c] pin ub unfolding p by (cases "c = Null") (auto simp: stop_def E_def id_entries_def)
    show "(case p of (offset, child) \<Rightarrow> \<lambda>st. case st of
          None \<Rightarrow> if lst offset < of_nat start then None
            else if INT_MAX < uint (base offset) then Some None
            else if child = Null then None
            else case idr_get_next_node (Suc h) (base offset) (of_nat start) child of None \<Rightarrow> None | Some r \<Rightarrow> Some (Some r)
          | Some r \<Rightarrow> Some r) None =
        (if stop p then Some None else case E p of [] \<Rightarrow> None | e # _ \<Rightarrow> Some (Some e))"
    proof (cases "c = Null")
      case True
      then show ?thesis unfolding p by (auto simp: stop_def E_def id_entries_def)
    next
      case False
      then show ?thesis using c(3,4) [of k c] pin unfolding p
        by (auto simp: stop_def first_entry_def split: list.splits)
    qed
  next
    show "sorted_wrt (\<lambda>x y. stop x \<longrightarrow> E y = []) (enumerate 0 (slots n))"
    proof (rule sorted_wrt_mono_rel [OF _ sorted_wrt_enumerate], clarify)
      fix k c k' c' assume a: "fst (k, c) < fst (k', c')" "(k', c') \<in> set (enumerate 0 (slots n))" "stop (k, c)"
      show "E (k', c') = []"
      proof (cases "c' = Null")
        case False
        have kk: "k * m \<le> k' * m" using a(1) by simp
        then have "b + k * m + m \<le> 2 ^ 32" using c(2) [OF a(2) False] by linarith
        from lst(2) [OF this] have "uint (base k) = int (b + k * m)" by (simp only: uint_nat)
        then have "INT_MAX < int (b + k * m)" using a(3) by (simp add: stop_def)
        then have "INT_MAX < int (b + k' * m)" using kk by linarith
        then show ?thesis using c(4) [OF a(2) False] by blast
      qed (simp add: E_def id_entries_def)
    qed
  qed (auto split: prod.splits)
qed


lemma next_node_correct:
  assumes "wf_node (Suc h) n" "b mod 64 ^ Suc h = 0" "b + 64 ^ Suc h \<le> 2 ^ 32" "h \<le> 4" "start < 2 ^ 32"
  shows "idr_get_next_node (Suc h) (of_nat b) (of_nat start) n = first_entry (id_entries start (entries (Suc h) b n))"
  using assms
proof (induction h arbitrary: b n)
  case 0
  then show ?case using next_leaf [of n b start] by simp
next
  case (Suc h)
  have h4: "h \<le> 4" using Suc.prems(4) by simp
  show ?case
  proof (rule next_children [OF _ _ h4 Suc.prems(5)])
    fix k c assume kc: "(k, c) \<in> set (enumerate 0 (slots n))" "c \<noteq> Null"
    have k: "k < 64" "c = slots n ! k" using kc(1) wf_slots_length [OF Suc.prems(1)] by (simp_all add: in_enumerate_0)
    have wc: "wf_node (Suc h) c" using wf_child [OF Suc.prems(1) k(1)] k(2) kc(2) by blast
    note sb = subtree_bounds [OF Suc.prems(2,3) k(1)]
    show "wf_node (Suc h) c \<and> (b + k * 64 ^ Suc h) mod 64 ^ Suc h = 0 \<and> b + k * 64 ^ Suc h + 64 ^ Suc h \<le> 2 ^ 32 \<and>
        idr_get_next_node (Suc h) (of_nat (b + k * 64 ^ Suc h)) (of_nat start) c =
          first_entry (id_entries start (entries (Suc h) (b + k * 64 ^ Suc h) c))"
      by (intro conjI wc sb Suc.IH [OF wc sb h4 Suc.prems(5)])
  qed (use Suc.prems(1) in auto)
qed

lemma next_root_correct:
  assumes "wf_node (Suc h) n" "top_ok (Suc h) n" "h \<le> 5" "start < 2 ^ 32"
  shows "idr_get_next_node (Suc h) 0 (of_nat start) n = first_entry (id_entries start (entries (Suc h) 0 n))"
proof (cases "h \<le> 4")
  case True
  then show ?thesis using next_node_correct [OF assms(1) _ sub_bounds [OF True] True assms(4)] by simp
next
  case False
  then have h: "h = Suc 4" using assms(3) by simp
  have wf: "wf_node 6 n" "top_ok 6 n" using assms(1,2) h by simp_all
  have z: "(0 :: u32) = of_nat 0" by simp
  have "idr_get_next_node (Suc (Suc 4)) (of_nat 0) (of_nat start) n = first_entry (id_entries start (entries (Suc (Suc 4)) 0 n))"
  proof (rule next_children [OF _ _ order.refl assms(4)])
    fix k c assume kc: "(k, c) \<in> set (enumerate 0 (slots n))" "c \<noteq> Null"
    have wc: "wf_node (Suc 4) c" using top_child(1) [OF wf kc] by simp
    note sb = top_bounds [OF top_child(2) [OF wf kc]]
    show "wf_node (Suc 4) c \<and> (0 + k * 64 ^ Suc 4) mod 64 ^ Suc 4 = 0 \<and> 0 + k * 64 ^ Suc 4 + 64 ^ Suc 4 \<le> 2 ^ 32 \<and>
        idr_get_next_node (Suc 4) (of_nat (0 + k * 64 ^ Suc 4)) (of_nat start) c =
          first_entry (id_entries start (entries (Suc 4) (0 + k * 64 ^ Suc 4) c))"
      by (intro conjI wc sb next_node_correct [OF wc sb order.refl assms(4)])
  qed (use assms(1) in auto)
  then show ?thesis unfolding h z .
qed

lemma idr_get_next_entries:
  assumes "idr_ok idp" "0 \<le> i" "i \<le> INT_MAX"
  shows "idr_get_next idp i = first_entry (id_entries (nat i) (radix_entries (root idp)))"
proof (cases "rnode (root idp) = Null")
  case True
  have "idr_get_next_node h b s Null = None" for h b s 
  proof (cases h)
    case (Suc h')
    then show ?thesis by (cases h') simp_all
  qed simp
  then show ?thesis using True assms(2) by (simp add: idr_get_next_def radix_entries_def id_entries_def first_entry_def)
next
  case False
  obtain h where h: "rt_height (root idp) = Suc h" "h \<le> 5" "wf_node (Suc h) (rnode (root idp))" "top_ok (Suc h) (rnode (root idp))"
    using assms(1) False by (cases "rt_height (root idp)") (auto simp: root_ok_def idr_ok_def)
  have "nat i < 2 ^ 32" using assms(2,3) by (simp add: INT_MAX_def)
  moreover have "word_of_int i = (of_nat (nat i) :: u32)" using assms(2) by simp
  ultimately show ?thesis using next_root_correct [OF h(3,4,2), of "nat i"] assms(2) h(1) False
    by (simp add: idr_get_next_def radix_entries_def)
qed


lemma id_entries_from:
  assumes "idr_ok idp"
  shows "(i, x) \<in> set (id_entries n (radix_entries (root idp))) \<longleftrightarrow>
    int n \<le> i \<and> i \<le> INT_MAX \<and> idr_find idp i = x \<and> x \<noteq> Null" (is ?thesis1)
    "sorted_wrt (<) (map fst (id_entries n (radix_entries (root idp))))" (is ?thesis2)
proof -
  have ok: "root_ok (root idp)" using assms by (simp add: idr_ok_def)
  have "(i, x) \<in> set (id_entries n (radix_entries (root idp))) \<longleftrightarrow>
      0 \<le> i \<and> (nat i, x) \<in> set (radix_entries (root idp)) \<and> n \<le> nat i \<and> i \<le> INT_MAX"
    by (force simp: id_entries_def)
  also have "\<dots> \<longleftrightarrow> int n \<le> i \<and> i \<le> INT_MAX \<and> idr_find idp i = x \<and> x \<noteq> Null"
    unfolding radix_entries_iff [OF ok] by (auto simp: idr_find_def INT_MAX_def)
  finally show ?thesis1 .
  have "sorted_wrt (\<lambda>p q. fst p < fst q) (radix_entries (root idp))"
    using radix_entries_sorted [OF ok] by (simp add: sorted_wrt_map)
  then show ?thesis2 by (simp add: id_entries_def sorted_wrt_map case_prod_unfold sorted_wrt_filter)
qed

text \<open>What \<open>idr_for_each\<close> computes: the calls of \<open>fn\<close> on a list of entries.\<close>

fun call_each :: "(int \<Rightarrow> 'v slot \<Rightarrow> 's \<Rightarrow> int \<times> 's) \<Rightarrow> (int \<times> 'v slot) list \<Rightarrow> 's \<Rightarrow> int \<times> 's" where
  "call_each fn [] s = (0, s)"
| "call_each fn ((i, p) # es) s =
     (case fn i p s of (ret, s') \<Rightarrow> if ret \<noteq> 0 then (ret, s') else call_each fn es s')"

lemma id_entries_drop:
  assumes "sorted_wrt (<) (map fst L)" "id_entries n L = (i, p) # es"
  shows "id_entries (nat (i + 1)) L = es"
  using assms
proof (induction L)
  case (Cons e L)
  obtain j x where e: "e = (j, x)" by (cases e)
  have s: "\<forall>y \<in> set L. j < fst y" using Cons.prems(1) e by simp
  show ?case
  proof (cases "n \<le> j \<and> int j \<le> INT_MAX")
    case True
    then have i: "i = int j" "es = id_entries n L" using Cons.prems(2) e by (auto simp: id_entries_def)
    have "filter (\<lambda>(i, x). n \<le> i \<and> int i \<le> INT_MAX) L = filter (\<lambda>(i, x). nat (int j + 1) \<le> i \<and> int i \<le> INT_MAX) L"
      using s True by (intro filter_cong) force+
    then show ?thesis using e by (auto simp: i id_entries_def)
  next
    case False
    then have r: "id_entries n L = (i, p) # es" using Cons.prems(2) e by (auto simp: id_entries_def)
    then have "(i, p) \<in> set (id_entries n L)" by simp
    then have "int j < i" using s by (force simp: id_entries_def)
    then have "\<not> nat (i + 1) \<le> j" by linarith
    then show ?thesis using Cons.IH [OF _ r] Cons.prems(1) e by (simp add: id_entries_def)
  qed
qed (simp add: id_entries_def)

lemma for_each_correct:
  assumes "idr_ok idp" "0 \<le> i" "i \<le> INT_MAX"
  shows "idr_for_each_loop fn idp i s = Some (call_each fn (id_entries (nat i) (radix_entries (root idp))) s)"
  using assms
proof (induction "id_entries (nat i) (radix_entries (root idp))" arbitrary: i s)
  case Nil
  then show ?case
    using idr_get_next_entries [OF Nil.prems] by (simp add: idr_for_each_loop.simps first_entry_def flip: Nil.hyps)
next
  case (Cons e es)
  obtain j x where e: "e = (j, x)" by (cases e)
  have L: "id_entries (nat i) (radix_entries (root idp)) = (j, x) # es" using Cons.hyps(2) e by simp
  have j: "int (nat i) \<le> j" "j \<le> INT_MAX" using id_entries_from(1) [OF assms(1), of j x "nat i"] L by simp_all
  have d: "id_entries (nat (j + 1)) (radix_entries (root idp)) = es"
    using radix_entries_sorted assms(1) L unfolding idr_ok_def by (intro id_entries_drop) auto
  have nxt: "idr_get_next idp i = Some (j, x)"
    using idr_get_next_entries [OF Cons.prems] L by (simp add: first_entry_def)
  have last: "es = []" if "j = INT_MAX"
  proof (rule ccontr)
    assume "es \<noteq> []"
    then obtain a b where "(a, b) \<in> set es" by (cases es) auto
    then show False using id_entries_from(1) [OF assms(1), of a b "nat (j + 1)"] d j(1) that by auto
  qed
  have rec: "idr_for_each_loop fn idp (j + 1) s' = Some (call_each fn es s')" if "j \<noteq> INT_MAX" for s'
    using Cons.hyps(1) [of "j + 1"] d Cons.prems that j by simp
  show ?case unfolding L
    using nxt last rec by (subst idr_for_each_loop.simps) (auto split: prod.splits)
qed


subsection \<open>Properties\<close>


text \<open>
  C17: An id that \<open>idr_alloc\<close> returned is found by \<open>idr_find\<close>, every other id is found as before, and
  removing it with \<open>idr_remove\<close> gives back the ids there were; the next search starts at the removed id.
\<close>
theorem idr_alloc_remove_roundtrip:
  assumes "idr_ok idp" "0 \<le> start" "start < (if end \<le> 0 then INT_MAX else end)" "end \<le> INT_MAX"
    "idr_alloc idp (Item v) start end gfp_mask oc = (r, idp', oc')" "0 \<le> r"
  shows "idr_find idp' r = Item v \<and> (\<forall>j. 0 \<le> j \<and> j \<le> INT_MAX \<and> j \<noteq> r \<longrightarrow> idr_find idp' j = idr_find idp j) \<and>
    idr_ok (idr_remove idp' r) \<and> idr_map (idr_remove idp' r) = idr_map idp \<and> cur (idr_remove idp' r) = r"
proof -
  have a: "idr_ok idp'" "r < (if end \<le> 0 then INT_MAX else end)" "idr_map idp r = None" "idr_map idp' = (idr_map idp)(r \<mapsto> v)" "cur idp' = r + 1"
    using idr_alloc_correct [OF assms(1-5)] assms(6) by (auto simp: idr_alloc_result_def errno_defs)
  have r: "r \<le> INT_MAX" using a(2) assms(4) by (simp split: if_splits)
  have m: "(idr_map idp)(r := None) = idr_map idp" using a(3) by (rule fun_upd_idem)
  have "idr_find idp' j = item_slot (idr_map idp' j)" "idr_find idp j = item_slot (idr_map idp j)" if "0 \<le> j" "j \<le> INT_MAX" for j
    using that idr_find_map a(1) assms(1) by blast+
  then show ?thesis using idr_remove_correct [OF a(1) assms(6) r] a(4,5) r assms(6) by (simp add: m)
qed

text \<open>
  C19: Once the cursor has reached the end of the range, \<open>idr_alloc_cyclic\<close> returns \<open>-EINVAL\<close> and changes
  nothing, also when ids of the range are free: the search from the cursor is refused as an empty
  range, so the wrap-around to \<open>start\<close> on \<open>-ENOSPC\<close> is not reached.
\<close>
theorem idr_alloc_cyclic_no_wrap:
  assumes "0 < end" "0 \<le> start" "start < end" "cur idp \<ge> end"
  shows "idr_alloc_cyclic idp ptr start end gfp_mask oc = (- EINVAL, idp, oc)"
  using assms by (simp add: idr_alloc_cyclic_def idr_alloc_def Let_def errno_defs)

text \<open>
  C18: \<open>idr_for_each\<close> ends, and calls \<open>fn\<close> once on every stored id, in increasing order, up to the
  first call that returns a code other than zero.
\<close>
theorem idr_for_each_spec:
  assumes "idr_ok idp"
  shows "\<exists>es. idr_for_each fn idp s = Some (call_each fn es s) \<and> sorted_wrt (<) (map fst es) \<and>
    (\<forall>i x. (i, x) \<in> set es \<longleftrightarrow> 0 \<le> i \<and> i \<le> INT_MAX \<and> idr_find idp i = x \<and> x \<noteq> Null)"
proof (intro exI conjI allI)
  show "idr_for_each fn idp s = Some (call_each fn (id_entries (nat 0) (radix_entries (root idp))) s)"
    unfolding idr_for_each_def by (rule for_each_correct [OF assms]) (simp_all add: INT_MAX_def)
  show "sorted_wrt (<) (map fst (id_entries (nat 0) (radix_entries (root idp))))" by (rule id_entries_from(2) [OF assms])
  show "(i, x) \<in> set (id_entries (nat 0) (radix_entries (root idp))) \<longleftrightarrow> 0 \<le> i \<and> i \<le> INT_MAX \<and> idr_find idp i = x \<and> x \<noteq> Null" for i x
    using id_entries_from(1) [OF assms, of i x "nat 0"] by simp
qed

definition demo_idr :: "nat idr" where
  "demo_idr = \<lparr>root = demo_root, cur = 6\<rparr>"

lemma demo_idr_ok: "idr_ok demo_idr"
  by (simp add: idr_ok_def demo_idr_def demo_root_ok)


theorem idr_alloc_remove_roundtrip_witness:
  "\<exists>idp' oc'. idr_alloc demo_idr (Item 9) 5 8 0 [] = (6, idp', oc') \<and> idr_find idp' 6 = Item 9 \<and>
     idr_map (idr_remove idp' 6) = idr_map demo_idr"
proof -
  have "fst (idr_alloc demo_idr (Item 9) 5 8 0 []) = 6" by code_simp
  then obtain idp' oc' where a: "idr_alloc demo_idr (Item 9) 5 8 0 [] = (6, idp', oc')" by (metis prod.collapse)
  have "idr_find idp' 6 = Item 9 \<and> idr_map (idr_remove idp' 6) = idr_map demo_idr"
    using idr_alloc_remove_roundtrip [OF demo_idr_ok _ _ _ a] by (simp add: INT_MAX_def)
  then show ?thesis using a by blast
qed

theorem idr_alloc_cyclic_no_wrap_witness:
  "idr_alloc_cyclic demo_idr (Item 9) 0 6 0 [] = (- EINVAL, demo_idr, []) \<and> idr_find demo_idr 0 = Null"
proof -
  have "idr_alloc_cyclic demo_idr (Item 9) 0 6 0 [] = (- EINVAL, demo_idr, [])"
    by (rule idr_alloc_cyclic_no_wrap) (simp_all add: demo_idr_def)
  moreover have "idr_find demo_idr 0 = Null" by code_simp
  ultimately show ?thesis ..
qed

theorem idr_for_each_spec_witness:
  "idr_ok demo_idr \<and> (\<exists>es. idr_for_each (\<lambda>i p s. (0, i # s)) demo_idr [] = Some (call_each (\<lambda>i p s. (0, i # s)) es []) \<and>
     (\<forall>i x. (i, x) \<in> set es \<longleftrightarrow> 0 \<le> i \<and> i \<le> INT_MAX \<and> idr_find demo_idr i = x \<and> x \<noteq> Null))"
  using idr_for_each_spec [OF demo_idr_ok, of "\<lambda>i p s. (0, i # s)" "[]"] demo_idr_ok by blast

end
