(* ===== verification/Vma.thy ===== *)
theory Vma
  imports Prelude
begin

text \<open>
  The address-space bookkeeping of \<open>mm/mmap.c\<close>: the list of \<open>struct vm_area_struct\<close> of a
  \<open>struct mm_struct\<close> and the operations on it.  The singly linked list is a list of records.  Since some
  operations keep a pointer to a list element across calls that change the list, each element carries its identity
  \<open>vm_ptr\<close>; \<open>kmalloc\<close> of an element takes the next identity and consumes one
  outcome.  An \<open>mm_struct *\<close> argument is the record it points to, so the guards for
  NULL have no counterpart here.
\<close>

subsection \<open>State\<close>

record vm_area_struct =
  vm_ptr :: nat
  vm_start :: u32
  vm_end :: u32
  vm_flags :: u32
  anon_vma_id :: u32

record mm_struct =
  pgd :: u32
  start_code :: u32
  end_code :: u32
  start_stack :: u32
  start_brk :: u32
  brk :: u32
  mmap :: "vm_area_struct list"

definition VMA_READ :: u32 where "VMA_READ = 1"
definition VMA_WRITE :: u32 where "VMA_WRITE = 2"
definition VMA_EXEC :: u32 where "VMA_EXEC = 4"

lemmas VMA_defs = VMA_READ_def VMA_WRITE_def VMA_EXEC_def

record vma_env =
  next_anon_vma_id :: u32
  vma_fresh :: nat
  kmallocs :: outcomes

definition page_align_up :: "u32 \<Rightarrow> u32" where
  "page_align_up value = (value + 0xFFF) AND NOT 0xFFF"

definition alloc_anon_vma_id :: "vma_env \<Rightarrow> u32 \<times> vma_env" where
  "alloc_anon_vma_id env =
     (let n = (if next_anon_vma_id env = 0 then 1 else next_anon_vma_id env)
      in (n, env\<lparr>next_anon_vma_id := n + 1\<rparr>))"

text \<open>\<open>kmalloc(sizeof(struct vm_area_struct))\<close> and the assignments to the fields.\<close>

definition vma_new :: "u32 \<Rightarrow> u32 \<Rightarrow> u32 \<Rightarrow> u32 \<Rightarrow> vma_env \<Rightarrow> vm_area_struct option \<times> vma_env" where
  "vma_new start end flags aid env =
     (case kmalloc_ok (kmallocs env) of (ok, ks) \<Rightarrow>
        if ok then (Some \<lparr>vm_ptr = vma_fresh env, vm_start = start, vm_end = end, vm_flags = flags, anon_vma_id = aid\<rparr>,
                    env\<lparr>vma_fresh := vma_fresh env + 1, kmallocs := ks\<rparr>)
        else (None, env\<lparr>kmallocs := ks\<rparr>))"

subsection \<open>Operations on the list\<close>

definition vma_list_free :: "mm_struct \<Rightarrow> mm_struct" where
  "vma_list_free mm = mm\<lparr>mmap := []\<rparr>"

definition vma_can_merge :: "vm_area_struct \<Rightarrow> vm_area_struct \<Rightarrow> bool" where
  "vma_can_merge a b \<longleftrightarrow> vm_flags a = vm_flags b \<and> anon_vma_id a = anon_vma_id b \<and> vm_end a = vm_start b"

fun merge_adjacent :: "vm_area_struct list \<Rightarrow> vm_area_struct list" where
  "merge_adjacent (v # n # vs) =
     (if vma_can_merge v n then merge_adjacent (v\<lparr>vm_end := vm_end n\<rparr> # vs) else v # merge_adjacent (n # vs))"
| "merge_adjacent vs = vs"

definition vma_merge_adjacent :: "mm_struct \<Rightarrow> mm_struct" where
  "vma_merge_adjacent mm = mm\<lparr>mmap := merge_adjacent (mmap mm)\<rparr>"

text \<open>The loop that merges the following elements into \<open>v\<close>.\<close>

fun merge_next :: "vm_area_struct \<Rightarrow> vm_area_struct list \<Rightarrow> vm_area_struct list" where
  "merge_next v [] = [v]"
| "merge_next v (n # vs) = (if vma_can_merge v n then merge_next (v\<lparr>vm_end := vm_end n\<rparr>) vs else v # n # vs)"

definition vma_add_anon :: "mm_struct \<Rightarrow> u32 \<Rightarrow> u32 \<Rightarrow> u32 \<Rightarrow> u32 \<Rightarrow> vma_env \<Rightarrow> mm_struct \<times> vma_env" where
  "vma_add_anon mm start end flags aid env =
     (if start \<ge> end then (mm, env)
      else
        let before = takeWhile (\<lambda>v. vm_start v < start) (mmap mm);
            after = dropWhile (\<lambda>v. vm_start v < start) (mmap mm)
        in case vma_new start end flags aid env of
             (None, env') \<Rightarrow> (mm, env')
           | (Some v, env') \<Rightarrow>
               (if before \<noteq> [] \<and> vma_can_merge (last before) v
                then (mm\<lparr>mmap := butlast before @ merge_next ((last before)\<lparr>vm_end := vm_end v\<rparr>) after\<rparr>, env')
                else (mm\<lparr>mmap := before @ merge_next v after\<rparr>, env')))"

definition vma_add :: "mm_struct \<Rightarrow> u32 \<Rightarrow> u32 \<Rightarrow> u32 \<Rightarrow> vma_env \<Rightarrow> mm_struct \<times> vma_env" where
  "vma_add mm start end flags env =
     (if start \<ge> end then (mm, env)
      else
        let before = takeWhile (\<lambda>v. vm_start v < start) (mmap mm);
            after = dropWhile (\<lambda>v. vm_start v < start) (mmap mm);
            reused = (if before \<noteq> [] \<and> vm_end (last before) = start \<and> vm_flags (last before) = flags
                      then anon_vma_id (last before)
                      else if after \<noteq> [] \<and> vm_start (hd after) = end \<and> vm_flags (hd after) = flags
                      then anon_vma_id (hd after)
                      else 0);
            (aid, env') = (if reused = 0 then alloc_anon_vma_id env else (reused, env))
        in vma_add_anon mm start end flags aid env')"

definition vma_range_free :: "mm_struct \<Rightarrow> u32 \<Rightarrow> u32 \<Rightarrow> bool" where
  "vma_range_free mm start end \<longleftrightarrow> list_all (\<lambda>v. end \<le> vm_start v \<or> start \<ge> vm_end v) (mmap mm)"

definition vma_find_covering :: "mm_struct \<Rightarrow> u32 \<Rightarrow> u32 \<Rightarrow> vm_area_struct option" where
  "vma_find_covering mm start end = find (\<lambda>v. start \<ge> vm_start v \<and> end \<le> vm_end v) (mmap mm)"

text \<open>
  The search of \<open>vma_find_gap\<close>.  \<open>start + size\<close> may wrap around, and with a limit in the last page of
  the address space the loop need not end, so it is a partial function.
\<close>

partial_function (option) gap_loop :: "mm_struct \<Rightarrow> u32 \<Rightarrow> u32 \<Rightarrow> u32 \<Rightarrow> u32 option" where
  "gap_loop mm sz limit start =
     (if start + sz \<le> limit then
        if vma_range_free mm start (start + sz) then Some start
        else gap_loop mm sz limit (start + 0x1000)
      else Some 0)"

definition gap_start :: "mm_struct \<Rightarrow> u32" where
  "gap_start mm =
     (let s0 = (if brk mm \<noteq> 0 then page_align_up (brk mm) else 0x400000);
          s1 = (if start_code mm \<noteq> 0 \<and> end_code mm \<noteq> 0 \<and> s0 < end_code mm then page_align_up (end_code mm) else s0)
      in if s1 < 0x1000 then 0x1000 else s1)"

definition vma_find_gap :: "mm_struct \<Rightarrow> u32 \<Rightarrow> u32 \<Rightarrow> u32 option" where
  "vma_find_gap mm sz limit =
     (if sz = 0 then Some 0
      else if limit \<le> gap_start mm then Some 0
      else gap_loop mm sz limit (gap_start mm))"

definition vma_find_heap :: "mm_struct \<Rightarrow> vm_area_struct option" where
  "vma_find_heap mm =
     (if start_brk mm = 0 then None
      else find (\<lambda>v. vm_start v = start_brk mm \<and>
                   (vm_flags v AND (VMA_READ OR VMA_WRITE)) = (VMA_READ OR VMA_WRITE)) (mmap mm))"

text \<open>A store through the pointer \<open>p\<close> to a list element.\<close>

definition vma_update :: "nat \<Rightarrow> (vm_area_struct \<Rightarrow> vm_area_struct) \<Rightarrow> mm_struct \<Rightarrow> mm_struct" where
  "vma_update p f mm = mm\<lparr>mmap := map (\<lambda>v. if vm_ptr v = p then f v else v) (mmap mm)\<rparr>"

text \<open>\<open>None\<close> is the NULL returned when an allocation failed; the partial copy is freed then.\<close>

fun vma_clone_list :: "vm_area_struct list \<Rightarrow> vma_env \<Rightarrow> vm_area_struct list option \<times> vma_env" where
  "vma_clone_list [] env = (Some [], env)"
| "vma_clone_list (v # vs) env =
     (case vma_new (vm_start v) (vm_end v) (vm_flags v) (anon_vma_id v) env of
        (None, env') \<Rightarrow> (None, env')
      | (Some w, env') \<Rightarrow>
          (case vma_clone_list vs env' of
             (None, env'') \<Rightarrow> (None, env'')
           | (Some ws, env'') \<Rightarrow> (Some (w # ws), env'')))"

subsection \<open>Mapping, unmapping, permissions\<close>

definition prot_flags :: "u32 \<Rightarrow> u32" where
  "prot_flags prot =
     (let f0 = 0;
          f1 = (if has_flag prot VMA_READ then set_flag f0 VMA_READ else f0);
          f2 = (if has_flag prot VMA_WRITE then set_flag f1 VMA_WRITE else f1)
      in if has_flag prot VMA_EXEC then set_flag f2 VMA_EXEC else f2)"

definition mm_limit :: "mm_struct \<Rightarrow> u32" where
  "mm_limit mm = (if start_stack mm \<noteq> 0 then start_stack mm else TASK_SIZE)"

text \<open>\<open>do_mmap\<close> returns the address, 0 on failure.\<close>

definition do_mmap :: "mm_struct \<Rightarrow> u32 \<Rightarrow> u32 \<Rightarrow> u32 \<Rightarrow> vma_env \<Rightarrow> (u32 \<times> mm_struct \<times> vma_env) option" where
  "do_mmap mm addr len0 prot env =
     (if len0 = 0 then Some (0, mm, env)
      else
        let len = page_align_up len0; limit = mm_limit mm
        in if len = 0 then Some (0, mm, env)
           else if limit \<le> 0x1000 then Some (0, mm, env)
           else
             case (if addr \<noteq> 0 then
                     if addr < 0x1000 then Some 0
                     else if addr AND 0xFFF \<noteq> 0 then Some 0
                     else if addr + len > limit then Some 0
                     else if \<not> vma_range_free mm addr (addr + len) then Some 0
                     else Some addr
                   else vma_find_gap mm len limit) of
               None \<Rightarrow> None
             | Some a \<Rightarrow>
                 if a = 0 then Some (0, mm, env)
                 else case vma_add mm a (a + len) (prot_flags prot) env of
                        (mm', env') \<Rightarrow> Some (a, mm', env'))"

text \<open>
  The loop of \<open>do_munmap\<close> over the list.  After a split the loop goes on at the new right part,
  which starts at \<open>end\<close> and so is passed over.
\<close>

fun unmap_vmas :: "u32 \<Rightarrow> u32 \<Rightarrow> vm_area_struct list \<Rightarrow> vma_env \<Rightarrow> vm_area_struct list \<times> vma_env" where
  "unmap_vmas addr end [] env = ([], env)"
| "unmap_vmas addr end (v # vs) env =
     (if end \<le> vm_start v \<or> addr \<ge> vm_end v then
        (case unmap_vmas addr end vs env of (ws, env') \<Rightarrow> (v # ws, env'))
      else if addr \<le> vm_start v \<and> end \<ge> vm_end v then unmap_vmas addr end vs env
      else if addr \<le> vm_start v \<and> end < vm_end v then
        (case unmap_vmas addr end vs env of (ws, env') \<Rightarrow> (v\<lparr>vm_start := end\<rparr> # ws, env'))
      else if addr > vm_start v \<and> end \<ge> vm_end v then
        (case unmap_vmas addr end vs env of (ws, env') \<Rightarrow> (v\<lparr>vm_end := addr\<rparr> # ws, env'))
      else
        (case vma_new end (vm_end v) (vm_flags v) (anon_vma_id v) env of
           (Some right, env1) \<Rightarrow>
             (case unmap_vmas addr end vs env1 of (ws, env') \<Rightarrow> (v\<lparr>vm_end := addr\<rparr> # right # ws, env'))
         | (None, env1) \<Rightarrow>
             (case unmap_vmas addr end vs env1 of (ws, env') \<Rightarrow> (v\<lparr>vm_end := addr\<rparr> # ws, env'))))"

text \<open>
  The part of \<open>do_mprotect\<close> between the search for the covering element \<open>v\<close> and the update of the page
  tables.  The calls that insert the left and right rest leave \<open>v\<close> itself as it is.
\<close>

definition protect_vma :: "mm_struct \<Rightarrow> vm_area_struct \<Rightarrow> u32 \<Rightarrow> u32 \<Rightarrow> u32 \<Rightarrow> vma_env \<Rightarrow> mm_struct \<times> vma_env" where
  "protect_vma mm v addr end flags env =
     (let (mm1, env1) = (if addr > vm_start v
                         then vma_add_anon mm (vm_start v) addr (vm_flags v) (anon_vma_id v) env else (mm, env));
          (mm2, env2) = (if end < vm_end v
                         then vma_add_anon mm1 end (vm_end v) (vm_flags v) (anon_vma_id v) env1 else (mm1, env1))
      in (vma_update (vm_ptr v) (\<lambda>w. w\<lparr>vm_start := addr, vm_end := end, vm_flags := flags\<rparr>) mm2, env2))"

definition mm_reset_mmap :: "mm_struct \<Rightarrow> mm_struct" where
  "mm_reset_mmap mm = vma_list_free mm"

definition mm_add_vma :: "mm_struct \<Rightarrow> u32 \<Rightarrow> u32 \<Rightarrow> u32 \<Rightarrow> vma_env \<Rightarrow> mm_struct \<times> vma_env" where
  "mm_add_vma mm start end flags env = vma_add mm start end flags env"

definition vma_allows :: "mm_struct \<Rightarrow> u32 \<Rightarrow> bool \<Rightarrow> bool \<Rightarrow> bool" where
  "vma_allows mm addr is_write is_exec =
     (case find (\<lambda>v. addr \<ge> vm_start v \<and> addr < vm_end v) (mmap mm) of
        None \<Rightarrow> False
      | Some v \<Rightarrow>
          if is_exec \<and> \<not> has_flag (vm_flags v) VMA_EXEC then False
          else if is_write \<and> \<not> has_flag (vm_flags v) VMA_WRITE then False
          else if \<not> is_write \<and> \<not> has_flag (vm_flags v) VMA_READ then False
          else True)"

subsection \<open>The heap\<close>

definition mm_init_brk :: "mm_struct \<Rightarrow> u32 \<Rightarrow> u32 \<Rightarrow> vma_env \<Rightarrow> mm_struct \<times> vma_env" where
  "mm_init_brk mm heap_base stack_base env =
     (if heap_base < 0x1000 then (mm, env)
      else if heap_base \<ge> TASK_SIZE then (mm, env)
      else if stack_base \<noteq> 0 \<and> heap_base + 0x1000 \<ge> stack_base then (mm, env)
      else
        let mm1 = mm\<lparr>start_brk := heap_base, brk := heap_base\<rparr>
        in if vma_find_heap mm1 = None then vma_add mm1 heap_base heap_base (VMA_READ OR VMA_WRITE) env
           else (mm1, env))"

definition do_brk :: "mm_struct \<Rightarrow> u32 \<Rightarrow> u32 \<times> mm_struct" where
  "do_brk mm new_end =
     (if start_brk mm = 0 then (0, mm)
      else if new_end = 0 then (brk mm, mm)
      else if new_end < start_brk mm then (brk mm, mm)
      else if new_end \<ge> TASK_SIZE then (brk mm, mm)
      else if start_stack mm \<noteq> 0 \<and> page_align_up new_end + 0x1000 > start_stack mm then (brk mm, mm)
      else
        let mm1 = mm\<lparr>brk := new_end\<rparr>
        in (new_end,
            case vma_find_heap mm1 of
              None \<Rightarrow> mm1
            | Some heap \<Rightarrow>
                let e = page_align_up new_end
                in vma_update (vm_ptr heap) (\<lambda>w. w\<lparr>vm_end := (if e < vm_start heap then vm_start heap else e)\<rparr>) mm1))"

subsection \<open>Well-formed lists\<close>

text \<open>
  The list is ordered by address, its elements are disjoint and not empty.  \<open>region\<close> is the meaning of a
  list: the mapped addresses with the permissions they have.
\<close>

definition vma_ok :: "vm_area_struct list \<Rightarrow> bool" where
  "vma_ok L \<longleftrightarrow> sorted_wrt (\<lambda>a b. vm_end a \<le> vm_start b) L \<and> (\<forall>v \<in> set L. vm_start v < vm_end v)"

definition ptrs_ok :: "vma_env \<Rightarrow> vm_area_struct list \<Rightarrow> bool" where
  "ptrs_ok env L \<longleftrightarrow> distinct (map vm_ptr L) \<and> (\<forall>v \<in> set L. vm_ptr v < vma_fresh env)"

definition span :: "u32 \<Rightarrow> u32 \<Rightarrow> u32 \<Rightarrow> (u32 \<times> u32) set" where
  "span a b f = {a..<b} \<times> {f}"

definition region :: "vm_area_struct list \<Rightarrow> (u32 \<times> u32) set" where
  "region L = (\<Union>v \<in> set L. span (vm_start v) (vm_end v) (vm_flags v))"

lemma region_simps [simp]:
  "region [] = {}" "region (v # L) = span (vm_start v) (vm_end v) (vm_flags v) \<union> region L"
  "region (A @ B) = region A \<union> region B"
  by (simp_all add: region_def)

lemma span_join: "a \<le> b \<Longrightarrow> b \<le> c \<Longrightarrow> span a c f = span a b f \<union> span b c f"
  unfolding span_def by (metis Sigma_Un_distrib1 ivl_disj_un_two(3))

lemma vma_ok_Cons [simp]: "vma_ok (v # L) \<longleftrightarrow> vm_start v < vm_end v \<and> (\<forall>w \<in> set L. vm_end v \<le> vm_start w) \<and> vma_ok L"
  by (auto simp: vma_ok_def)

lemma vma_ok_Nil [simp]: "vma_ok []"
  by (simp add: vma_ok_def)

lemma vma_ok_append [simp]:
  "vma_ok (A @ B) \<longleftrightarrow> vma_ok A \<and> vma_ok B \<and> (\<forall>v \<in> set A. \<forall>w \<in> set B. vm_end v \<le> vm_start w)"
  by (auto simp: vma_ok_def sorted_wrt_append)

text \<open>Merging the two first elements.\<close>

lemma merge_two:
  assumes "vma_ok (v # n # vs)" "vma_can_merge v n"
  shows "vma_ok (v\<lparr>vm_end := vm_end n\<rparr> # vs)" "region (v\<lparr>vm_end := vm_end n\<rparr> # vs) = region (v # n # vs)"
proof -
  show "vma_ok (v\<lparr>vm_end := vm_end n\<rparr> # vs)" using assms by (auto simp: vma_can_merge_def)
  have "span (vm_start v) (vm_end n) (vm_flags v) = span (vm_start v) (vm_end v) (vm_flags v) \<union> span (vm_end v) (vm_end n) (vm_flags v)"
    using assms by (intro span_join) (auto simp: vma_can_merge_def)
  then show "region (v\<lparr>vm_end := vm_end n\<rparr> # vs) = region (v # n # vs)" using assms by (auto simp: vma_can_merge_def)
qed

lemma merge_adjacent_correct:
  assumes "vma_ok L"
  shows "vma_ok (merge_adjacent L) \<and> region (merge_adjacent L) = region L \<and>
    (\<forall>w \<in> set (merge_adjacent L). \<exists>v \<in> set L. vm_start v = vm_start w)"
  using assms
proof (induction L rule: merge_adjacent.induct)
  case (1 v n vs)
  show ?case
  proof (cases "vma_can_merge v n")
    case True
    then show ?thesis using 1(1) [OF True merge_two(1) [OF 1(3) True]] merge_two(2) [OF 1(3) True] by auto
  next
    case False
    then have r: "vma_ok (merge_adjacent (n # vs))" "region (merge_adjacent (n # vs)) = region (n # vs)"
      "\<forall>w \<in> set (merge_adjacent (n # vs)). \<exists>v \<in> set (n # vs). vm_start v = vm_start w"
      using 1(2) [OF False] 1(3) by auto
    have "vm_end v \<le> vm_start w" if "w \<in> set (merge_adjacent (n # vs))" for w
      using r(3) that 1(3) by (metis vma_ok_Cons)
    then show ?thesis using r 1(3) False by auto
  qed
qed auto

lemma merge_next_correct:
  assumes "vma_ok (v # vs)"
  shows "vma_ok (merge_next v vs) \<and> region (merge_next v vs) = region (v # vs) \<and>
    (\<forall>w \<in> set (merge_next v vs). vm_start v \<le> vm_start w) \<and>
    (\<forall>w \<in> set (merge_next v vs). vm_ptr w = vm_ptr v \<or> w \<in> set vs)"
  using assms
proof (induction v vs rule: merge_next.induct)
  case (1 v)
  then show ?case by simp
next
  case (2 v n vs)
  show ?case
  proof (cases "vma_can_merge v n")
    case True
    then show ?thesis using 2(1) [OF True merge_two(1) [OF 2(2) True]] merge_two(2) [OF 2(2) True] by auto
  next
    case False
    have "vm_start v \<le> vm_start w" if "w \<in> set (n # vs)" for w
    proof -
      have "vm_start v < vm_end v" "vm_end v \<le> vm_start w" using 2(2) that by auto
      then show ?thesis by simp
    qed
    then show ?thesis using 2(2) False by auto
  qed
qed

text \<open>
  Where \<open>vma_add_anon\<close> puts the new element when the list is split at \<open>start\<close>: it is appended to the left part,
  as an element of its own or by extending the last one, and the right part follows.
\<close>

lemma take_drop_split:
  assumes "\<forall>v \<in> set A. P v" "\<forall>v \<in> set B. \<not> P v"
  shows "takeWhile P (A @ B) = A" "dropWhile P (A @ B) = B"
proof -
  have "takeWhile P B = []" "dropWhile P B = B" using assms(2) by (cases B; simp)+
  then show "takeWhile P (A @ B) = A" "dropWhile P (A @ B) = B" using assms(1) by simp_all
qed

lemma vma_new_ok:
  assumes "vma_new start end flags aid env = (Some v, env')"
  shows "v = \<lparr>vm_ptr = vma_fresh env, vm_start = start, vm_end = end, vm_flags = flags, anon_vma_id = aid\<rparr>"
    "vma_fresh env' = vma_fresh env + 1"
  using assms by (auto simp: vma_new_def split: if_splits prod.splits)

lemma vma_add_anon_shape:
  assumes "mmap mm = A @ B" "\<forall>v \<in> set A. vm_start v < start" "\<forall>v \<in> set B. start \<le> vm_start v" "start < end"
    "vma_ok A" "\<forall>v \<in> set A. vm_end v \<le> start"
    "vma_new start end flags aid env = (Some n, env')"
  shows "\<exists>A1 m. vma_add_anon mm start end flags aid env = (mm\<lparr>mmap := A1 @ merge_next m B\<rparr>, env') \<and>
    vm_start m \<le> start \<and> vm_end m = end \<and> vm_flags m = flags \<and> anon_vma_id m = aid \<and>
    vma_ok (A1 @ [m]) \<and> region (A1 @ [m]) = region A \<union> span start end flags \<and>
    (set A1 \<subseteq> set A \<and> (m = n \<and> A1 = A \<or> (\<exists>w \<in> set A. m = w\<lparr>vm_end := end\<rparr> \<and> A = A1 @ [w])))"
proof -
  note n = vma_new_ok [OF assms(7)]
  have tw: "takeWhile (\<lambda>v. vm_start v < start) (A @ B) = A" "dropWhile (\<lambda>v. vm_start v < start) (A @ B) = B"
    using assms(2,3) by (intro take_drop_split; auto simp: not_less)+
  show ?thesis
  proof (cases "A \<noteq> [] \<and> vma_can_merge (last A) n")
    case True
    then obtain A1 w where A: "A = A1 @ [w]" by (metis append_butlast_last_id)
    have w: "vm_flags w = flags" "anon_vma_id w = aid" "vm_end w = start" "vm_start w < start"
      using True A n(1) assms(2) by (auto simp: vma_can_merge_def)
    have j: "span (vm_start w) end flags = span (vm_start w) start flags \<union> span start end flags"
      using w(4) assms(4) by (intro span_join) auto
    have "vma_add_anon mm start end flags aid env = (mm\<lparr>mmap := A1 @ merge_next (w\<lparr>vm_end := end\<rparr>) B\<rparr>, env')"
      using True A n(1) assms(1,4,7) tw by (simp add: vma_add_anon_def)
    moreover have "vma_ok (A1 @ [w\<lparr>vm_end := end\<rparr>])" using assms(4,5) A w by auto
    ultimately show ?thesis using A w j
      by (intro exI [of _ A1] exI [of _ "w\<lparr>vm_end := end\<rparr>"]) auto
  next
    case False
    have "vma_add_anon mm start end flags aid env = (mm\<lparr>mmap := A @ merge_next n B\<rparr>, env')"
      using False assms(1,4,7) tw by (auto simp: vma_add_anon_def)
    moreover have "vma_ok (A @ [n])" using assms(4,5,6) n(1) by auto
    ultimately show ?thesis using n by (intro exI [of _ A] exI [of _ n]) auto
  qed
qed

text \<open>Adding a free range.\<close>

lemma vma_split_at:
  assumes "vma_ok L" "\<forall>v \<in> set L. end \<le> vm_start v \<or> vm_end v \<le> start" "start < end"
  obtains A B where "L = A @ B" "\<forall>v \<in> set A. vm_start v < start" "\<forall>v \<in> set A. vm_end v \<le> start"
    "\<forall>v \<in> set B. start \<le> vm_start v" "\<forall>v \<in> set B. end \<le> vm_start v"
proof -
  let ?A = "takeWhile (\<lambda>v. vm_start v < start) L" and ?B = "dropWhile (\<lambda>v. vm_start v < start) L"
  have L: "L = ?A @ ?B" by (simp only: takeWhile_dropWhile_id)
  have A: "\<forall>v \<in> set ?A. vm_start v < start" by (auto dest: set_takeWhileD)
  have B: "start \<le> vm_start v" if "v \<in> set ?B" for v
  proof (cases ?B)
    case (Cons b bs)
    have "\<not> vm_start b < start" using Cons by (metis hd_dropWhile list.discI list.sel(1))
    moreover have "vma_ok (b # bs)" using assms(1) L Cons by (metis vma_ok_append)
    ultimately show ?thesis using that Cons 
      by (simp add: not_less) (metis order.trans less_imp_le)
  next
    case Nil
    then show ?thesis using that by (simp only: list.set empty_iff)
  qed
  have sub: "set ?A \<subseteq> set L" "set ?B \<subseteq> set L" by (auto dest: set_takeWhileD set_dropWhileD)
  have "\<forall>v \<in> set ?A. vm_end v \<le> start" 
  proof
    fix v assume v: "v \<in> set ?A"
    then have "end \<le> vm_start v \<or> vm_end v \<le> start" "vm_start v < start" using A sub(1) assms(2) by blast+
    then show "vm_end v \<le> start" using assms(3) by auto
  qed
  moreover have "\<forall>v \<in> set ?B. end \<le> vm_start v"
  proof
    fix v assume v: "v \<in> set ?B"
    then have "v \<in> set L" using sub by blast
    then have "vm_start v < vm_end v" "end \<le> vm_start v \<or> vm_end v \<le> start" using assms(1,2) by (auto simp: vma_ok_def)
    then show "end \<le> vm_start v" using B [OF v] by auto
  qed
  ultimately show thesis using that [OF L] A B by blast
qed


lemma vma_add_anon_correct:
  assumes "vma_ok (mmap mm)" "\<forall>v \<in> set (mmap mm). end \<le> vm_start v \<or> vm_end v \<le> start" "start < end"
    "vma_new start end flags aid env = (Some n, env')"
  shows "\<exists>L. vma_add_anon mm start end flags aid env = (mm\<lparr>mmap := L\<rparr>, env') \<and> vma_ok L \<and>
    region L = region (mmap mm) \<union> span start end flags"
proof -
  obtain A B where s: "mmap mm = A @ B" "\<forall>v \<in> set A. vm_start v < start" "\<forall>v \<in> set A. vm_end v \<le> start"
    "\<forall>v \<in> set B. start \<le> vm_start v" "\<forall>v \<in> set B. end \<le> vm_start v"
    using vma_split_at [OF assms(1-3)] by metis
  have ok: "vma_ok A" "vma_ok B" using assms(1) s(1) by simp_all
  obtain A1 m where r: "vma_add_anon mm start end flags aid env = (mm\<lparr>mmap := A1 @ merge_next m B\<rparr>, env')"
    "vm_end m = end" "vma_ok (A1 @ [m])" "region (A1 @ [m]) = region A \<union> span start end flags"
    using vma_add_anon_shape [OF s(1,2,4) assms(3) ok(1) s(3) assms(4)] by blast
  have mb: "vma_ok (m # B)" using r(2,3) ok(2) s(5) by auto
  note mn = merge_next_correct [OF mb]
  have "vma_ok (A1 @ merge_next m B)"
  proof -
    have "vm_end v \<le> vm_start w" if "v \<in> set A1" "w \<in> set (merge_next m B)" for v w
    proof -
      have "vm_end v \<le> vm_start m" "vm_start m \<le> vm_start w" using r(3) mn that by auto
      then show ?thesis by simp
    qed
    then show ?thesis using r(3) mn by auto
  qed
  moreover have "region (A1 @ merge_next m B) = region (mmap mm) \<union> span start end flags"
  proof -
    have "region (A1 @ merge_next m B) = region (A1 @ [m]) \<union> region B" using mn by auto
    then show ?thesis unfolding r(4) s(1) by auto
  qed
  ultimately show ?thesis using r(1) by blast
qed

text \<open>A failed allocation leaves the list as it is.\<close>

lemma vma_add_anon_nomem:
  assumes "vma_new start end flags aid env = (None, env')" "start < end"
  shows "vma_add_anon mm start end flags aid env = (mm, env')"
  using assms by (simp add: vma_add_anon_def Let_def)

lemma vma_new_outcome:
  "fst (vma_new start end flags aid env) = None \<longleftrightarrow> \<not> fst (kmalloc_ok (kmallocs env))"
  by (simp add: vma_new_def split: prod.splits)

lemma vma_add_correct:
  assumes "vma_ok (mmap mm)" "\<forall>v \<in> set (mmap mm). end \<le> vm_start v \<or> vm_end v \<le> start" "start < end"
    "vma_add mm start end flags env = (mm', env')"
  shows "\<exists>L. mm' = mm\<lparr>mmap := L\<rparr> \<and> vma_ok L \<and>
    region L = (if fst (kmalloc_ok (kmallocs env)) then region (mmap mm) \<union> span start end flags else region (mmap mm))"
proof -
  have "\<exists>r. vma_add mm start end flags env =
      (case (if r = 0 then alloc_anon_vma_id env else (r, env)) of (aid, env') \<Rightarrow> vma_add_anon mm start end flags aid env')"
    using assms(3) unfolding vma_add_def Let_def by (simp only: linorder_not_le [symmetric] if_False) (rule exI, rule refl)
  then obtain aid env1 where a: "vma_add mm start end flags env = vma_add_anon mm start end flags aid env1" "kmallocs env1 = kmallocs env"
    by (auto simp: alloc_anon_vma_id_def Let_def split: if_splits)
  obtain r env2 where n: "vma_new start end flags aid env1 = (r, env2)" by (metis surj_pair)
  show ?thesis
  proof (cases r)
    case None
    then have "mm' = mm" "\<not> fst (kmalloc_ok (kmallocs env))"
      using vma_add_anon_nomem [of start "end" flags aid env1 env2 mm] n a assms(3,4) vma_new_outcome [of start "end" flags aid env1] by auto
    then show ?thesis using assms(1) by (intro exI [of _ "mmap mm"]) simp
  next
    case (Some v)
    then have "fst (kmalloc_ok (kmallocs env))" using n a vma_new_outcome [of start "end" flags aid env1] by auto
    then show ?thesis using vma_add_anon_correct [OF assms(1-3), of flags aid env1 v env2] n a assms(4) Some by auto
  qed
qed

lemma span_diff:
  assumes "x \<le> y"
  shows "span s e f - {x..<y} \<times> UNIV = span s (min e x) f \<union> span (max s y) e f"
  using assms unfolding span_def by auto

text \<open>Unmapping a range.  If the split cannot allocate its right part, the addresses of that part are lost as well.\<close>

lemma unmap_vmas_beyond: "\<forall>v \<in> set L. end \<le> vm_start v \<Longrightarrow> unmap_vmas addr end L env = (L, env)"
  by (induction L) simp_all

lemma unmap_vmas_correct:
  assumes "vma_ok L" "addr < end" "unmap_vmas addr end L env = (L', env')"
  shows "vma_ok L' \<and> (\<forall>w \<in> set L'. \<exists>v \<in> set L. vm_start v \<le> vm_start w) \<and>
    region L' \<subseteq> region L - {addr..<end} \<times> UNIV \<and>
    (fst (kmalloc_ok (kmallocs env)) \<longrightarrow> region L' = region L - {addr..<end} \<times> UNIV)"
  using assms
proof (induction L arbitrary: env L' env')
  case (Cons v vs)
  obtain ws env1 where u: "unmap_vmas addr end vs env = (ws, env1)" by (metis surj_pair)
  note IH = Cons.IH [OF _ Cons.prems(2) u]
  have ok: "vm_start v < vm_end v" "\<forall>w \<in> set vs. vm_end v \<le> vm_start w" "vma_ok vs" using Cons.prems(1) by simp_all
  have rest: "\<forall>w \<in> set ws. vm_end v \<le> vm_start w" using IH ok by (meson order.trans)
  note sd = span_diff [of addr "end" "vm_start v" "vm_end v" "vm_flags v"]
  consider (out) "end \<le> vm_start v \<or> addr \<ge> vm_end v" | (all) "addr \<le> vm_start v" "end \<ge> vm_end v" "\<not> (end \<le> vm_start v \<or> addr \<ge> vm_end v)"
    | (left) "addr \<le> vm_start v" "end < vm_end v" "\<not> (end \<le> vm_start v \<or> addr \<ge> vm_end v)"
    | (right) "addr > vm_start v" "end \<ge> vm_end v" "\<not> (end \<le> vm_start v \<or> addr \<ge> vm_end v)"
    | (split) "addr > vm_start v" "end < vm_end v" by fastforce
  then show ?case
  proof cases
    case out
    then have L: "L' = v # ws" using Cons.prems(3) u by simp
    have d: "span (vm_start v) (vm_end v) (vm_flags v) - {addr..<end} \<times> UNIV = span (vm_start v) (vm_end v) (vm_flags v)"
      using out by (auto simp: span_def)
    show ?thesis using IH ok rest unfolding L region_simps Un_Diff d by auto
  next
    case all
    then have L: "L' = ws" using Cons.prems(3) u by simp
    have d: "span (vm_start v) (vm_end v) (vm_flags v) - {addr..<end} \<times> UNIV = {}"
      using all by (auto simp: span_def)
    show ?thesis using IH ok unfolding L region_simps Un_Diff d by auto
  next
    case left
    then have c: "(end \<le> vm_start v \<or> vm_end v \<le> addr) = False" "(addr \<le> vm_start v \<and> vm_end v \<le> end) = False"
      "(addr \<le> vm_start v \<and> end < vm_end v) = True" by auto
    have L: "L' = v\<lparr>vm_start := end\<rparr> # ws" using Cons.prems(3) u unfolding unmap_vmas.simps c by simp
    have d: "span (vm_start v) (vm_end v) (vm_flags v) - {addr..<end} \<times> UNIV = span end (vm_end v) (vm_flags v)"
      using left by (auto simp: span_def)
    have "vm_start v \<le> end" using left by auto
    then show ?thesis using IH ok rest left(2) unfolding L region_simps Un_Diff d by auto
  next
    case right
    then have c: "(end \<le> vm_start v \<or> vm_end v \<le> addr) = False" "(addr \<le> vm_start v \<and> vm_end v \<le> end) = False"
      "(addr \<le> vm_start v \<and> end < vm_end v) = False" "(vm_start v < addr \<and> vm_end v \<le> end) = True" by auto
    have L: "L' = v\<lparr>vm_end := addr\<rparr> # ws" using Cons.prems(3) u unfolding unmap_vmas.simps c by simp
    have d: "span (vm_start v) (vm_end v) (vm_flags v) - {addr..<end} \<times> UNIV = span (vm_start v) addr (vm_flags v)"
      using right by (auto simp: span_def)
    have "\<forall>w \<in> set ws. addr \<le> vm_start w" using rest right by force
    then show ?thesis using IH ok right(1) unfolding L region_simps Un_Diff d by auto
  next
    case split
    obtain r env2 where n: "vma_new end (vm_end v) (vm_flags v) (anon_vma_id v) env = (r, env2)" by (metis surj_pair)
    have vs: "unmap_vmas addr end vs e = (vs, e)" for e
      using ok(2) split(2) by (intro unmap_vmas_beyond) force
    have d: "span (vm_start v) (vm_end v) (vm_flags v) - {addr..<end} \<times> UNIV =
        span (vm_start v) addr (vm_flags v) \<union> span end (vm_end v) (vm_flags v)"
      using split Cons.prems(2) by (auto simp: span_def)
    have dv: "region vs - {addr..<end} \<times> UNIV = region vs"
      using ok(2) split(2) by (fastforce simp: region_def span_def)
    have e: "addr < end" "vm_start v \<le> end" "\<forall>w \<in> set vs. addr \<le> vm_start w" using Cons.prems(2) split ok(2) by force+
    have c: "(end \<le> vm_start v \<or> vm_end v \<le> addr) = False" "(addr \<le> vm_start v \<and> vm_end v \<le> end) = False"
      "(addr \<le> vm_start v \<and> end < vm_end v) = False" "(vm_start v < addr \<and> vm_end v \<le> end) = False"
      using split Cons.prems(2) by auto
    have nk: "r = None \<longleftrightarrow> \<not> fst (kmalloc_ok (kmallocs env))"
      using vma_new_outcome [of "end" "vm_end v" "vm_flags v" "anon_vma_id v" env] n by simp
    show ?thesis
    proof (cases r)
      case None
      then have L: "L' = v\<lparr>vm_end := addr\<rparr> # vs" using Cons.prems(3) n vs unfolding unmap_vmas.simps c by simp
      show ?thesis using ok e split nk None unfolding L region_simps Un_Diff d dv by auto
    next
      case (Some w)
      have w: "vm_start w = end" "vm_end w = vm_end v" "vm_flags w = vm_flags v" using vma_new_ok(1) [OF n [unfolded Some]] by simp_all
      have L: "L' = v\<lparr>vm_end := addr\<rparr> # w # vs" using Some Cons.prems(3) n vs unfolding unmap_vmas.simps c by simp
      show ?thesis using ok e split nk Some w unfolding L region_simps Un_Diff d dv by auto
    qed
  qed
qed auto


text \<open>What \<open>vma_allows\<close> reads off a well-formed list.\<close>

definition perms_allow :: "u32 \<Rightarrow> bool \<Rightarrow> bool \<Rightarrow> bool" where
  "perms_allow f w x \<longleftrightarrow> (x \<longrightarrow> has_flag f VMA_EXEC) \<and> (if w then has_flag f VMA_WRITE else has_flag f VMA_READ)"

lemma region_unique:
  assumes "vma_ok L" "v \<in> set L" "w \<in> set L" "vm_start v \<le> a" "a < vm_end v" "vm_start w \<le> a" "a < vm_end w"
  shows "v = w"
  using assms
proof (induction L)
  case (Cons u L)
  have "\<not> (vm_start x \<le> a \<and> a < vm_end x)" if "u' = u" "x \<in> set L" "vm_start u' \<le> a" "a < vm_end u'" for u' x
    using Cons.prems(1) that by (simp add: not_le) (metis less_le_trans not_less)
  then show ?case using Cons by auto
qed simp

lemma vma_allows_region:
  assumes "vma_ok (mmap mm)"
  shows "vma_allows mm a w x \<longleftrightarrow> (\<exists>f. (a, f) \<in> region (mmap mm) \<and> perms_allow f w x)"
proof (cases "find (\<lambda>v. vm_start v \<le> a \<and> a < vm_end v) (mmap mm)")
  case None
  then have "(a, f) \<notin> region (mmap mm)" for f by (auto simp: region_def span_def find_None_iff)
  then show ?thesis unfolding vma_allows_def None by simp
next
  case (Some v)
  then have v: "v \<in> set (mmap mm)" "vm_start v \<le> a" "a < vm_end v" by (auto simp: find_Some_iff)
  have r: "(a, f) \<in> region (mmap mm) \<longleftrightarrow> f = vm_flags v" for f
  proof
    assume "(a, f) \<in> region (mmap mm)"
    then obtain w where w: "w \<in> set (mmap mm)" "vm_start w \<le> a" "a < vm_end w" "f = vm_flags w"
      by (auto simp: region_def span_def)
    then show "f = vm_flags v" using region_unique [OF assms v(1) w(1) v(2,3) w(2,3)] by simp
  next
    assume "f = vm_flags v"
    then show "(a, f) \<in> region (mmap mm)" using v by (auto simp: region_def span_def)
  qed
  show ?thesis unfolding vma_allows_def perms_allow_def r Some by simp
qed

text \<open>The search for a gap ends unless the limit lies in the last page of the address space.\<close>

lemma gap_loop_correct:
  assumes "limit < 0xFFFFF000"
  shows "\<exists>r. gap_loop mm sz limit start = Some r \<and>
    (r \<noteq> 0 \<longrightarrow> r + sz \<le> limit \<and> vma_range_free mm r (r + sz) \<and> (\<exists>k. r = start + of_nat k * 0x1000))"
proof (induction "unat limit + 1 - unat (start + sz)" arbitrary: start rule: less_induct)
  case less
  show ?case
  proof (cases "start + sz \<le> limit \<and> \<not> vma_range_free mm start (start + sz)")
    case False
    then show ?thesis by (subst gap_loop.simps) (auto intro: exI [of _ "0 :: nat"])
  next
    case True
    have "unat (start + sz + 0x1000) = unat (start + sz) + 0x1000"
    proof -
      have "unat (start + sz) < 0xFFFFF000" using True assms by (auto simp: word_le_nat_alt word_less_nat_alt)
      then show ?thesis by (simp add: unat_word_ariths)
    qed
    then have "unat limit + 1 - unat (start + 0x1000 + sz) < unat limit + 1 - unat (start + sz)"
      using True by (simp add: word_le_nat_alt ac_simps) linarith
    from less [OF this] obtain r where r: "gap_loop mm sz limit (start + 0x1000) = Some r"
      "r \<noteq> 0 \<longrightarrow> r + sz \<le> limit \<and> vma_range_free mm r (r + sz) \<and> (\<exists>k. r = start + 0x1000 + of_nat k * 0x1000)" by blast
    have "\<exists>k. r = start + of_nat k * 0x1000" if nz: "r \<noteq> 0"
    proof -
      obtain k where "r = start + 0x1000 + of_nat k * 0x1000" using r(2) nz by blast
      then have "r = start + of_nat (Suc k) * 0x1000" by (simp add: algebra_simps)
      then show ?thesis by blast
    qed
    then show ?thesis using r True by (subst gap_loop.simps) auto
  qed
qed

lemma vma_find_gap_correct:
  assumes "limit < 0xFFFFF000"
  shows "\<exists>r. vma_find_gap mm sz limit = Some r \<and> (r \<noteq> 0 \<longrightarrow> r + sz \<le> limit \<and> vma_range_free mm r (r + sz))"
  using gap_loop_correct [OF assms, of mm sz "gap_start mm"] by (auto simp: vma_find_gap_def)


text \<open>Changing the permissions of a part of one element.\<close>

lemma vma_ok_around:
  assumes "vma_ok (A @ v # B)"
  shows "vma_ok A" "vma_ok B" "vm_start v < vm_end v" "\<forall>w \<in> set A. vm_end w \<le> vm_start v" "\<forall>w \<in> set B. vm_end v \<le> vm_start w"
    "\<forall>w \<in> set A. vm_start w < vm_start v"
proof -
  show r: "vma_ok A" "vma_ok B" "vm_start v < vm_end v" "\<forall>w \<in> set A. vm_end w \<le> vm_start v" "\<forall>w \<in> set B. vm_end v \<le> vm_start w"
    using assms by auto
  show "\<forall>w \<in> set A. vm_start w < vm_start v" using r(1,4) by (auto simp: vma_ok_def) (meson less_le_trans)
qed

lemma protect_left:
  assumes "mmap mm = A @ v # B" "vma_ok (A @ v # B)" "vm_start v < addr" "addr < vm_end v" "ptrs_ok env (A @ v # B)"
    "vma_new (vm_start v) addr (vm_flags v) (anon_vma_id v) env = (Some n, env')"
  shows "\<exists>A1. vma_add_anon mm (vm_start v) addr (vm_flags v) (anon_vma_id v) env = (mm\<lparr>mmap := A1 @ v # B\<rparr>, env') \<and>
    vma_ok A1 \<and> (\<forall>w \<in> set A1. vm_end w \<le> addr) \<and> region A1 = region A \<union> span (vm_start v) addr (vm_flags v) \<and>
    (\<forall>w \<in> set A1. vm_start w < addr) \<and> (\<forall>w \<in> set A1. vm_ptr w \<noteq> vm_ptr v)"
proof -
  note a = vma_ok_around [OF assms(2)]
  have B: "\<forall>w \<in> set (v # B). vm_start v \<le> vm_start w" using a(3,5) by (auto intro: order.trans less_imp_le)
  obtain A1 m where r: "vma_add_anon mm (vm_start v) addr (vm_flags v) (anon_vma_id v) env = (mm\<lparr>mmap := A1 @ merge_next m (v # B)\<rparr>, env')"
    "vm_end m = addr" "vma_ok (A1 @ [m])" "region (A1 @ [m]) = region A \<union> span (vm_start v) addr (vm_flags v)"
    "m = n \<and> A1 = A \<or> (\<exists>w \<in> set A. m = w\<lparr>vm_end := addr\<rparr> \<and> A = A1 @ [w])"
    using vma_add_anon_shape [OF assms(1) a(6) B assms(3) a(1,4) assms(6)] by blast
  have "\<not> vma_can_merge m v" using r(2) assms(3) by (auto simp: vma_can_merge_def)
  then have "merge_next m (v # B) = m # v # B" by simp
  moreover have "vm_ptr w \<noteq> vm_ptr v" if "w \<in> set (A1 @ [m])" for w
  proof -
    have "vm_ptr w \<in> insert (vma_fresh env) (vm_ptr ` set A)"
      using r(5) that vma_new_ok(1) [OF assms(6)] by auto
    moreover have "vm_ptr v < vma_fresh env" "vm_ptr v \<notin> vm_ptr ` set A" using assms(5) by (simp_all add: ptrs_ok_def)
    ultimately show ?thesis by (metis insert_iff less_irrefl)
  qed
  moreover have "\<forall>w \<in> set (A1 @ [m]). vm_end w \<le> addr"
  proof
    fix w assume "w \<in> set (A1 @ [m])"
    moreover have "vm_end w \<le> vm_start m" "vm_start m < vm_end m" if "w \<in> set A1" using r(3) that by auto
    ultimately show "vm_end w \<le> addr" using r(2) by (cases "w = m") auto
  qed
  moreover have "\<forall>w \<in> set (A1 @ [m]). vm_start w < addr"
    using r(3) \<open>\<forall>w \<in> set (A1 @ [m]). vm_end w \<le> addr\<close> unfolding vma_ok_def by (meson less_le_trans)
  ultimately show ?thesis using r(1,3,4) by (intro exI [of _ "A1 @ [m]"]) simp
qed

lemma protect_right:
  assumes "mmap mm = A @ v # B" "vma_ok A" "\<forall>w \<in> set A. vm_start w < end" "vma_ok B" "vm_start v < end" "end < vm_end v"
    "\<forall>w \<in> set B. vm_end v \<le> vm_start w" "vma_new end (vm_end v) (vm_flags v) (anon_vma_id v) env = (Some n, env')"
    "vma_fresh env > vm_ptr v" "\<forall>w \<in> set B. vm_ptr w \<noteq> vm_ptr v"
  shows "\<exists>B1. vma_add_anon mm end (vm_end v) (vm_flags v) (anon_vma_id v) env = (mm\<lparr>mmap := A @ v # B1\<rparr>, env') \<and>
    vma_ok B1 \<and> (\<forall>w \<in> set B1. end \<le> vm_start w) \<and> region B1 = span end (vm_end v) (vm_flags v) \<union> region B \<and>
    (\<forall>w \<in> set B1. vm_ptr w \<noteq> vm_ptr v)"
proof -
  note n = vma_new_ok [OF assms(8)]
  have tw: "takeWhile (\<lambda>w. vm_start w < end) (A @ v # B) = A @ [v]" "dropWhile (\<lambda>w. vm_start w < end) (A @ v # B) = B"
  proof -
    have "\<forall>w \<in> set B. \<not> vm_start w < end" using assms(6,7) by force
    then show "takeWhile (\<lambda>w. vm_start w < end) (A @ v # B) = A @ [v]" "dropWhile (\<lambda>w. vm_start w < end) (A @ v # B) = B"
      using take_drop_split [of "A @ [v]" "\<lambda>w. vm_start w < end" B] assms(3,5) by simp_all
  qed
  have "\<not> vma_can_merge v n" using n assms(6) by (auto simp: vma_can_merge_def)
  then have r: "vma_add_anon mm end (vm_end v) (vm_flags v) (anon_vma_id v) env = (mm\<lparr>mmap := A @ v # merge_next n B\<rparr>, env')"
    using assms(1,6,8) tw by (simp add: vma_add_anon_def)
  have "vma_ok (n # B)" using n assms(4,6,7) by simp
  from merge_next_correct [OF this] show ?thesis
    using r n assms(9,10) by (intro exI [of _ "merge_next n B"]) auto
qed


definition kmalloc_two :: "vma_env \<Rightarrow> bool" where
  "kmalloc_two env \<longleftrightarrow> fst (kmalloc_ok (kmallocs env)) \<and> fst (kmalloc_ok (snd (kmalloc_ok (kmallocs env))))"

lemma vma_new_SomeI:
  assumes "fst (kmalloc_ok (kmallocs env))"
  shows "\<exists>n env'. vma_new start end flags aid env = (Some n, env') \<and> kmallocs env' = snd (kmalloc_ok (kmallocs env)) \<and>
    vma_fresh env' > vma_fresh env"
  using assms by (auto simp: vma_new_def split: prod.splits)

lemma map_update_other: "\<forall>w \<in> set A. vm_ptr w \<noteq> p \<Longrightarrow> map (\<lambda>w. if vm_ptr w = p then f w else w) A = A"
  by (simp add: map_idI)

lemma protect_vma_correct:
  assumes "vma_ok (mmap mm)" "ptrs_ok env (mmap mm)" "v \<in> set (mmap mm)" "vm_start v \<le> addr" "addr < end" "end \<le> vm_end v"
    "kmalloc_two env"
  shows "\<exists>L env'. protect_vma mm v addr end flags env = (mm\<lparr>mmap := L\<rparr>, env') \<and> vma_ok L \<and>
    region L = (region (mmap mm) - {addr..<end} \<times> UNIV) \<union> span addr end flags"
proof -
  obtain A B where L: "mmap mm = A @ v # B" using assms(3) by (metis split_list)
  note ok = assms(1) [unfolded L] and ps = assms(2) [unfolded L]
  note a = vma_ok_around [OF ok]
  have pv: "vm_ptr v < vma_fresh env" "\<forall>w \<in> set A. vm_ptr w \<noteq> vm_ptr v" "\<forall>w \<in> set B. vm_ptr w \<noteq> vm_ptr v"
    using ps by (simp_all add: ptrs_ok_def) (metis imageI)+
  let ?p1 = "if addr > vm_start v then vma_add_anon mm (vm_start v) addr (vm_flags v) (anon_vma_id v) env else (mm, env)"
  have "\<exists>A1 env1. ?p1 = (mm\<lparr>mmap := A1 @ v # B\<rparr>, env1) \<and> vma_ok A1 \<and> (\<forall>w \<in> set A1. vm_end w \<le> addr) \<and>
      region A1 = region A \<union> span (vm_start v) addr (vm_flags v) \<and> (\<forall>w \<in> set A1. vm_start w < end) \<and>
      (\<forall>w \<in> set A1. vm_ptr w \<noteq> vm_ptr v) \<and> vm_ptr v < vma_fresh env1 \<and> fst (kmalloc_ok (kmallocs env1))"
  proof (cases "addr > vm_start v")
    case False
    then have "vm_start v = addr" using assms(4) by simp
    then have "\<forall>w \<in> set A. vm_start w < end" using a(6) assms(5) by force
    moreover have "mm\<lparr>mmap := A @ v # B\<rparr> = mm" using L by simp
    ultimately show ?thesis
      using a \<open>vm_start v = addr\<close> pv assms(7) by (intro exI [of _ A] exI [of _ env]) (simp add: kmalloc_two_def span_def)
  next
    case True
    obtain n env1 where n: "vma_new (vm_start v) addr (vm_flags v) (anon_vma_id v) env = (Some n, env1)"
      "kmallocs env1 = snd (kmalloc_ok (kmallocs env))" "vma_fresh env1 > vma_fresh env"
      using vma_new_SomeI assms(7) unfolding kmalloc_two_def by blast
    have "addr < vm_end v" using assms(5,6) by simp
    from protect_left [OF L ok True this ps n(1)] obtain A1 where A1:
      "vma_add_anon mm (vm_start v) addr (vm_flags v) (anon_vma_id v) env = (mm\<lparr>mmap := A1 @ v # B\<rparr>, env1)"
      "vma_ok A1" "\<forall>w \<in> set A1. vm_end w \<le> addr" "region A1 = region A \<union> span (vm_start v) addr (vm_flags v)"
      "\<forall>w \<in> set A1. vm_start w < addr" "\<forall>w \<in> set A1. vm_ptr w \<noteq> vm_ptr v" by blast
    have "\<forall>w \<in> set A1. vm_start w < end" using A1(5) assms(5) by force
    then show ?thesis using True A1 n(2,3) pv(1) assms(7) by (intro exI [of _ A1] exI [of _ env1]) (simp add: kmalloc_two_def)
  qed
  then obtain A1 env1 where p1: "?p1 = (mm\<lparr>mmap := A1 @ v # B\<rparr>, env1)" "vma_ok A1" "\<forall>w \<in> set A1. vm_end w \<le> addr"
    "region A1 = region A \<union> span (vm_start v) addr (vm_flags v)" "\<forall>w \<in> set A1. vm_start w < end"
    "\<forall>w \<in> set A1. vm_ptr w \<noteq> vm_ptr v" "vm_ptr v < vma_fresh env1" "fst (kmalloc_ok (kmallocs env1))" by blast
  let ?p2 = "if end < vm_end v then vma_add_anon (mm\<lparr>mmap := A1 @ v # B\<rparr>) end (vm_end v) (vm_flags v) (anon_vma_id v) env1
    else (mm\<lparr>mmap := A1 @ v # B\<rparr>, env1)"
  have "\<exists>B1 env2. ?p2 = (mm\<lparr>mmap := A1 @ v # B1\<rparr>, env2) \<and> vma_ok B1 \<and> (\<forall>w \<in> set B1. end \<le> vm_start w) \<and>
      region B1 = span end (vm_end v) (vm_flags v) \<union> region B \<and> (\<forall>w \<in> set B1. vm_ptr w \<noteq> vm_ptr v)"
  proof (cases "end < vm_end v")
    case False
    then have "vm_end v = end" using assms(6) by simp
    then show ?thesis using a pv by (intro exI [of _ B] exI [of _ env1]) (simp add: span_def)
  next
    case True
    obtain n env2 where n: "vma_new end (vm_end v) (vm_flags v) (anon_vma_id v) env1 = (Some n, env2)"
      using vma_new_SomeI [OF p1(8)] by blast
    have "vm_start v < end" using assms(4,5) by simp
    from protect_right [OF _ p1(2,5) a(2) this True a(5) n p1(7) pv(3), of "mm\<lparr>mmap := A1 @ v # B\<rparr>"] show ?thesis
      using True by auto
  qed
  then obtain B1 env2 where p2: "?p2 = (mm\<lparr>mmap := A1 @ v # B1\<rparr>, env2)" "vma_ok B1" "\<forall>w \<in> set B1. end \<le> vm_start w"
    "region B1 = span end (vm_end v) (vm_flags v) \<union> region B" "\<forall>w \<in> set B1. vm_ptr w \<noteq> vm_ptr v" by blast
  let ?v = "v\<lparr>vm_start := addr, vm_end := end, vm_flags := flags\<rparr>"
  have r: "protect_vma mm v addr end flags env = (mm\<lparr>mmap := A1 @ ?v # B1\<rparr>, env2)"
    unfolding protect_vma_def p1(1) Let_def prod.case p2(1)
    by (simp add: vma_update_def map_update_other [OF p1(6)] map_update_other [OF p2(5)])
  have "vm_end x \<le> vm_start y" if "x \<in> set A1" "y \<in> set B1" for x y
    using p1(3) p2(3) that assms(5) by (meson less_imp_le order.trans)
  then have "vma_ok (A1 @ ?v # B1)" using p1(2,3) p2(2,3) assms(5) by auto
  moreover have "region (A1 @ ?v # B1) = (region (mmap mm) - {addr..<end} \<times> UNIV) \<union> span addr end flags"
  proof -
    have "region A \<inter> {addr..<end} \<times> UNIV = {}" "region B \<inter> {addr..<end} \<times> UNIV = {}"
      using a(4,5) assms(4-6) by (fastforce simp: region_def span_def)+
    moreover have "span (vm_start v) (vm_end v) (vm_flags v) - {addr..<end} \<times> UNIV =
        span (vm_start v) addr (vm_flags v) \<union> span end (vm_end v) (vm_flags v)"
      using assms(4-6) by (auto simp: span_def)
    ultimately show ?thesis unfolding L by (auto simp: p1(4) p2(4))
  qed
  ultimately show ?thesis using r by blast
qed


subsection \<open>Properties\<close>

lemma range_free_region:
  "vma_range_free mm a b \<longleftrightarrow> (\<forall>v \<in> set (mmap mm). b \<le> vm_start v \<or> vm_end v \<le> a)"
  by (auto simp: vma_range_free_def list_all_iff)

lemma range_free_disjoint:
  assumes "vma_range_free mm a b"
  shows "region (mmap mm) \<inter> {a..<b} \<times> UNIV = {}"
  using assms by (fastforce simp: range_free_region region_def span_def)

lemma do_mmap_choice:
  assumes "limit < 0xFFFFF000"
  shows "\<exists>a. (if addr \<noteq> 0 then
           if addr < 0x1000 then Some 0
           else if addr AND 0xFFF \<noteq> 0 then Some 0
           else if addr + len > limit then Some 0
           else if \<not> vma_range_free mm addr (addr + len) then Some 0
           else Some addr
         else vma_find_gap mm len limit) = Some a \<and>
    (a \<noteq> 0 \<longrightarrow> a + len \<le> limit \<and> vma_range_free mm a (a + len))"
  using vma_find_gap_correct [OF assms, of mm len] by auto

text \<open>
  C20: \<open>do_mmap\<close> on a well-formed address space whose limit is not in the last page ends.  If it returns 0, nothing changed.
  If it returns \<open>r\<close> and \<open>r + len\<close> does not wrap around, the range was free and ends at or below the limit, the list stays well
  formed and maps exactly this range in addition, with the requested permissions; only when the list
  element could not be allocated it maps nothing more.  If \<open>r + len\<close> wraps, nothing is mapped.
\<close>
theorem do_mmap_spec:
  assumes "vma_ok (mmap mm)" "mm_limit mm < 0xFFFFF000" "len = page_align_up len0"
  shows "\<exists>r mm' env'. do_mmap mm addr len0 prot env = Some (r, mm', env') \<and>
    (if r = 0 then mm' = mm \<and> env' = env
     else if r < r + len then
       r + len \<le> mm_limit mm \<and> region (mmap mm) \<inter> {r..<r + len} \<times> UNIV = {} \<and> vma_ok (mmap mm') \<and>
       region (mmap mm') = region (mmap mm) \<union>
         (if fst (kmalloc_ok (kmallocs env)) then span r (r + len) (prot_flags prot) else {})
     else mm' = mm)"
proof (cases "len0 = 0 \<or> len = 0 \<or> mm_limit mm \<le> 0x1000")
  case True
  then show ?thesis using assms(3) by (auto simp: do_mmap_def Let_def)
next
  case False
  define c where "c = (if addr \<noteq> 0 then
           if addr < 0x1000 then Some 0
           else if addr AND 0xFFF \<noteq> 0 then Some 0
           else if addr + len > mm_limit mm then Some 0
           else if \<not> vma_range_free mm addr (addr + len) then Some 0
           else Some addr
         else vma_find_gap mm len (mm_limit mm))"
  obtain a where a: "c = Some a" "a \<noteq> 0 \<longrightarrow> a + len \<le> mm_limit mm \<and> vma_range_free mm a (a + len)"
    using do_mmap_choice [OF assms(2)] unfolding c_def by blast
  obtain mm' env' where v: "vma_add mm a (a + len) (prot_flags prot) env = (mm', env')" by (metis surj_pair)
  have d: "do_mmap mm addr len0 prot env = (if a = 0 then Some (0, mm, env) else Some (a, mm', env'))"
  proof -
    have f: "(len0 = 0) = False" "(len = 0) = False" "(mm_limit mm \<le> 0x1000) = False" using False by auto
    show ?thesis unfolding do_mmap_def Let_def assms(3) [symmetric] c_def [symmetric] f if_False a(1) option.case v by simp
  qed
  show ?thesis
  proof (cases "a = 0 \<or> \<not> a < a + len")
    case True
    then have "a \<noteq> 0 \<Longrightarrow> mm' = mm" using v by (simp add: vma_add_def not_less)
    then show ?thesis using d True by auto
  next
    case r: False
    then have f: "a + len \<le> mm_limit mm" "vma_range_free mm a (a + len)" using a(2) by auto
    have "\<exists>L. mm' = mm\<lparr>mmap := L\<rparr> \<and> vma_ok L \<and> region L =
        (if fst (kmalloc_ok (kmallocs env)) then region (mmap mm) \<union> span a (a + len) (prot_flags prot) else region (mmap mm))"
      using r by (intro vma_add_correct [OF assms(1) f(2) [unfolded range_free_region] _ v]) simp
    then show ?thesis using d r f(1) range_free_disjoint [OF f(2)] by auto
  qed
qed

text \<open>
  C21: A fixed address whose end wraps around passes the checks of \<open>do_mmap\<close>: the address is returned as mapped,
  also when it lies in the kernel half of the address space, while nothing is entered in the list.
\<close>
theorem do_mmap_wraps:
  assumes "len = page_align_up len0" "0x1000 \<le> addr" "addr AND 0xFFF = 0" "addr + len < addr" "addr + len \<le> mm_limit mm"
    "vma_range_free mm addr (addr + len)" "0x1000 < mm_limit mm" "len \<noteq> 0"
  shows "do_mmap mm addr len0 prot env = Some (addr, mm, env)"
proof -
  have n: "addr \<noteq> 0" "len0 \<noteq> 0" "\<not> addr < 0x1000" "\<not> mm_limit mm < addr + len" "\<not> mm_limit mm \<le> 0x1000" "addr + len \<le> addr"
    using assms by (auto simp: page_align_up_def)
  then have "vma_add mm addr (addr + len) (prot_flags prot) env = (mm, env)" by (simp add: vma_add_def)
  then show ?thesis using n assms by (simp add: do_mmap_def Let_def)
qed


definition demo_mm :: mm_struct where
  "demo_mm = \<lparr>pgd = 0xC0100000, start_code = 0x400000, end_code = 0x402000, start_stack = 0xBFFF0000, start_brk = 0, brk = 0,
     mmap = [\<lparr>vm_ptr = 0, vm_start = 0x400000, vm_end = 0x402000, vm_flags = 5, anon_vma_id = 1\<rparr>]\<rparr>"

definition demo_env :: vma_env where
  "demo_env = \<lparr>next_anon_vma_id = 2, vma_fresh = 1, kmallocs = []\<rparr>"

lemma demo_mm_ok: "vma_ok (mmap demo_mm)"
  by (simp add: demo_mm_def)

theorem do_mmap_spec_witness:
  "vma_ok (mmap demo_mm) \<and> (\<exists>mm' env'. do_mmap demo_mm 0x500000 0x1800 3 demo_env = Some (0x500000, mm', env') \<and>
     vma_ok (mmap mm') \<and> region (mmap mm') = region (mmap demo_mm) \<union> span 0x500000 0x502000 3)"
proof -
  have "map_option fst (do_mmap demo_mm 0x500000 0x1800 3 demo_env) = Some 0x500000" by code_simp
  moreover have "mm_limit demo_mm < 0xFFFFF000" by code_simp
  moreover have "page_align_up 0x1800 = 0x2000" "prot_flags 3 = 3" by code_simp+
  ultimately show ?thesis using do_mmap_spec [OF demo_mm_ok, of "0x2000" "0x1800" "0x500000" 3 demo_env] demo_mm_ok
    by (auto simp: demo_env_def)
qed

theorem do_mmap_wraps_witness: "do_mmap demo_mm 0xFFFFF000 0x1000 3 demo_env = Some (0xFFFFF000, demo_mm, demo_env)"
  by (rule do_mmap_wraps [where len = "0x1000"]) code_simp+


end
