(* ===== verification/Rmap.thy ===== *)
theory Rmap
  imports Page_Alloc
begin

text \<open>
  The reverse mappings \<open>mm/rmap.c\<close>: each page knows the address spaces and addresses that map it.  The
  first mapping is kept in the page itself, the others in the list \<open>rmap_list\<close> of (address space,
  address) pairs, newest first.  An address space is named by a number.
\<close>

subsection \<open>Operations\<close>

definition page_add_anon_rmap ::
  "nat \<Rightarrow> u32 \<Rightarrow> u32 \<Rightarrow> 'a mm_state_scheme \<Rightarrow> outcomes \<Rightarrow> 'a mm_state_scheme \<times> outcomes" where
  "page_add_anon_rmap mm vaddr phys s oc =
     (case pfn_to_page s (unat (phys div 4096)) of
        None \<Rightarrow> (s, oc)
      | Some pg \<Rightarrow>
          let p = mem_map s pg
          in if mapcount p = 0 then
               (lru_add_inactive (Some pg)
                  (upd_page pg (\<lambda>q. q\<lparr>map_mm := Some mm, map_vaddr := vaddr, mapcount := 1\<rparr>) s), oc)
             else if map_mm p = Some mm \<and> map_vaddr p = vaddr then (s, oc)
             else if (mm, vaddr) \<in> set (rmap_list p) then (s, oc)
             else
               case kmalloc_ok oc of
                 (False, oc') \<Rightarrow> (s, oc')
               | (True, oc') \<Rightarrow>
                   (upd_page pg (\<lambda>q. q\<lparr>rmap_list := (mm, vaddr) # rmap_list q,
                       mapcount := (if mapcount q < 0xFFFF then mapcount q + 1 else mapcount q)\<rparr>) s, oc'))"

text \<open>Decrementing the count and leaving the inactive list at zero.\<close>

definition drop_mapcount :: "nat \<Rightarrow> 'a mm_state_scheme \<Rightarrow> 'a mm_state_scheme" where
  "drop_mapcount pg s =
     (let s1 = upd_page pg (\<lambda>q. q\<lparr>mapcount := mapcount q - 1\<rparr>) s
      in if mapcount (mem_map s1 pg) = 0 then lru_del (Some pg) s1 else s1)"

definition page_remove_rmap :: "nat \<Rightarrow> u32 \<Rightarrow> u32 \<Rightarrow> 'a mm_state_scheme \<Rightarrow> 'a mm_state_scheme" where
  "page_remove_rmap mm vaddr phys s =
     (case pfn_to_page s (unat (phys div 4096)) of
        None \<Rightarrow> s
      | Some pg \<Rightarrow>
          let p = mem_map s pg
          in if mapcount p = 0 then s
             else if map_mm p = Some mm \<and> map_vaddr p = vaddr then
               if mapcount p = 1 then
                 lru_del (Some pg) (upd_page pg (\<lambda>q. q\<lparr>map_mm := None, map_vaddr := 0, mapcount := 0\<rparr>) s)
               else
                 (case rmap_list p of
                    (m, v) # rest \<Rightarrow>
                      drop_mapcount pg (upd_page pg (\<lambda>q. q\<lparr>rmap_list := rest, map_mm := Some m, map_vaddr := v\<rparr>) s)
                  | [] \<Rightarrow> drop_mapcount pg (upd_page pg (\<lambda>q. q\<lparr>map_mm := None, map_vaddr := 0\<rparr>) s))
             else if (mm, vaddr) \<in> set (rmap_list p) then
               drop_mapcount pg (upd_page pg (\<lambda>q. q\<lparr>rmap_list := remove1 (mm, vaddr) (rmap_list q)\<rparr>) s)
             else s)"

definition page_dup_rmap ::
  "nat \<Rightarrow> nat \<Rightarrow> u32 \<Rightarrow> u32 \<Rightarrow> 'a mm_state_scheme \<Rightarrow> outcomes \<Rightarrow> 'a mm_state_scheme \<times> outcomes" where
  "page_dup_rmap src_mm dst_mm vaddr phys s oc = page_add_anon_rmap dst_mm vaddr phys s oc"

definition page_mapcount :: "u32 \<Rightarrow> 'a mm_state_scheme \<Rightarrow> nat" where
  "page_mapcount phys s =
     (case pfn_to_page s (unat (phys div 4096)) of None \<Rightarrow> 0 | Some pg \<Rightarrow> mapcount (mem_map s pg))"

subsection \<open>The set of mappings of a page\<close>

definition rmaps :: "page \<Rightarrow> (nat \<times> u32) list" where
  "rmaps p = (if mapcount p = 0 then [] else (case map_mm p of Some m \<Rightarrow> [(m, map_vaddr p)] | None \<Rightarrow> []) @ rmap_list p)"

text \<open>A page whose record of its mappings is sound; the count saturates at \<open>0xFFFF\<close>.\<close>

definition rmap_ok :: "page \<Rightarrow> bool" where
  "rmap_ok p \<longleftrightarrow> (if mapcount p = 0 then map_mm p = None \<and> rmap_list p = []
     else map_mm p \<noteq> None \<and> distinct (rmaps p) \<and> length (rmaps p) = mapcount p \<and> mapcount p < 0xFFFF)"

text \<open>The parts of a page that matter here; \<open>lru_add_inactive\<close> and \<open>lru_del\<close> keep them.\<close>

definition rmap_view :: "page \<Rightarrow> nat \<times> nat option \<times> u32 \<times> (nat \<times> u32) list" where
  "rmap_view p = (mapcount p, map_mm p, map_vaddr p, rmap_list p)"

lemma rmap_view_cong: "rmap_view p = rmap_view q \<Longrightarrow> rmaps p = rmaps q \<and> rmap_ok p = rmap_ok q \<and> mapcount p = mapcount q"
proof -
  assume "rmap_view p = rmap_view q"
  then have e: "mapcount p = mapcount q" "map_mm p = map_mm q" "map_vaddr p = map_vaddr q" "rmap_list p = rmap_list q"
    by (simp_all add: rmap_view_def)
  then have r: "rmaps p = rmaps q" by (simp only: rmaps_def)
  then show ?thesis using e by (simp only: rmap_ok_def)
qed

lemma rmap_view_lru [simp]:
  "rmap_view (mem_map (lru_add_inactive pg s) f) = rmap_view (mem_map s f)"
  "rmap_view (mem_map (lru_del pg s) f) = rmap_view (mem_map s f)"
proof -
  have "mem_map (upd_zone z g s) = mem_map s" for z g and s :: "'a mm_state_scheme" by (cases z) simp_all
  then show "rmap_view (mem_map (lru_add_inactive pg s) f) = rmap_view (mem_map s f)"
    "rmap_view (mem_map (lru_del pg s) f) = rmap_view (mem_map s f)"
    by (auto simp: lru_add_inactive_def lru_del_def upd_page_def rmap_view_def Let_def split: option.split)
qed


lemma rmaps_upd_idle:
  assumes "rmap_ok p" "mapcount p = 0"
  shows "rmaps (p\<lparr>map_mm := Some mm, map_vaddr := v, mapcount := 1\<rparr>) = [(mm, v)]"
    "rmap_ok (p\<lparr>map_mm := Some mm, map_vaddr := v, mapcount := 1\<rparr>)" "rmaps p = []"
  using assms by (auto simp: rmap_ok_def rmaps_def)

lemma rmaps_primary:
  assumes "rmap_ok p" "mapcount p \<noteq> 0"
  obtains m where "map_mm p = Some m" "rmaps p = (m, map_vaddr p) # rmap_list p"
  using assms by (cases "map_mm p") (auto simp: rmap_ok_def rmaps_def)

text \<open>
  Adding and removing on the level of one page.  \<open>f\<close> is the frame number of the physical address.
\<close>

lemma page_add_correct:
  assumes "pfn_to_page s (unat (phys div 4096)) = Some f" "rmap_ok (mem_map s f)" "mapcount (mem_map s f) < 0xFFFE"
    "page_add_anon_rmap mm v phys s oc = (s', oc')"
  shows "rmap_ok (mem_map s' f)"
    "set (rmaps (mem_map s' f)) = (if mapcount (mem_map s f) = 0 \<or> fst (kmalloc_ok oc) \<or> (mm, v) \<in> set (rmaps (mem_map s f))
       then insert (mm, v) (set (rmaps (mem_map s f))) else set (rmaps (mem_map s f)))"
proof -
  let ?p = "mem_map s f"
  have "rmap_ok (mem_map s' f) \<and> set (rmaps (mem_map s' f)) =
    (if mapcount ?p = 0 \<or> fst (kmalloc_ok oc) \<or> (mm, v) \<in> set (rmaps ?p) then insert (mm, v) (set (rmaps ?p)) else set (rmaps ?p))"
  proof (cases "mapcount ?p = 0")
    case True
    let ?u = "upd_page f (\<lambda>q. q\<lparr>map_mm := Some mm, map_vaddr := v, mapcount := 1\<rparr>) s"
    have "s' = lru_add_inactive (Some f) ?u" using assms(1,4) True by (simp add: page_add_anon_rmap_def)
    then have "rmap_view (mem_map s' f) = rmap_view (?p\<lparr>map_mm := Some mm, map_vaddr := v, mapcount := 1\<rparr>)" by simp
    from rmap_view_cong [OF this] show ?thesis using rmaps_upd_idle(1,2) [OF assms(2) True, where mm = mm and v = v] rmaps_upd_idle(3) [OF assms(2) True] True by simp
  next
    case False
    obtain m where m: "map_mm ?p = Some m" "rmaps ?p = (m, map_vaddr ?p) # rmap_list ?p"
      by (rule rmaps_primary [OF assms(2) False])
    show ?thesis
    proof (cases "(mm, v) \<in> set (rmaps ?p) \<or> \<not> fst (kmalloc_ok oc)")
      case True
      then have "mem_map s' f = ?p" using assms(1,4) False m
        by (auto simp: page_add_anon_rmap_def Let_def split: if_splits prod.splits bool.splits)
      then show ?thesis using True assms(2) False by auto
    next
      case new: False
      then have "mem_map s' f = ?p\<lparr>rmap_list := (mm, v) # rmap_list ?p, mapcount := mapcount ?p + 1\<rparr>"
        using assms(1,3,4) False m
        by (auto simp: page_add_anon_rmap_def Let_def split: if_splits prod.splits bool.splits)
      then show ?thesis using new assms(2,3) False m by (auto simp: rmap_ok_def rmaps_def)
    qed
  qed
  then show "rmap_ok (mem_map s' f)"
    "set (rmaps (mem_map s' f)) = (if mapcount ?p = 0 \<or> fst (kmalloc_ok oc) \<or> (mm, v) \<in> set (rmaps ?p)
       then insert (mm, v) (set (rmaps ?p)) else set (rmaps ?p))" by blast+
qed

lemma drop_mapcount_view:
  "rmap_view (mem_map (drop_mapcount f s) f) = rmap_view ((mem_map s f)\<lparr>mapcount := mapcount (mem_map s f) - 1\<rparr>)"
  by (simp add: drop_mapcount_def Let_def)

lemma page_remove_correct:
  assumes "pfn_to_page s (unat (phys div 4096)) = Some f" "rmap_ok (mem_map s f)" "page_remove_rmap mm v phys s = s'"
  shows "rmap_ok (mem_map s' f)" "set (rmaps (mem_map s' f)) = set (rmaps (mem_map s f)) - {(mm, v)}"
proof -
  let ?p = "mem_map s f"
  have "rmap_ok (mem_map s' f) \<and> set (rmaps (mem_map s' f)) = set (rmaps ?p) - {(mm, v)}"
  proof (cases "(mm, v) \<in> set (rmaps ?p)")
    case False
    have "s' = s"
    proof (cases "mapcount ?p = 0")
      case True
      then show ?thesis using assms(1,3) by (simp add: page_remove_rmap_def)
    next
      case nz: False
      obtain m where "map_mm ?p = Some m" "rmaps ?p = (m, map_vaddr ?p) # rmap_list ?p"
        by (rule rmaps_primary [OF assms(2) nz])
      then show ?thesis using False nz assms(1,3) by (auto simp: page_remove_rmap_def Let_def)
    qed
    then show ?thesis using False assms(2) by simp
  next
    case True
    then have nz: "mapcount ?p \<noteq> 0" by (cases "mapcount ?p = 0") (simp_all add: rmaps_def)
    obtain m where m: "map_mm ?p = Some m" "rmaps ?p = (m, map_vaddr ?p) # rmap_list ?p"
      by (rule rmaps_primary [OF assms(2) nz])
    have len: "mapcount ?p = Suc (length (rmap_list ?p))" "distinct ((m, map_vaddr ?p) # rmap_list ?p)" "mapcount ?p < 0xFFFF"
      using assms(2) nz m by (auto simp: rmap_ok_def)
    consider (one) "m = mm" "map_vaddr ?p = v" "rmap_list ?p = []"
      | (first) m' v' rest where "m = mm" "map_vaddr ?p = v" "rmap_list ?p = (m', v') # rest"
      | (other) "(m, map_vaddr ?p) \<noteq> (mm, v)" "(mm, v) \<in> set (rmap_list ?p)"
      using True m by (cases "rmap_list ?p") auto
    then show ?thesis
    proof cases
      case one
      then have "rmap_view (mem_map s' f) = rmap_view (?p\<lparr>map_mm := None, map_vaddr := 0, mapcount := 0\<rparr>)"
        using assms(1,3) m len by (auto simp: page_remove_rmap_def Let_def)
      from rmap_view_cong [OF this] show ?thesis using one m by (simp add: rmaps_def rmap_ok_def)
    next
      case (first m' v' rest)
      then have "rmap_view (mem_map s' f) =
          rmap_view (?p\<lparr>rmap_list := rest, map_mm := Some m', map_vaddr := v', mapcount := mapcount ?p - 1\<rparr>)"
        using assms(1,3) m len by (auto simp: page_remove_rmap_def Let_def drop_mapcount_view)
      from rmap_view_cong [OF this] show ?thesis using first m len by (auto simp: rmaps_def rmap_ok_def)
    next
      case other
      then have e: "rmap_view (mem_map s' f) =
          rmap_view (?p\<lparr>rmap_list := remove1 (mm, v) (rmap_list ?p), mapcount := mapcount ?p - 1\<rparr>)"
        using assms(1,3) m nz by (auto simp: page_remove_rmap_def Let_def drop_mapcount_view)
      have "rmap_list ?p \<noteq> []" using other(2) by auto
      then have "0 < length (rmap_list ?p)" by simp
      then show ?thesis using rmap_view_cong [OF e] other m len
        by (auto simp: rmaps_def rmap_ok_def length_remove1)
    qed
  qed
  then show "rmap_ok (mem_map s' f)" "set (rmaps (mem_map s' f)) = set (rmaps ?p) - {(mm, v)}" by blast+
qed


subsection \<open>What freeing pages and changing their mappings leaves alone\<close>

text \<open>
  Nothing but the free lists, the inactive lists and the entries of the page array change: in particular not the part of
  the state outside the allocator.
\<close>

definition keeps_config :: "'a mm_state_scheme \<Rightarrow> 'a mm_state_scheme \<Rightarrow> bool" where
  "keeps_config s s' \<longleftrightarrow> same_config s s' \<and> total_pages s' = total_pages s \<and> bootmem s' = bootmem s \<and>
     mm_state.more s' = mm_state.more s \<and> (\<forall>z. watermark (get_zone z s') = watermark (get_zone z s))"

lemma keeps_config_refl [simp]: "keeps_config s s"
  by (simp add: keeps_config_def)

lemma keeps_config_trans: "keeps_config s t \<Longrightarrow> keeps_config t u \<Longrightarrow> keeps_config s u"
  by (auto simp: keeps_config_def intro: same_config_trans)

lemma keeps_upd_page [simp]: "keeps_config s (upd_page p f s)"
  by (simp add: keeps_config_def same_config_def same_shape_def) (simp add: upd_page_def)

lemma keeps_upd_zone:
  assumes "\<And>zn. start_pfn (f zn) = start_pfn zn \<and> spanned_pages (f zn) = spanned_pages zn \<and> watermark (f zn) = watermark zn"
  shows "keeps_config s (upd_zone z f s)"
proof -
  have "get_zone y (upd_zone z f s) = (if y = z then f (get_zone y s) else get_zone y s)" for y by (cases y; cases z) simp_all
  then show ?thesis using assms by (cases z) (simp_all add: keeps_config_def same_config_def same_shape_def)
qed

lemma keeps_lru [simp]: "keeps_config s (lru_del pg s)" "keeps_config s (lru_add_inactive pg s)"
proof -
  have z: "keeps_config s (upd_zone z (\<lambda>zn. zn\<lparr>nr_inactive := n zn, inactive_list := l zn\<rparr>) s)"
    "keeps_config s (upd_zone z (\<lambda>zn. zn\<lparr>inactive_list := l zn, nr_inactive := n zn\<rparr>) s)" for z n l
    by (rule keeps_upd_zone; simp)+
  show "keeps_config s (lru_del pg s)" "keeps_config s (lru_add_inactive pg s)"
    by (auto simp: lru_del_def lru_add_inactive_def z split: option.split intro!: keeps_config_trans [OF z(1) keeps_upd_page] keeps_config_trans [OF z(2) keeps_upd_page])
qed

lemma keeps_erase: "erase s' = erase s \<Longrightarrow> keeps_config s s'"
proof -
  assume e: "erase s' = erase s"
  have *: "f (erase s') = f (erase s)" for f :: "'a mm_state_scheme \<Rightarrow> 'c" using e by simp
  have "start_pfn (get_zone z s') = start_pfn (get_zone z s) \<and> spanned_pages (get_zone z s') = spanned_pages (get_zone z s)" for z
    using * [of zone_dma] * [of zone_normal] by (cases z) (auto simp: erase_def strip_zone_def dest: arg_cong [of _ _ start_pfn] arg_cong [of _ _ spanned_pages])
  then show ?thesis
    using erase_state [OF e] by (simp add: keeps_config_def same_config_def same_shape_def)
qed

lemma keeps_free_page_step:
  assumes "free_page_step idx (cf, s) = (cf', s')"
  shows "keeps_config s s' \<and> rmap_view (mem_map s' q) = rmap_view (mem_map s q)"
proof -
  define s1 where "s1 = (if has_flag (pg_flags (mem_map s idx)) PG_LRU then lru_del (Some idx) s else s)"
  have "keeps_config s s1" "rmap_view (mem_map s1 q) = rmap_view (mem_map s q)" for q by (simp_all add: s1_def)
  moreover have "s' = s \<or> s' = s1 \<or> (\<exists>n. s' = upd_page idx (\<lambda>q. q\<lparr>refcount := n q\<rparr>) s1)"
    using assms by (auto simp: free_page_step_def s1_def [symmetric] pfn_to_page_def Let_def split: if_splits)
  moreover have "rmap_view (mem_map (upd_page idx (\<lambda>q. q\<lparr>refcount := n q\<rparr>) s1) q) = rmap_view (mem_map s1 q)" for n q
    by (simp add: rmap_view_def)
  ultimately show ?thesis by (auto intro: keeps_config_trans)
qed

lemma keeps_free_page_steps:
  assumes "fold free_page_step is (cf, s) = (cf', s')"
  shows "keeps_config s s' \<and> (\<forall>q. rmap_view (mem_map s' q) = rmap_view (mem_map s q))"
  using assms
proof (induction "is" arbitrary: cf s)
  case (Cons i "is")
  obtain c1 s1 where c1: "free_page_step i (cf, s) = (c1, s1)" by (metis surj_pair)
  have "keeps_config s1 s' \<and> (\<forall>q. rmap_view (mem_map s' q) = rmap_view (mem_map s1 q))"
    using Cons.prems c1 by (intro Cons.IH) simp
  then show ?case using keeps_free_page_step [OF c1] by (auto intro: keeps_config_trans)
qed auto

lemma free_pages_keeps:
  assumes "free_pages addr order s = Some (Inr s')"
  shows "keeps_config s s'" "rmap_view (mem_map s' q) = rmap_view (mem_map s q)"
proof -
  obtain cf s1 where st: "fold free_page_step [unat (addr div PAGE_SIZE)..<unat (addr div PAGE_SIZE) + 2 ^ order] (True, s) = (cf, s1)"
    by (metis surj_pair)
  note k = keeps_free_page_steps [OF st]
  from assms st consider "s' = s" | "s' = s1" | "buddy_free_block (pfn_to_zone s1 (unat (addr div PAGE_SIZE))) (unat (addr div PAGE_SIZE)) order s1 = Some s'"
    by (auto simp: free_pages_def Let_def split: if_splits)
  then have "keeps_config s s' \<and> rmap_view (mem_map s' q) = rmap_view (mem_map s q)"
  proof cases
    case 3
    note er = erase_buddy_free_block [OF 3]
    show ?thesis using k keeps_erase [OF er] erase_page [OF er] by (auto simp: rmap_view_def intro: keeps_config_trans)
  qed (use k in auto)
  then show "keeps_config s s'" "rmap_view (mem_map s' q) = rmap_view (mem_map s q)" by auto
qed

lemma keeps_rmap [simp]:
  "keeps_config s (page_remove_rmap mm v phys s)" "keeps_config s (fst (page_add_anon_rmap mm v phys s oc))"
proof -
  have l: "keeps_config s t \<Longrightarrow> keeps_config s (lru_del pg t)" "keeps_config s t \<Longrightarrow> keeps_config s (lru_add_inactive pg t)"
    "keeps_config s t \<Longrightarrow> keeps_config s (upd_page p f t)" for pg p f and s t :: "'a mm_state_scheme"
    by (erule keeps_config_trans, simp)+
  have d: "keeps_config s t \<Longrightarrow> keeps_config s (drop_mapcount p t)" for p and s t :: "'a mm_state_scheme"
    by (simp add: drop_mapcount_def Let_def l)
  show "keeps_config s (page_remove_rmap mm v phys s)"
    by (simp add: page_remove_rmap_def Let_def l d split: option.split list.split)
  show "keeps_config s (fst (page_add_anon_rmap mm v phys s oc))"
    by (simp add: page_add_anon_rmap_def Let_def l split: option.split prod.split bool.split)
qed

lemma same_buddy_lru_add [simp]: "same_buddy s (lru_add_inactive pg s)"
proof -
  have "same_buddy s (upd_zone z (\<lambda>zn. zn\<lparr>inactive_list := l zn, nr_inactive := n zn\<rparr>) s)" for z n l
    by (rule same_buddy_upd_zone) simp_all
  moreover have "has_flag (set_flag x PG_LRU) PG_BUDDY = has_flag x PG_BUDDY" for x
    by (simp add: has_flag_def set_flag_def PG_LRU_def PG_BUDDY_def bit.conj_disj_distrib2)
  ultimately show ?thesis
    by (auto simp: lru_add_inactive_def split: option.split intro!: same_buddy_trans [OF _ same_buddy_upd_page])
qed

lemma same_buddy_rmap [simp]:
  "same_buddy s (page_remove_rmap mm v phys s)" "same_buddy s (fst (page_add_anon_rmap mm v phys s oc))"
proof -
  have l: "same_buddy s t \<Longrightarrow> same_buddy s (lru_del pg t)" "same_buddy s t \<Longrightarrow> same_buddy s (lru_add_inactive pg t)"
    for pg and s t :: "'a mm_state_scheme"
    by (erule same_buddy_trans, simp)+
  have u: "same_buddy s t \<Longrightarrow> (\<And>q. pg_flags (f q) = pg_flags q \<and> pg_order (f q) = pg_order q) \<Longrightarrow> same_buddy s (upd_page p f t)"
    for p f and s t :: "'a mm_state_scheme"
    by (erule same_buddy_trans, rule same_buddy_upd_page) simp_all
  have d: "same_buddy s t \<Longrightarrow> same_buddy s (drop_mapcount p t)" for p and s t :: "'a mm_state_scheme"
    by (simp add: drop_mapcount_def Let_def l u)
  show "same_buddy s (page_remove_rmap mm v phys s)"
    by (simp add: page_remove_rmap_def Let_def l u d split: option.split list.split)
  show "same_buddy s (fst (page_add_anon_rmap mm v phys s oc))"
    by (simp add: page_add_anon_rmap_def Let_def l u split: option.split prod.split bool.split)
qed

lemma refcount_rmap [simp]:
  "refcount (mem_map (page_remove_rmap mm v phys s) q) = refcount (mem_map s q)"
  "refcount (mem_map (fst (page_add_anon_rmap mm v phys s oc)) q) = refcount (mem_map s q)"
proof -
  have l: "refcount (mem_map (lru_add_inactive pg s) q) = refcount (mem_map s q)" for pg and s :: "'a mm_state_scheme"
    by (auto simp: lru_add_inactive_def split: option.split)
  show "refcount (mem_map (page_remove_rmap mm v phys s) q) = refcount (mem_map s q)"
    by (auto simp: page_remove_rmap_def drop_mapcount_def Let_def split: option.split list.split)
  show "refcount (mem_map (fst (page_add_anon_rmap mm v phys s oc)) q) = refcount (mem_map s q)"
    by (auto simp: page_add_anon_rmap_def Let_def l split: option.split prod.split bool.split)
qed

subsection \<open>Properties\<close>

text \<open>
  C23: The reverse mapping of a page refines a set of (address space, address) pairs.  From a sound
  record, \<open>page_remove_rmap\<close> gives a sound record of the set without the pair, and
  \<open>page_add_anon_rmap\<close> a sound record of the set with the pair, unless the page was mapped already and the list node
  could not be allocated, when the set stays as it was and the mapping is not recorded.
\<close>
theorem rmap_refines_set:
  assumes "pfn_to_page s (unat (phys div 4096)) = Some f" "rmap_ok (mem_map s f)" "mapcount (mem_map s f) < 0xFFFE"
    "page_add_anon_rmap mm v phys s oc = (s1, oc')" "page_remove_rmap mm v phys s = s2"
  shows "rmap_ok (mem_map s1 f) \<and> rmap_ok (mem_map s2 f) \<and>
    set (rmaps (mem_map s2 f)) = set (rmaps (mem_map s f)) - {(mm, v)} \<and>
    (if mapcount (mem_map s f) \<noteq> 0 \<and> \<not> fst (kmalloc_ok oc)
     then set (rmaps (mem_map s1 f)) = set (rmaps (mem_map s f))
     else set (rmaps (mem_map s1 f)) = insert (mm, v) (set (rmaps (mem_map s f))))"
  using page_add_correct [OF assms(1-4)] page_remove_correct [OF assms(1,2,5)] by (auto simp: insert_absorb)

definition demo_mapped :: mm_state where
  "demo_mapped = upd_page 5 (\<lambda>q. q\<lparr>mapcount := 2, map_mm := Some 1, map_vaddr := 0x400000, rmap_list := [(2, 0x400000)]\<rparr>)
     ((demo_arena ())\<lparr>mem_map_set := True, mem_map_pages := 16\<rparr>)"

theorem rmap_refines_set_witness:
  "set (rmaps (mem_map (fst (page_add_anon_rmap 3 0x400000 0x5000 demo_mapped [])) 5)) =
     {(1, 0x400000), (2, 0x400000), (3, 0x400000)} \<and>
   set (rmaps (mem_map (page_remove_rmap 1 0x400000 0x5000 demo_mapped) 5)) = {(2, 0x400000)}"
proof -
  have p: "pfn_to_page demo_mapped (unat (0x5000 div 4096 :: u32)) = Some 5" by (simp add: pfn_to_page_def demo_mapped_def)
  have m: "rmap_ok (mem_map demo_mapped 5)" "mapcount (mem_map demo_mapped 5) < 0xFFFE"
    "set (rmaps (mem_map demo_mapped 5)) = {(1, 0x400000), (2, 0x400000)}"
    by (auto simp: demo_mapped_def rmap_ok_def rmaps_def)
  have "set (rmaps (mem_map (fst (page_add_anon_rmap 3 0x400000 0x5000 demo_mapped [])) 5)) =
      insert (3, 0x400000) (set (rmaps (mem_map demo_mapped 5)))"
    using rmap_refines_set [OF p m(1,2) prod.collapse [symmetric] refl, of 3 "0x400000" "[]"] by simp
  moreover have "set (rmaps (mem_map (page_remove_rmap 1 0x400000 0x5000 demo_mapped) 5)) =
      set (rmaps (mem_map demo_mapped 5)) - {(1, 0x400000)}"
    using rmap_refines_set [OF p m(1,2) prod.collapse [symmetric] refl, of 1 "0x400000" "[]"] by simp
  ultimately show ?thesis unfolding m(3) by auto
qed

end
