(* ===== verification/Paging.thy ===== *)
theory Paging
  imports Rmap Vma "HOL-Library.Monad_Syntax"
begin

text \<open>
  The page tables of \<open>mm/memory.c\<close> and \<open>arch/x86/include/asm/pgtable.h\<close>.  Physical memory is a function of the frame number and the
  index of a 32-bit word in the frame: page directories, page tables and the pages copied by the kernel
  start at page boundaries, so all accesses have this form.  A pointer to a directory is its virtual
  address in the direct map, 0 for NULL.  The instructions that flush translations have no counterpart.

  Functions that may panic return an option: \<open>None\<close> means that the call does not return, because of a panic
  or of a loop that does not end.
\<close>

subsection \<open>State\<close>

record swap_slot =
  used :: bool
  sdata :: "u32 list option"

record vm_state = mm_state +
  pmem :: "nat \<Rightarrow> nat \<Rightarrow> u32"
  page_directory :: u32
  kernel_directory :: u32
  mm_structs :: "nat \<Rightarrow> mm_struct"
  current_mm :: "nat option"
  venv :: vma_env
  swap_slots :: "nat \<Rightarrow> swap_slot"
  cow_faults :: u32
  cow_copies :: u32
  pf_total :: u32
  pf_present :: u32
  pf_not_present :: u32
  pf_write :: u32
  pf_user :: u32
  pf_kernel :: u32
  pf_reserved :: u32
  pf_prot :: u32
  pf_null :: u32
  pf_kernel_addr :: u32
  pf_out_of_range :: u32

type_synonym 'a vm_shrinker = "'a vm_state_ext shrinker"

definition PTE_PRESENT :: u32 where "PTE_PRESENT = 0x01"
definition PTE_READ_WRITE :: u32 where "PTE_READ_WRITE = 0x02"
definition PTE_USER :: u32 where "PTE_USER = 0x04"
definition PTE_CACHE_DISABLE :: u32 where "PTE_CACHE_DISABLE = 0x10"
definition PTE_COW :: u32 where "PTE_COW = 0x200"

lemmas PTE_defs = PTE_PRESENT_def PTE_READ_WRITE_def PTE_USER_def PTE_CACHE_DISABLE_def PTE_COW_def

definition pgd_index :: "u32 \<Rightarrow> nat" where "pgd_index address = unat (drop_bit 22 address)"
definition pte_index :: "u32 \<Rightarrow> nat" where "pte_index address = unat (drop_bit 12 address AND 1023)"
definition pgd_present :: "u32 \<Rightarrow> bool" where "pgd_present e = has_flag e PTE_PRESENT"
definition pte_present :: "u32 \<Rightarrow> bool" where "pte_present e = has_flag e PTE_PRESENT"
definition pte_user :: "u32 \<Rightarrow> bool" where "pte_user e = has_flag e PTE_USER"
definition pte_write :: "u32 \<Rightarrow> bool" where "pte_write e = has_flag e PTE_READ_WRITE"
definition pte_pfn :: "u32 \<Rightarrow> u32" where "pte_pfn e = e AND NOT 0xFFF"

subsection \<open>The layout of the kernel addresses\<close>

definition memlayout_align_up_u32 :: "u32 \<Rightarrow> u32 \<Rightarrow> u32" where
  "memlayout_align_up_u32 v algn = (if algn = 0 then v else let mask = algn - 1 in (v + mask) AND NOT mask)"

definition memlayout_lowmem_phys_end :: "'a mm_state_scheme \<Rightarrow> u32" where
  "memlayout_lowmem_phys_end s = memlayout_align_up_u32 (lowmem_end (bootmem s)) 0x400000"

definition memlayout_directmap_end :: "'a mm_state_scheme \<Rightarrow> u32" where
  "memlayout_directmap_end s = PAGE_OFFSET + memlayout_lowmem_phys_end s"

definition memlayout_vmalloc_start :: "'a mm_state_scheme \<Rightarrow> u32" where
  "memlayout_vmalloc_start s =
     (let start = memlayout_directmap_end s;
          start' = (if start + 0x800000 \<ge> start then start + 0x800000 else start)
      in memlayout_align_up_u32 start' PAGE_SIZE)"

definition memlayout_vmalloc_end :: u32 where "memlayout_vmalloc_end = 0xFF000000"
definition memlayout_fixaddr_start :: u32 where "memlayout_fixaddr_start = 0xFF000000"

text \<open>\<open>memlayout_directmap_phys_to_virt\<close> panics for an address beyond low memory.\<close>

definition directmap :: "u32 \<Rightarrow> 'a mm_state_scheme \<Rightarrow> u32 option" where
  "directmap phys s =
     (if lowmem_end (bootmem s) \<noteq> 0 \<and> phys \<ge> memlayout_lowmem_phys_end s then None else Some (phys + PAGE_OFFSET))"

definition virt_to_phys_addr :: "u32 \<Rightarrow> u32" where
  "virt_to_phys_addr virt = virt - PAGE_OFFSET"

subsection \<open>Words of physical memory\<close>

definition frame_of :: "u32 \<Rightarrow> nat" where
  "frame_of phys = unat (phys div PAGE_SIZE)"

text \<open>\<open>p[i]\<close> for a pointer \<open>p\<close> into the direct map that starts a page.\<close>

definition rd :: "u32 \<Rightarrow> nat \<Rightarrow> 'a vm_state_scheme \<Rightarrow> u32" where
  "rd p i s = pmem s (frame_of (virt_to_phys_addr p)) i"

definition wr :: "u32 \<Rightarrow> nat \<Rightarrow> u32 \<Rightarrow> 'a vm_state_scheme \<Rightarrow> 'a vm_state_scheme" where
  "wr p i x s = s\<lparr>pmem := (pmem s)(frame_of (virt_to_phys_addr p) :=
      (pmem s (frame_of (virt_to_phys_addr p)))(i := x))\<rparr>"

text \<open>Copying a page out of and into a frame, and clearing it.\<close>

definition frame_words :: "nat \<Rightarrow> 'a vm_state_scheme \<Rightarrow> u32 list" where
  "frame_words f s = map (pmem s f) [0..<1024]"

definition set_frame :: "nat \<Rightarrow> u32 list \<Rightarrow> 'a vm_state_scheme \<Rightarrow> 'a vm_state_scheme" where
  "set_frame f ws s = s\<lparr>pmem := (pmem s)(f := (\<lambda>i. if i < 1024 then ws ! i else pmem s f i))\<rparr>"

definition zero_frame :: "nat \<Rightarrow> 'a vm_state_scheme \<Rightarrow> 'a vm_state_scheme" where
  "zero_frame f s = set_frame f (replicate 1024 0) s"

definition alloc_page :: "'a shrinker \<Rightarrow> u32 \<Rightarrow> 'a mm_state_scheme \<Rightarrow> (u32 \<times> 'a mm_state_scheme) option" where
  "alloc_page shrink gfp_mask s = alloc_pages shrink gfp_mask 0 s"

definition free_page :: "u32 \<Rightarrow> 'a mm_state_scheme \<Rightarrow> 'a mm_state_scheme option" where
  "free_page addr s = (case free_pages addr 0 s of Some (Inr s') \<Rightarrow> Some s' | _ \<Rightarrow> None)"

subsection \<open>Page tables\<close>

definition map_page_ex :: "'a vm_shrinker \<Rightarrow> u32 \<Rightarrow> u32 \<Rightarrow> u32 \<Rightarrow> u32 \<Rightarrow> 'a vm_state_scheme \<Rightarrow> 'a vm_state_scheme option" where
  "map_page_ex shrink dir phys va flags s =
     (if dir = 0 then Some s
      else
        let pde_idx = pgd_index va; pte_idx = pte_index va
        in do {
             (ok, s1) \<leftarrow>
               (if \<not> pgd_present (rd dir pde_idx s) then do {
                  (new_table_phys, s1) \<leftarrow> alloc_page shrink GFP_KERNEL s;
                  (if new_table_phys = 0 then Some (False, s1)
                   else do {
                     new_table \<leftarrow> directmap new_table_phys s1;
                     let s2 = zero_frame (frame_of (virt_to_phys_addr new_table)) s1;
                     let s3 = wr dir pde_idx (new_table_phys OR PTE_READ_WRITE OR PTE_PRESENT) s2;
                     Some (True, if has_flag flags PTE_USER then wr dir pde_idx (rd dir pde_idx s3 OR PTE_USER) s3 else s3)
                   })
                }
                else Some (True, if has_flag flags PTE_USER then wr dir pde_idx (rd dir pde_idx s OR PTE_USER) s else s));
             (if \<not> ok then Some s1
              else do {
                table \<leftarrow> directmap (rd dir pde_idx s1 AND NOT 0xFFF) s1;
                Some (wr table pte_idx (phys OR flags) s1)
              })
           })"

definition map_page :: "'a vm_shrinker \<Rightarrow> u32 \<Rightarrow> u32 \<Rightarrow> 'a vm_state_scheme \<Rightarrow> 'a vm_state_scheme option" where
  "map_page shrink phys va s = map_page_ex shrink (page_directory s) phys va (PTE_READ_WRITE OR PTE_PRESENT) s"

text \<open>
  The common beginning of the functions below: the entry of \<open>va\<close> in the directory, and if it is present the
  table it points to.
\<close>

definition pte_table :: "u32 \<Rightarrow> u32 \<Rightarrow> 'a vm_state_scheme \<Rightarrow> u32 option option" where
  "pte_table dir va s =
     (if dir = 0 then Some None
      else let pde = rd dir (pgd_index va) s
           in if \<not> pgd_present pde then Some None
              else do { table \<leftarrow> directmap (pde AND NOT 0xFFF) s; Some (Some table) })"

definition get_pte_raw :: "u32 \<Rightarrow> u32 \<Rightarrow> 'a vm_state_scheme \<Rightarrow> u32 option" where
  "get_pte_raw dir va s = do {
     t \<leftarrow> pte_table dir va s;
     Some (case t of None \<Rightarrow> 0 | Some table \<Rightarrow> rd table (pte_index va) s) }"

definition get_pte_flags :: "u32 \<Rightarrow> u32 \<Rightarrow> 'a vm_state_scheme \<Rightarrow> u32 option" where
  "get_pte_flags dir va s = do {
     t \<leftarrow> pte_table dir va s;
     Some (case t of None \<Rightarrow> 0
           | Some table \<Rightarrow> let pte = rd table (pte_index va) s in if \<not> pte_present pte then 0 else pte) }"

definition virt_to_phys_pgd :: "u32 \<Rightarrow> u32 \<Rightarrow> 'a vm_state_scheme \<Rightarrow> u32 option" where
  "virt_to_phys_pgd dir va s = do {
     t \<leftarrow> pte_table dir va s;
     Some (case t of None \<Rightarrow> 0xFFFFFFFF
           | Some table \<Rightarrow>
               let pte = rd table (pte_index va) s
               in if \<not> pte_present pte then 0xFFFFFFFF else pte_pfn pte + (va AND 0xFFF)) }"

definition virt_to_phys :: "u32 \<Rightarrow> 'a vm_state_scheme \<Rightarrow> u32 option" where
  "virt_to_phys va s = virt_to_phys_pgd (page_directory s) va s"

definition page_mapped :: "u32 \<Rightarrow> 'a vm_state_scheme \<Rightarrow> bool option" where
  "page_mapped va s = do {
     t \<leftarrow> pte_table (page_directory s) va s;
     Some (case t of None \<Rightarrow> False | Some table \<Rightarrow> pte_present (rd table (pte_index va) s)) }"

definition set_pte_raw :: "u32 \<Rightarrow> u32 \<Rightarrow> u32 \<Rightarrow> 'a vm_state_scheme \<Rightarrow> 'a vm_state_scheme option" where
  "set_pte_raw dir va pte s = do {
     t \<leftarrow> pte_table dir va s;
     Some (case t of None \<Rightarrow> s | Some table \<Rightarrow> wr table (pte_index va) pte s) }"

definition set_pte_flags :: "u32 \<Rightarrow> u32 \<Rightarrow> u32 \<Rightarrow> 'a vm_state_scheme \<Rightarrow> 'a vm_state_scheme option" where
  "set_pte_flags dir va flags s = do {
     t \<leftarrow> pte_table dir va s;
     Some (case t of None \<Rightarrow> s
           | Some table \<Rightarrow>
               let s1 = (if has_flag flags PTE_USER then wr dir (pgd_index va) (rd dir (pgd_index va) s OR PTE_USER) s else s);
                   pte = rd table (pte_index va) s1
               in if \<not> pte_present pte then s1
                  else wr table (pte_index va) ((pte AND NOT 0xFFF) OR (flags AND 0xFFF)) s1) }"

definition unmap_page_pgd :: "u32 \<Rightarrow> u32 \<Rightarrow> 'a vm_state_scheme \<Rightarrow> 'a vm_state_scheme option" where
  "unmap_page_pgd dir va s = do {
     t \<leftarrow> pte_table dir va s;
     Some (case t of None \<Rightarrow> s
           | Some table \<Rightarrow> if \<not> pte_present (rd table (pte_index va) s) then s else wr table (pte_index va) 0 s) }"

definition set_page_user_pgd :: "u32 \<Rightarrow> u32 \<Rightarrow> 'a vm_state_scheme \<Rightarrow> 'a vm_state_scheme option" where
  "set_page_user_pgd dir va s = do {
     t \<leftarrow> pte_table dir va s;
     Some (case t of None \<Rightarrow> s
           | Some table \<Rightarrow>
               let pte = rd table (pte_index va) s
               in if \<not> pte_present pte then s
                  else wr table (pte_index va) (pte OR PTE_USER)
                         (wr dir (pgd_index va) (rd dir (pgd_index va) s OR PTE_USER) s)) }"

definition set_page_user :: "u32 \<Rightarrow> 'a vm_state_scheme \<Rightarrow> 'a vm_state_scheme option" where
  "set_page_user va s = set_page_user_pgd (page_directory s) va s"

definition set_page_readonly_pgd :: "u32 \<Rightarrow> u32 \<Rightarrow> 'a vm_state_scheme \<Rightarrow> 'a vm_state_scheme option" where
  "set_page_readonly_pgd dir va s = do {
     t \<leftarrow> pte_table dir va s;
     Some (case t of None \<Rightarrow> s
           | Some table \<Rightarrow>
               let pte = rd table (pte_index va) s
               in if \<not> pte_present pte then s else wr table (pte_index va) (clear_flag pte PTE_READ_WRITE) s) }"

text \<open>\<open>pgd_clone_kernel\<close> returns 0 for NULL.\<close>

definition pgd_clone_kernel :: "'a vm_shrinker \<Rightarrow> 'a vm_state_scheme \<Rightarrow> (u32 \<times> 'a vm_state_scheme) option" where
  "pgd_clone_kernel shrink s =
     (if kernel_directory s = 0 then Some (0, s)
      else do {
        (new_dir_phys, s1) \<leftarrow> alloc_page shrink GFP_KERNEL s;
        (if new_dir_phys = 0 then Some (0, s1)
         else do {
           new_dir \<leftarrow> directmap new_dir_phys s1;
           let s2 = zero_frame (frame_of (virt_to_phys_addr new_dir)) s1;
           Some (new_dir, fold (\<lambda>i s. wr new_dir i (rd (kernel_directory s) i s) s) [0..<1024] s2)
         })
      })"

definition switch_pgd :: "u32 \<Rightarrow> 'a vm_state_scheme \<Rightarrow> 'a vm_state_scheme" where
  "switch_pgd dir s = (if dir = 0 then s else s\<lparr>page_directory := dir\<rparr>)"

text \<open>\<open>get_pte\<close> returns the entries of the directory and of the table, if both are present.\<close>

definition get_pte :: "u32 \<Rightarrow> u32 \<Rightarrow> 'a vm_state_scheme \<Rightarrow> (u32 \<times> u32) option option" where
  "get_pte dir va s = do {
     t \<leftarrow> pte_table dir va s;
     Some (case t of None \<Rightarrow> None
           | Some table \<Rightarrow>
               let pte = rd table (pte_index va) s
               in if \<not> pte_present pte then None else Some (rd dir (pgd_index va) s, pte)) }"

subsection \<open>Start-up\<close>

text \<open>The table for 4 MiB of the direct map.\<close>

definition direct_table :: "nat \<Rightarrow> nat \<Rightarrow> u32" where
  "direct_table pde_idx i = of_nat (pde_idx * 1024 + i) * PAGE_SIZE OR PTE_READ_WRITE OR PTE_PRESENT"

fun paging_tables :: "'a vm_shrinker \<Rightarrow> nat list \<Rightarrow> 'a vm_state_scheme \<Rightarrow> 'a vm_state_scheme option" where
  "paging_tables shrink [] s = Some s"
| "paging_tables shrink (pde_idx # is) s = do {
     (pt_phys, s1) \<leftarrow> alloc_page shrink GFP_KERNEL s;
     (if pt_phys = 0 then None
      else do {
        pt \<leftarrow> directmap pt_phys s1;
        let s2 = zero_frame (frame_of (virt_to_phys_addr pt)) s1;
        let s3 = fold (\<lambda>i. wr pt i (direct_table pde_idx i)) [0..<1024] s2;
        paging_tables shrink is
          (wr (page_directory s3) (pgd_index PAGE_OFFSET + pde_idx) (pt_phys OR PTE_READ_WRITE OR PTE_PRESENT) s3)
      }) }"

definition paging_low_pdes :: "'a mm_state_scheme \<Rightarrow> nat" where
  "paging_low_pdes s =
     (let n = unat ((lowmem_end (bootmem s) + 0x400000 - 1) div 0x400000)
      in if n > 1024 - pgd_index PAGE_OFFSET then 1024 - pgd_index PAGE_OFFSET else n)"

definition paging_init :: "'a vm_shrinker \<Rightarrow> 'a vm_state_scheme \<Rightarrow> 'a vm_state_scheme option" where
  "paging_init shrink s = do {
     (pgd_phys, s1) \<leftarrow> alloc_page shrink GFP_KERNEL s;
     (if pgd_phys = 0 then Some s1
      else do {
        dir \<leftarrow> directmap pgd_phys s1;
        let s2 = zero_frame (frame_of (virt_to_phys_addr dir)) (s1\<lparr>page_directory := dir\<rparr>);
        s3 \<leftarrow> paging_tables shrink [0..<paging_low_pdes s2] s2;
        let s4 = s3\<lparr>kernel_directory := page_directory s3\<rparr>;
        (if memlayout_directmap_end s4 \<noteq> PAGE_OFFSET + of_nat (paging_low_pdes s2) * 0x400000 then None
         else if memlayout_directmap_end s4 > memlayout_vmalloc_start s4 then None
         else if memlayout_vmalloc_start s4 \<ge> memlayout_vmalloc_end then None
         else Some s4)
      }) }"

subsection \<open>Well-formed page tables\<close>

definition dir_frame :: "u32 \<Rightarrow> nat" where
  "dir_frame d = frame_of (virt_to_phys_addr d)"

definition tbl :: "u32 \<Rightarrow> nat" where
  "tbl e = frame_of (e AND NOT 0xFFF)"

definition in_lowmem :: "u32 \<Rightarrow> 'a mm_state_scheme \<Rightarrow> bool" where
  "in_lowmem p s \<longleftrightarrow> lowmem_end (bootmem s) = 0 \<or> p < memlayout_lowmem_phys_end s"

text \<open>
  The entry of an address, 0 where there is no table: what the two levels of tables stand for.
\<close>

definition pte_view :: "u32 \<Rightarrow> u32 \<Rightarrow> 'a vm_state_scheme \<Rightarrow> u32" where
  "pte_view d va s =
     (let e = rd d (pgd_index va) s in if pgd_present e then pmem s (tbl e) (pte_index va) else 0)"

text \<open>
  The directories \<open>D\<close> are well formed: directories and tables are in frames that are not free, a table is
  not a directory, and a table that two entries share is used at the same index by both, as
  the tables of the kernel half are.
\<close>

definition tables_ok :: "'a vm_state_scheme \<Rightarrow> u32 set \<Rightarrow> bool" where
  "tables_ok s D \<longleftrightarrow> (\<forall>d \<in> D. d \<noteq> 0 \<and> dir_frame d \<notin> free_frames s) \<and> inj_on dir_frame D \<and>
     (\<forall>d \<in> D. \<forall>i < 1024. pgd_present (rd d i s) \<longrightarrow>
        in_lowmem (rd d i s AND NOT 0xFFF) s \<and> tbl (rd d i s) \<notin> free_frames s \<and> tbl (rd d i s) \<notin> dir_frame ` D) \<and>
     (\<forall>d \<in> D. \<forall>d' \<in> D. \<forall>i < 1024. \<forall>j < 1024. pgd_present (rd d i s) \<and> pgd_present (rd d' j s) \<and>
        tbl (rd d i s) = tbl (rd d' j s) \<longrightarrow> i = j)"

lemma tables_okD:
  assumes "tables_ok s D" "d \<in> D"
  shows "d \<noteq> 0" "dir_frame d \<notin> free_frames s"
    "i < 1024 \<Longrightarrow> pgd_present (rd d i s) \<Longrightarrow> in_lowmem (rd d i s AND NOT 0xFFF) s"
    "i < 1024 \<Longrightarrow> pgd_present (rd d i s) \<Longrightarrow> tbl (rd d i s) \<notin> free_frames s"
    "i < 1024 \<Longrightarrow> pgd_present (rd d i s) \<Longrightarrow> d' \<in> D \<Longrightarrow> tbl (rd d i s) \<noteq> dir_frame d'"
    "i < 1024 \<Longrightarrow> j < 1024 \<Longrightarrow> d' \<in> D \<Longrightarrow> pgd_present (rd d i s) \<Longrightarrow> pgd_present (rd d' j s) \<Longrightarrow>
       tbl (rd d i s) = tbl (rd d' j s) \<Longrightarrow> i = j"
  using assms unfolding tables_ok_def by blast+

lemma tables_okI:
  assumes "\<And>d. d \<in> D \<Longrightarrow> d \<noteq> 0 \<and> dir_frame d \<notin> free_frames s" "inj_on dir_frame D"
    "\<And>d i. d \<in> D \<Longrightarrow> i < 1024 \<Longrightarrow> pgd_present (rd d i s) \<Longrightarrow>
       in_lowmem (rd d i s AND NOT 0xFFF) s \<and> tbl (rd d i s) \<notin> free_frames s \<and> (\<forall>d' \<in> D. tbl (rd d i s) \<noteq> dir_frame d')"
    "\<And>d d' i j. d \<in> D \<Longrightarrow> d' \<in> D \<Longrightarrow> i < 1024 \<Longrightarrow> j < 1024 \<Longrightarrow> pgd_present (rd d i s) \<Longrightarrow>
       pgd_present (rd d' j s) \<Longrightarrow> tbl (rd d i s) = tbl (rd d' j s) \<Longrightarrow> i = j"
  shows "tables_ok s D"
  unfolding tables_ok_def
proof (intro conjI ballI allI impI)
  fix d i assume "d \<in> D" "i < 1024" "pgd_present (rd d i s)"
  from assms(3) [OF this] show "in_lowmem (rd d i s AND NOT 0xFFF) s" "tbl (rd d i s) \<notin> free_frames s"
    "tbl (rd d i s) \<notin> dir_frame ` D" by auto
qed (use assms in blast)+

lemma pgd_index_lt [simp]: "pgd_index va < 1024"
proof -
  have "pgd_index va = unat va div 2 ^ 22" by (simp only: pgd_index_def drop_bit_eq_div unat_div) simp
  moreover have "unat va < 2 ^ 32" using unsigned_less [of va, where ?'a = nat] by simp
  ultimately show ?thesis by (simp add: less_mult_imp_div_less)
qed

lemma pte_index_lt [simp]: "pte_index va < 1024"
proof -
  have "unat (drop_bit 12 va AND mask 10) = take_bit 10 (drop_bit 12 (unat va))"
    by (simp only: take_bit_eq_mask [symmetric] unsigned_take_bit_eq unat_drop_bit_eq)
  then show ?thesis unfolding pte_index_def by (simp add: mask_eq_exp_minus_1 take_bit_eq_mod)
qed

lemma pmem_free_frames [simp]: "free_frames (s\<lparr>pmem := m\<rparr>) = free_frames s"
  by (simp add: free_frames_def is_free_def)

lemma rd_wr: "rd p i (wr q j x s) = (if dir_frame p = dir_frame q \<and> i = j then x else rd p i s)"
  by (auto simp: rd_def wr_def dir_frame_def)

lemma pmem_wr: "pmem (wr q j x s) f i = (if f = dir_frame q \<and> i = j then x else pmem s f i)"
  by (simp add: wr_def dir_frame_def)

lemma wr_keeps [simp]:
  "free_frames (wr p i x s) = free_frames s" "bootmem (wr p i x s) = bootmem s" "in_lowmem a (wr p i x s) = in_lowmem a s"
  "mem_map (wr p i x s) = mem_map s" "mm_structs (wr p i x s) = mm_structs s" "swap_slots (wr p i x s) = swap_slots s"
  "page_directory (wr p i x s) = page_directory s" "venv (wr p i x s) = venv s" "kernel_directory (wr p i x s) = kernel_directory s"
  by (simp_all add: wr_def in_lowmem_def memlayout_lowmem_phys_end_def)

lemma table_frame: "dir_frame ((e AND NOT 0xFFF) + PAGE_OFFSET) = tbl e"
  by (simp add: dir_frame_def tbl_def virt_to_phys_addr_def)

lemma rd_table [simp]: "rd ((e AND - 0x1000) + PAGE_OFFSET) i s = pmem s (tbl e) i"
  using table_frame [of e] by (simp add: rd_def dir_frame_def)

lemma directmap_low: "in_lowmem p s \<Longrightarrow> directmap p s = Some (p + PAGE_OFFSET)"
  by (auto simp: directmap_def in_lowmem_def)

lemma pte_table_view:
  assumes "tables_ok s D" "d \<in> D"
  shows "pte_table d va s = Some (if pgd_present (rd d (pgd_index va) s)
     then Some ((rd d (pgd_index va) s AND NOT 0xFFF) + PAGE_OFFSET) else None)"
  using tables_okD(1,3) [OF assms] by (simp add: pte_table_def Let_def directmap_low)

lemma get_pte_raw_view:
  assumes "tables_ok s D" "d \<in> D"
  shows "get_pte_raw d va s = Some (pte_view d va s)"
  unfolding get_pte_raw_def pte_table_view [OF assms]
  by (simp add: pte_view_def Let_def)

lemma get_pte_flags_view:
  assumes "tables_ok s D" "d \<in> D"
  shows "get_pte_flags d va s = Some (if pte_present (pte_view d va s) then pte_view d va s else 0)"
  unfolding get_pte_flags_def pte_table_view [OF assms]
  by (simp add: pte_view_def Let_def pte_present_def has_flag_def)

text \<open>Two addresses of two directories that have the same table entry.\<close>

definition same_pte :: "'a vm_state_scheme \<Rightarrow> u32 \<Rightarrow> u32 \<Rightarrow> u32 \<Rightarrow> u32 \<Rightarrow> bool" where
  "same_pte s d va d' va' \<longleftrightarrow> pgd_present (rd d (pgd_index va) s) \<and> pgd_present (rd d' (pgd_index va') s) \<and>
     tbl (rd d (pgd_index va) s) = tbl (rd d' (pgd_index va') s) \<and> pte_index va = pte_index va'"

text \<open>A store into a table.\<close>

lemma wr_table:
  assumes "tables_ok s D" "d \<in> D" "pgd_present (rd d (pgd_index va) s)"
  fixes x
  defines "s' \<equiv> wr ((rd d (pgd_index va) s AND NOT 0xFFF) + PAGE_OFFSET) (pte_index va) x s"
  shows "d' \<in> D \<Longrightarrow> rd d' i s' = rd d' i s" "tables_ok s' D"
    "d' \<in> D \<Longrightarrow> pte_view d' va' s' = (if same_pte s d va d' va' then x else pte_view d' va' s)"
proof -
  have nd: "dir_frame d' \<noteq> tbl (rd d (pgd_index va) s)" if "d' \<in> D" for d'
    using tables_okD(5) [OF assms(1,2) pgd_index_lt assms(3) that] by simp
  show r: "rd d' i s' = rd d' i s" if "d' \<in> D" for d' i
    using nd [OF that] unfolding s'_def rd_wr table_frame by simp
  show "tables_ok s' D"
    using assms(1) unfolding tables_ok_def by (auto simp: r) (simp_all add: s'_def)
  show "pte_view d' va' s' = (if same_pte s d va d' va' then x else pte_view d' va' s)" if "d' \<in> D"
    unfolding pte_view_def r [OF that] unfolding s'_def pmem_wr table_frame same_pte_def using assms(3) by (auto simp: Let_def)
qed


text \<open>Setting flag bits of a directory entry changes neither what it points to nor whether it is present.\<close>

lemma or_flags_frame:
  assumes "f AND NOT 0xFFF = 0"
  shows "(e OR f) AND NOT 0xFFF = (e :: u32) AND NOT 0xFFF"
proof -
  have "(e OR f) AND NOT 0xFFF = (e AND NOT 0xFFF) OR (f AND NOT 0xFFF)" by (simp only: bit.conj_disj_distrib2)
  then show ?thesis unfolding assms by simp
qed

lemma or_user: "tbl (e OR PTE_USER) = tbl e" "pgd_present (e OR PTE_USER) = pgd_present e"
    "(e OR PTE_USER) AND NOT 0xFFF = e AND NOT 0xFFF"
proof -
  show f: "(e OR PTE_USER) AND NOT 0xFFF = e AND NOT 0xFFF" by (rule or_flags_frame) (simp add: PTE_defs)
  then show "tbl (e OR PTE_USER) = tbl e" by (simp only: tbl_def)
  have "(e OR PTE_USER) AND PTE_PRESENT = e AND PTE_PRESENT"
    by (simp add: bit.conj_disj_distrib2 PTE_defs)
  then show "pgd_present (e OR PTE_USER) = pgd_present e" by (simp add: pgd_present_def has_flag_def)
qed

lemma wr_dir_user:
  assumes "tables_ok s D" "d \<in> D" "pgd_present (rd d (pgd_index va) s)"
  defines "s' \<equiv> wr d (pgd_index va) (rd d (pgd_index va) s OR PTE_USER) s"
  shows "d' \<in> D \<Longrightarrow> tbl (rd d' i s') = tbl (rd d' i s) \<and> pgd_present (rd d' i s') = pgd_present (rd d' i s) \<and>
      rd d' i s' AND NOT 0xFFF = rd d' i s AND NOT 0xFFF"
    "tables_ok s' D" "d' \<in> D \<Longrightarrow> pte_view d' va' s' = pte_view d' va' s"
proof -
  have "rd d' i s' = rd d' i s OR PTE_USER \<or> rd d' i s' = rd d' i s" if "d' \<in> D" for d' i
    unfolding s'_def rd_wr using assms(1,2) that by (auto simp: tables_ok_def inj_on_def)
  then show r: "tbl (rd d' i s') = tbl (rd d' i s) \<and> pgd_present (rd d' i s') = pgd_present (rd d' i s) \<and>
      rd d' i s' AND NOT 0xFFF = rd d' i s AND NOT 0xFFF" if "d' \<in> D" for d' i
    using or_user that by metis
  have k: "free_frames s' = free_frames s" "in_lowmem a s' = in_lowmem a s" for a by (simp_all add: s'_def)
  show "tables_ok s' D" using assms(1) r unfolding tables_ok_def k by (auto simp del: bit.compl_one)
  have "pmem s' (tbl (rd d' (pgd_index va') s)) j = pmem s (tbl (rd d' (pgd_index va') s)) j"
    if "d' \<in> D" "pgd_present (rd d' (pgd_index va') s)" for d' va' j
    using tables_okD(5) [OF assms(1) that(1) pgd_index_lt that(2) assms(2)] unfolding s'_def pmem_wr by simp
  then show "pte_view d' va' s' = pte_view d' va' s" if "d' \<in> D"
    using r [OF that, of "pgd_index va'"] that by (simp add: pte_view_def Let_def)
qed

subsection \<open>A page for a table\<close>

text \<open>
  The allocator hands out frame \<open>p\<close>: it was free, lies in low memory, and nothing of the state outside the
  allocator's own data changes.
\<close>

definition takes_page :: "'a vm_shrinker \<Rightarrow> 'a vm_state_scheme \<Rightarrow> nat \<Rightarrow> 'a vm_state_scheme \<Rightarrow> bool" where
  "takes_page shrink s p s1 \<longleftrightarrow> alloc_page shrink GFP_KERNEL s = Some (of_nat p * PAGE_SIZE, s1) \<and>
     p \<noteq> 0 \<and> p < 2 ^ 20 \<and> p \<in> free_frames s \<and> free_frames s1 = free_frames s - {p} \<and> in_lowmem (of_nat p * PAGE_SIZE) s \<and>
     keeps_config s s1 \<and> pages_inv s1 \<and> refcount (mem_map s1 p) = 1 \<and>
     (\<forall>f. f \<noteq> p \<longrightarrow> refcount (mem_map s1 f) = refcount (mem_map s f)) \<and>
     (\<forall>f. rmap_view (mem_map s1 f) = rmap_view (mem_map s f))"

text \<open>Memory is plentiful when a zone stays above its high watermark, and its frames are in low memory.\<close>

definition plenty :: "'a mm_state_scheme \<Rightarrow> bool" where
  "plenty s \<longleftrightarrow> pages_inv s \<and> buddy_ready s \<and> mem_map_pages s \<le> 2 ^ 20 \<and>
     (\<forall>p < mem_map_pages s. in_lowmem (of_nat p * PAGE_SIZE) s) \<and>
     (\<exists>z \<in> set (zl_zones (contig_zonelist s)). zone_watermark_ok z 0 WMARK_HIGH s \<and>
        (\<exists>q k. is_free s q k \<and> pfn_to_zone s q = Some z))"

lemma keeps_set_refcounts: "keeps_config s (set_refcounts f n s)"
proof (induction n)
  case (Suc n)
  then show ?case by (auto simp: set_refcounts_Suc split: option.split intro: keeps_config_trans [OF _ keeps_upd_page])
qed (simp add: set_refcounts_def)

lemma plenty_takes:
  assumes "plenty s"
  obtains p s1 where "takes_page shrink s p s1"
proof -
  have inv: "pages_inv s" "buddy_ready s" using assms by (auto simp: plenty_def)
  obtain z q k where z: "z \<in> set (zl_zones (contig_zonelist s))" "zone_watermark_ok z 0 WMARK_HIGH s"
    "is_free s q k" "pfn_to_zone s q = Some z" using assms by (auto simp: plenty_def)
  obtain F where F: "buddy_inv s F" using inv by (auto simp: pages_inv_def)
  have zl: "default_zonelist_for_gfp GFP_KERNEL s = contig_zonelist s"
    by (simp add: default_zonelist_for_gfp_def GFP_KERNEL_def has_flag_def)
  have "0 \<le> k" by simp
  from alloc_zones_fast [OF F z(1,2,3) this z(4)] obtain y p s0 where y: "took_block s y 0 p s0" "erase s0 = erase s"
    "alloc_zones shrink 0 0 (zl_zones (contig_zonelist s)) s =
      Some (Some (pfn_to_page (set_refcounts p (2 ^ 0) s0) p), set_refcounts p (2 ^ 0) s0)" by blast
  define t where "t = set_refcounts p (2 ^ 0) s0"
  note tb = took_block_pages [OF inv(1) y(1,2), folded t_def]
  have "mem_map_set t" using tb(1) buddy_inv_geometry by (auto simp: pages_inv_def geometry_def)
  then have pp: "page_to_pfn t (Some p) = p" "p \<noteq> 0" "p < mem_map_pages t" "refcount (mem_map t p) = 1"
    using tb(2) by (simp_all add: page_to_pfn_def fresh_block_def block_def)
  have al: "alloc_page shrink GFP_KERNEL s = Some (of_nat p * PAGE_SIZE, t)"
    using y(3) tb(5) inv(2) pp(1,2) by (simp add: alloc_page_def alloc_pages_def alloc_pages_nodemask_def eval_nat_numeral zl t_def)
  have pl: "p < mem_map_pages s" using pp(3) tb(4) by (simp add: same_shape_def)
  have "refcount (mem_map t f) = refcount (mem_map s f)" if "f \<noteq> p" for f
    using that erase_page [OF y(2), of f] by (simp add: t_def set_refcounts_effect(4))
  moreover have "rmap_view (mem_map t f) = rmap_view (mem_map s f)" for f
    using erase_page [OF y(2), of f] by (simp add: t_def set_refcounts_effect(4) rmap_view_def)
  moreover have "p \<in> free_frames s" "free_frames t = free_frames s - {p}"
    using took_block_frames(1) [OF F y(1)] tb(3) by (auto simp: block_def)
  moreover have "keeps_config s t"
    unfolding t_def by (rule keeps_config_trans [OF keeps_erase [OF y(2)] keeps_set_refcounts])
  moreover have "in_lowmem (of_nat p * PAGE_SIZE) s" "p < 2 ^ 20" using assms pl by (auto simp: plenty_def)
  ultimately have "takes_page shrink s p t" using al pp tb(1) by (simp add: takes_page_def)
  then show thesis by (rule that)
qed

lemma takes_page_keeps:
  assumes "takes_page shrink s p s1"
  shows "pmem s1 = pmem s" "page_directory s1 = page_directory s" "kernel_directory s1 = kernel_directory s"
    "mm_structs s1 = mm_structs s" "swap_slots s1 = swap_slots s" "venv s1 = venv s" "in_lowmem a s1 = in_lowmem a s"
    "current_mm s1 = current_mm s"
proof -
  have m: "mm_state.more s1 = mm_state.more s" "bootmem s1 = bootmem s" using assms by (simp_all add: takes_page_def keeps_config_def)
  show "pmem s1 = pmem s" "page_directory s1 = page_directory s" "kernel_directory s1 = kernel_directory s"
    "mm_structs s1 = mm_structs s" "swap_slots s1 = swap_slots s" "venv s1 = venv s" "current_mm s1 = current_mm s"
    using m(1) by (cases s1; cases s; simp)+
  show "in_lowmem a s1 = in_lowmem a s" using m(2) by (simp add: in_lowmem_def memlayout_lowmem_phys_end_def)
qed


lemma pmem_zero_frame: "pmem (zero_frame f s) g i = (if g = f \<and> i < 1024 then 0 else pmem s g i)"
  by (simp add: zero_frame_def set_frame_def)

lemma zero_frame_keeps [simp]:
  "free_frames (zero_frame f s) = free_frames s" "in_lowmem a (zero_frame f s) = in_lowmem a s"
  "mem_map (zero_frame f s) = mem_map s" "bootmem (zero_frame f s) = bootmem s"
  by (simp_all add: zero_frame_def set_frame_def in_lowmem_def memlayout_lowmem_phys_end_def)

lemma frame_words_length [simp]: "length (frame_words f s) = 1024"
  unfolding frame_words_def length_map length_upt by simp

lemma frame_words_cong: "pmem s' f = pmem s f \<Longrightarrow> frame_words f s' = frame_words f s"
  unfolding frame_words_def by (rule map_cong [OF refl]) simp

lemma frame_words_set: "length ws = 1024 \<Longrightarrow> frame_words f (set_frame f ws s) = ws"
  by (rule nth_equalityI) (simp_all add: frame_words_def set_frame_def del: upt_rec_numeral)

text \<open>The directory entry for a new table in frame \<open>p\<close>.\<close>

lemma new_entry:
  assumes "p < 2 ^ 20"
  defines "e \<equiv> of_nat p * PAGE_SIZE OR PTE_READ_WRITE OR PTE_PRESENT"
  shows "e AND NOT 0xFFF = of_nat p * PAGE_SIZE" "tbl e = p" "pgd_present e"
    "dir_frame (of_nat p * PAGE_SIZE + PAGE_OFFSET) = p"
proof -
  have al: "(of_nat p * PAGE_SIZE :: u32) AND 0xFFF = 0" using page_addr(2) [OF assms(1)] by simp
  have "(x :: u32) = (x AND NOT 0xFFF) OR (x AND 0xFFF)" for x by (rule bit_eqI) (auto simp: bit_simps)
  then have x: "(of_nat p * PAGE_SIZE :: u32) AND NOT 0xFFF = of_nat p * PAGE_SIZE"
    using al by (metis or.right_neutral)
  have "(PTE_READ_WRITE OR PTE_PRESENT) AND NOT 0xFFF = 0" by (simp add: PTE_defs)
  then show f: "e AND NOT 0xFFF = of_nat p * PAGE_SIZE"
    unfolding e_def by (subst or_flags_frame) (simp_all only: x)
  show "tbl e = p" unfolding tbl_def f frame_of_def by (rule page_addr(3) [OF assms(1)])
  show "dir_frame (of_nat p * PAGE_SIZE + PAGE_OFFSET) = p"
    unfolding dir_frame_def virt_to_phys_addr_def frame_of_def using page_addr(3) [OF assms(1)] by simp
  have "(e AND PTE_PRESENT) = (of_nat p * PAGE_SIZE AND PTE_PRESENT) OR PTE_PRESENT"
    unfolding e_def by (simp add: bit.conj_disj_distrib2 PTE_defs)
  then have "bit (e AND PTE_PRESENT) 0" by (simp add: bit_simps PTE_defs)
  then show "pgd_present e" unfolding pgd_present_def has_flag_def by force
qed

lemma new_table:
  assumes ok: "tables_ok s D" "d \<in> D" "\<not> pgd_present (rd d (pgd_index va) s)" and tk: "takes_page shrink s p s1"
  defines "e \<equiv> of_nat p * PAGE_SIZE OR PTE_READ_WRITE OR PTE_PRESENT"
  defines "s3 \<equiv> wr d (pgd_index va) e (zero_frame p s1)"
  shows "rd d (pgd_index va) s3 = e" "tables_ok s3 D" "d' \<in> D \<Longrightarrow> pte_view d' va' s3 = pte_view d' va' s"
proof -
  have p: "p < 2 ^ 20" "p \<in> free_frames s" "free_frames s1 = free_frames s - {p}" "in_lowmem (of_nat p * PAGE_SIZE) s"
    using tk by (auto simp: takes_page_def)
  note ne = new_entry [OF p(1), folded e_def]
  have nd: "dir_frame d' \<noteq> p" if "d' \<in> D" for d' using tables_okD(2) [OF ok(1) that] p(2) by auto
  have nt: "tbl (rd d' i s) \<noteq> p" if "d' \<in> D" "i < 1024" "pgd_present (rd d' i s)" for d' i
    using tables_okD(4) [OF ok(1) that] p(2) by auto
  have pm: "pmem s3 f i = (if f = dir_frame d \<and> i = pgd_index va then e else if f = p \<and> i < 1024 then 0 else pmem s f i)" for f i
    unfolding s3_def pmem_wr pmem_zero_frame takes_page_keeps(1) [OF tk] by simp
  have rd: "rd d' i s3 = (if d' = d \<and> i = pgd_index va then e else rd d' i s)" if "d' \<in> D" for d' i
  proof -
    have "(dir_frame d' = dir_frame d) = (d' = d)" using ok(1,2) that by (auto simp: tables_ok_def dest: inj_onD)
    moreover have "rd d' i t = pmem t (dir_frame d') i" for t :: "'a vm_state_scheme" by (simp add: rd_def dir_frame_def)
    ultimately show ?thesis using pm [of "dir_frame d'" i] nd [OF that] by simp
  qed
  then show "rd d (pgd_index va) s3 = e" using ok(2) by simp
  have ff: "free_frames s3 = free_frames s - {p}" "in_lowmem a s3 = in_lowmem a s" for a
    by (simp_all add: s3_def p(3) takes_page_keeps(7) [OF tk])
  have entry: "in_lowmem (rd d' i s3 AND NOT 0xFFF) s \<and> tbl (rd d' i s3) \<notin> free_frames s - {p} \<and>
      (\<forall>d'' \<in> D. tbl (rd d' i s3) \<noteq> dir_frame d'')" if h: "d' \<in> D" "i < 1024" "pgd_present (rd d' i s3)" for d' i
    using tables_okD(3-5) [OF ok(1) h(1,2)] h rd [OF h(1), of i] ne p(4) nd by (cases "d' = d \<and> i = pgd_index va") (auto, metis)
  have same: "i = j" if h: "d' \<in> D" "d'' \<in> D" "i < 1024" "j < 1024" "pgd_present (rd d' i s3)" "pgd_present (rd d'' j s3)"
      "tbl (rd d' i s3) = tbl (rd d'' j s3)" for d' d'' i j
  proof (cases "(d' = d \<and> i = pgd_index va) = (d'' = d \<and> j = pgd_index va)")
    case True
    then show ?thesis
      using tables_okD(6) [OF ok(1) h(1,3,4,2)] h(5-7) rd [OF h(1), of i] rd [OF h(2), of j] by (auto split: if_splits)
  next
    case False
    then have "rd d' i s3 = e \<and> rd d'' j s3 = rd d'' j s \<or> rd d' i s3 = rd d' i s \<and> rd d'' j s3 = e"
      unfolding rd [OF h(1)] rd [OF h(2)] by simp
    then show ?thesis using nt [OF h(1,3)] nt [OF h(2,4)] h(5-7) ne(2) by metis
  qed
  show "tables_ok s3 D"
  proof (rule tables_okI)
    show "inj_on dir_frame D" using ok(1) by (simp add: tables_ok_def)
  qed (use tables_okD(1,2) [OF ok(1)] entry same in \<open>simp_all only: ff, blast+\<close>)
  show "pte_view d' va' s3 = pte_view d' va' s" if h: "d' \<in> D"
  proof (cases "d' = d \<and> pgd_index va' = pgd_index va")
    case True
    then show ?thesis using rd [OF h] ne ok(3) nd [OF ok(2)] by (simp add: pte_view_def pm)
  next
    case False
    then have r: "rd d' (pgd_index va') s3 = rd d' (pgd_index va') s" using rd [OF h] by auto
    show ?thesis unfolding pte_view_def r Let_def pm
      using nt [OF h pgd_index_lt] tables_okD(5) [OF ok(1) h pgd_index_lt _ ok(2)] by auto
  qed
qed


text \<open>Both branches of \<open>map_page_ex\<close> end with the user flag of the directory entry and the store into the table.\<close>

definition put_pte :: "u32 \<Rightarrow> u32 \<Rightarrow> u32 \<Rightarrow> u32 \<Rightarrow> 'a vm_state_scheme \<Rightarrow> 'a vm_state_scheme" where
  "put_pte d va flags x s =
     (let s1 = (if has_flag flags PTE_USER then wr d (pgd_index va) (rd d (pgd_index va) s OR PTE_USER) s else s)
      in wr ((rd d (pgd_index va) s1 AND NOT 0xFFF) + PAGE_OFFSET) (pte_index va) x s1)"

lemma put_pte_keeps [simp]:
  "free_frames (put_pte d va flags x s) = free_frames s" "bootmem (put_pte d va flags x s) = bootmem s"
  "mem_map (put_pte d va flags x s) = mem_map s" "mm_structs (put_pte d va flags x s) = mm_structs s"
  "swap_slots (put_pte d va flags x s) = swap_slots s" "page_directory (put_pte d va flags x s) = page_directory s"
  "kernel_directory (put_pte d va flags x s) = kernel_directory s" "venv (put_pte d va flags x s) = venv s"
  "in_lowmem a (put_pte d va flags x s) = in_lowmem a s"
  by (simp_all add: put_pte_def Let_def)

lemma put_pte_current: "current_mm (put_pte d va flags x s) = current_mm s" "current_mm (wr d i x s) = current_mm s"
    "current_mm (zero_frame f s) = current_mm s" "mm_structs (zero_frame f s) = mm_structs s" "swap_slots (zero_frame f s) = swap_slots s"
    "page_directory (zero_frame f s) = page_directory s" "venv (zero_frame f s) = venv s"
  by (simp_all add: put_pte_def Let_def wr_def zero_frame_def set_frame_def)

lemma put_pte_correct:
  assumes "tables_ok s D" "d \<in> D" "pgd_present (rd d (pgd_index va) s)"
  fixes flags x
  defines "s' \<equiv> put_pte d va flags x s"
  shows "tables_ok s' D" "pte_view d va s' = x"
    "d' \<in> D \<Longrightarrow> \<not> same_pte s' d va d' va' \<Longrightarrow> pte_view d' va' s' = pte_view d' va' s"
    "d' \<in> D \<Longrightarrow> tbl (rd d' i s') = tbl (rd d' i s) \<and> pgd_present (rd d' i s') = pgd_present (rd d' i s)"
proof -
  define s1 where "s1 = (if has_flag flags PTE_USER then wr d (pgd_index va) (rd d (pgd_index va) s OR PTE_USER) s else s)"
  have ok: "tables_ok s1 D" using wr_dir_user(2) [OF assms(1-3)] assms(1) by (simp add: s1_def)
  have e: "tbl (rd d' i s1) = tbl (rd d' i s) \<and> pgd_present (rd d' i s1) = pgd_present (rd d' i s)" if "d' \<in> D" for d' i
    using wr_dir_user(1) [OF assms(1-3) that] by (simp add: s1_def)
  have v: "pte_view d' va' s1 = pte_view d' va' s" if "d' \<in> D" for d' va'
    using wr_dir_user(3) [OF assms(1-3) that] by (simp add: s1_def)
  have pr: "pgd_present (rd d (pgd_index va) s1)" using e assms(2,3) by simp
  have s': "s' = wr ((rd d (pgd_index va) s1 AND NOT 0xFFF) + PAGE_OFFSET) (pte_index va) x s1"
    by (simp add: s'_def put_pte_def s1_def [symmetric] Let_def)
  note w = wr_table [OF ok assms(2) pr, where x = x, folded s']
  show "tables_ok s' D" by (rule w(2))
  have "same_pte s1 d va d va" using pr by (simp add: same_pte_def)
  then show "pte_view d va s' = x" using w(3) [OF assms(2)] by simp
  show "tbl (rd d' i s') = tbl (rd d' i s) \<and> pgd_present (rd d' i s') = pgd_present (rd d' i s)" if "d' \<in> D"
    using w(1) [OF that] e [OF that] by simp
  have "same_pte s' d va d' va' = same_pte s1 d va d' va'" if "d' \<in> D"
    using w(1) [OF that] w(1) [OF assms(2)] by (simp add: same_pte_def)
  then show "pte_view d' va' s' = pte_view d' va' s" if "d' \<in> D" "\<not> same_pte s' d va d' va'"
    using w(3) [OF that(1)] v [OF that(1)] that by simp
qed

lemma map_page_ex_present:
  assumes "tables_ok s D" "d \<in> D" "pgd_present (rd d (pgd_index va) s)"
  shows "map_page_ex shrink d phys va flags s = Some (put_pte d va flags (phys OR flags) s)"
proof -
  define s1 where "s1 = (if has_flag flags PTE_USER then wr d (pgd_index va) (rd d (pgd_index va) s OR PTE_USER) s else s)"
  have ok: "tables_ok s1 D" using wr_dir_user(2) [OF assms] assms(1) by (simp add: s1_def)
  have pr: "pgd_present (rd d (pgd_index va) s1)" using wr_dir_user(1) [OF assms assms(2)] assms(3) by (simp add: s1_def)
  have "directmap (rd d (pgd_index va) s1 AND NOT 0xFFF) s1 = Some ((rd d (pgd_index va) s1 AND NOT 0xFFF) + PAGE_OFFSET)"
    by (rule directmap_low [OF tables_okD(3) [OF ok assms(2) pgd_index_lt pr]])
  then show ?thesis
    using assms(3) tables_okD(1) [OF assms(1,2)]
    by (cases "has_flag flags PTE_USER") (simp_all add: map_page_ex_def put_pte_def Let_def s1_def)
qed

lemma map_page_ex_absent:
  assumes "tables_ok s D" "d \<in> D" "\<not> pgd_present (rd d (pgd_index va) s)" "takes_page shrink s p s1"
  defines "e \<equiv> of_nat p * PAGE_SIZE OR PTE_READ_WRITE OR PTE_PRESENT"
  defines "s3 \<equiv> wr d (pgd_index va) e (zero_frame p s1)"
  shows "map_page_ex shrink d phys va flags s = Some (put_pte d va flags (phys OR flags) s3)"
proof -
  have p: "alloc_page shrink GFP_KERNEL s = Some (of_nat p * PAGE_SIZE, s1)" "p < 2 ^ 20" "p \<noteq> 0" "in_lowmem (of_nat p * PAGE_SIZE) s1"
    using assms(4) takes_page_keeps(7) [OF assms(4)] by (auto simp: takes_page_def)
  have nz: "(of_nat p * PAGE_SIZE :: u32) \<noteq> 0" using page_addr(1) [OF p(2)] p(3) by (metis mult_eq_0_iff unat_0 zero_neq_numeral)
  note nt = new_table [OF assms(1-4), folded e_def, folded s3_def]
  have pr: "pgd_present (rd d (pgd_index va) s3)" using nt(1) new_entry(3) [OF p(2)] by (simp add: e_def)
  have fr: "frame_of (virt_to_phys_addr (of_nat p * PAGE_SIZE + PAGE_OFFSET)) = p"
    using new_entry(4) [OF p(2)] by (simp add: dir_frame_def)
  have "map_page_ex shrink d phys va flags s = map_page_ex shrink d phys va flags s3"
    using assms(3) tables_okD(1) [OF assms(1,2)] p(1) nz fr pr
    by (simp add: map_page_ex_def Let_def directmap_low [OF p(4)] e_def [symmetric] s3_def [symmetric])
  then show ?thesis using map_page_ex_present [OF nt(2) assms(2) pr] by simp
qed

subsection \<open>Freeing a page\<close>

definition alloc_ok :: "'a mm_state_scheme \<Rightarrow> bool" where
  "alloc_ok s \<longleftrightarrow> pages_inv s \<and> buddy_ready s \<and> total_pages s = mem_map_pages s"

text \<open>A frame that the allocator handed out.\<close>

definition owned :: "'a mm_state_scheme \<Rightarrow> nat \<Rightarrow> bool" where
  "owned s p \<longleftrightarrow> p \<notin> free_frames s \<and> p < 0xC0000 \<and> (\<exists>z. block_ok s z p 0)"

lemma keeps_configD:
  assumes "keeps_config s s'"
  shows "same_shape s s'" "buddy_ready s' = buddy_ready s" "total_pages s' = total_pages s" "mem_map_pages s' = mem_map_pages s"
    "bootmem s' = bootmem s" "mm_state.more s' = mm_state.more s" "contig_zonelist s' = contig_zonelist s"
    "block_ok s' = block_ok s"
  using assms same_shapeD(4) [of s s'] by (auto simp: keeps_config_def same_config_def same_shape_def)

text \<open>The same without the part of the state outside the allocator.\<close>

definition keeps_setup :: "'a mm_state_scheme \<Rightarrow> 'a mm_state_scheme \<Rightarrow> bool" where
  "keeps_setup s s' \<longleftrightarrow> same_config s s' \<and> total_pages s' = total_pages s \<and> bootmem s' = bootmem s \<and>
     (\<forall>z. watermark (get_zone z s') = watermark (get_zone z s))"

lemma keeps_setupI: "keeps_config s s' \<Longrightarrow> keeps_setup s s'"
  by (simp add: keeps_setup_def keeps_config_def)

lemma keeps_setup_refl [simp]: "keeps_setup s s"
  by (simp add: keeps_setup_def)

lemma keeps_setup_trans: "keeps_setup s t \<Longrightarrow> keeps_setup t u \<Longrightarrow> keeps_setup s u"
  by (auto simp: keeps_setup_def intro: same_config_trans)

lemma free_page_ok:
  assumes "alloc_ok s" "owned s p"
  shows "\<exists>s'. free_page (of_nat p * PAGE_SIZE) s = Some s' \<and> alloc_ok s' \<and> keeps_config s s' \<and>
    (\<forall>f. refcount (mem_map s' f) = (if f = p then refcount (mem_map s f) - 1 else refcount (mem_map s f))) \<and>
    (\<forall>f. rmap_view (mem_map s' f) = rmap_view (mem_map s f)) \<and>
    free_frames s' = (if refcount (mem_map s p) \<le> 1 then insert p (free_frames s) else free_frames s)"
proof -
  obtain z where z: "block_ok s z p 0" using assms(2) by (auto simp: owned_def)
  have b: "block p 0 = {p}" by (auto simp: block_def)
  have "\<exists>s'. free_pages (of_nat p * PAGE_SIZE) 0 s = Some (Inr s') \<and> pages_inv s' \<and>
    (\<forall>f. refcount (mem_map s' f) = (if f \<in> block p 0 then refcount (mem_map s f) - 1 else refcount (mem_map s f))) \<and>
    free_frames s' = (if \<forall>f \<in> block p 0. refcount (mem_map s f) \<le> 1 then free_frames s \<union> block p 0 else free_frames s)"
    using assms z by (intro free_pages_correct) (auto simp: alloc_ok_def owned_def b)
  then obtain s' where s': "free_pages (of_nat p * PAGE_SIZE) 0 s = Some (Inr s')" "pages_inv s'"
    "\<forall>f. refcount (mem_map s' f) = (if f \<in> block p 0 then refcount (mem_map s f) - 1 else refcount (mem_map s f))"
    "free_frames s' = (if \<forall>f \<in> block p 0. refcount (mem_map s f) \<le> 1 then free_frames s \<union> block p 0 else free_frames s)"
    by blast
  note k = free_pages_keeps [OF s'(1)]
  have "alloc_ok s'" using assms(1) s'(2) keeps_configD [OF k(1)] by (simp add: alloc_ok_def)
  then show ?thesis using s' k by (simp add: free_page_def b)
qed

lemma plenty_mono:
  assumes "plenty s" "alloc_ok s'" "keeps_setup s s'" "free_frames s \<subseteq> free_frames s'"
  shows "plenty s'"
proof -
  obtain z where z: "z \<in> set (zl_zones (contig_zonelist s))" "zone_watermark_ok z 0 WMARK_HIGH s" using assms(1) by (auto simp: plenty_def)
  obtain F F' where F: "buddy_inv s F" "buddy_inv s' F'" using assms(1,2) by (auto simp: plenty_def alloc_ok_def pages_inv_def)
  have k: "same_shape s s'" "buddy_ready s' = buddy_ready s" "mem_map_pages s' = mem_map_pages s" "bootmem s' = bootmem s"
    "contig_zonelist s' = contig_zonelist s"
    using assms(3) by (auto simp: keeps_setup_def same_config_def same_shape_def)
  have zf: "zone_frames z s' = zone_frames z s" using k(1) by (simp add: zone_frames_def same_shapeD [OF k(1)])
  have fin: "finite (zone_frames z s)" by (simp add: zone_frames_def)
  have "zone_free_pages (Some z) s \<le> zone_free_pages (Some z) s'"
    unfolding zone_free_pages_card [OF F(1)] zone_free_pages_card [OF F(2)] zf
    using assms(4) fin by (intro card_mono) auto
  moreover have "watermark (get_zone z s') = watermark (get_zone z s)" using assms(3) by (simp add: keeps_setup_def)
  ultimately have w: "zone_watermark_ok z 0 WMARK_HIGH s'" using z(2) by (auto simp: zone_watermark_ok_def Let_def split: if_splits)
  then have "card (free_frames s' \<inter> zone_frames z s') > 0"
    using zone_free_pages_card [OF F(2), of z] by (auto simp: zone_watermark_ok_def Let_def split: if_splits)
  then obtain f where f: "f \<in> free_frames s'" "f \<in> zone_frames z s'" by (metis Int_iff card_gt_0_iff ex_in_conv)
  then obtain q j where q: "is_free s' q j" "f \<in> block q j" by (auto simp: free_frames_def)
  obtain y where y: "pfn_to_zone s' q = Some y" using zone_cases by blast
  have g: "geometry s'" by (rule buddy_inv_geometry [OF F(2)])
  have "block_ok s' y q j" by (rule buddy_inv_block_ok [OF F(2) q(1) y])
  then have "pfn_to_zone s' f = Some y" using q(2) by (intro geometry_zone(2) [OF g]) (auto simp: block_ok_def block_def)
  moreover have "pfn_to_zone s' f = Some z" using f(2) by (intro geometry_zone(2) [OF g]) (auto simp: zone_frames_def)
  ultimately have "pfn_to_zone s' q = Some z" using y by simp
  then have "\<exists>z \<in> set (zl_zones (contig_zonelist s')). zone_watermark_ok z 0 WMARK_HIGH s' \<and>
        (\<exists>q k. is_free s' q k \<and> pfn_to_zone s' q = Some z)" using z(1) w q(1) k(5) by auto
  moreover have "in_lowmem a s' = in_lowmem a s" for a using k(4) by (simp add: in_lowmem_def memlayout_lowmem_phys_end_def)
  ultimately show ?thesis using assms(1,2) k by (auto simp: plenty_def alloc_ok_def)
qed


subsection \<open>The two parts of the state\<close>

text \<open>
  The notions of the allocator look only at the fields of \<open>mm_state\<close>, those of the page tables at the physical
  memory, the layout and the free frames.
\<close>

lemma same_alloc:
  fixes s s' :: "'a mm_state_scheme"
  assumes "mm_state.truncate s' = mm_state.truncate s"
  shows "mem_map s' = mem_map s" "bootmem s' = bootmem s" "free_frames s' = free_frames s" "alloc_ok s' = alloc_ok s"
    "owned s' = owned s" "in_lowmem a s' = in_lowmem a s" "pfn_to_page s' = pfn_to_page s" "plenty s' = plenty s"
    "keeps_setup s s'" "same_buddy s s'"
proof -
  have f: "mem_map s' = mem_map s" "bootmem s' = bootmem s" "mem_map_set s' = mem_map_set s" "mem_map_pages s' = mem_map_pages s"
    "zone_dma s' = zone_dma s" "zone_normal s' = zone_normal s" "contig_zonelist s' = contig_zonelist s" "dma_zonelist s' = dma_zonelist s"
    "buddy_next s' = buddy_next s" "buddy_max_order s' = buddy_max_order s" "buddy_ready s' = buddy_ready s" "total_pages s' = total_pages s"
    using assms by (simp_all add: mm_state.defs)
  then have z: "get_zone z s' = get_zone z s" for z by (cases z) simp_all
  show sb: "same_buddy s s'" by (simp add: same_buddy_def same_shape_def f z)
  note d = same_buddyD [OF sb] same_shapeD [OF same_buddyD(5) [OF sb]]
  show "mem_map s' = mem_map s" "bootmem s' = bootmem s" "free_frames s' = free_frames s" by (simp_all add: f d)
  show "alloc_ok s' = alloc_ok s" by (simp add: alloc_ok_def pages_inv_def f d)
  show "owned s' = owned s" by (simp add: fun_eq_iff owned_def d)
  show lm: "in_lowmem a s' = in_lowmem a s" for a by (simp add: in_lowmem_def memlayout_lowmem_phys_end_def f)
  show "pfn_to_page s' = pfn_to_page s" by (simp add: fun_eq_iff pfn_to_page_def f)
  show "plenty s' = plenty s"
    by (simp add: plenty_def pages_inv_def zone_watermark_ok_def f d z lm)
  show "keeps_setup s s'" by (simp add: keeps_setup_def same_config_def same_shape_def f z)
qed

lemma same_alloc_upd [simp]:
  "mm_state.truncate (s\<lparr>pmem := m\<rparr>) = mm_state.truncate s" "mm_state.truncate (s\<lparr>venv := v\<rparr>) = mm_state.truncate s"
  "mm_state.truncate (s\<lparr>swap_slots := w\<rparr>) = mm_state.truncate s" "mm_state.truncate (s\<lparr>mm_structs := ms\<rparr>) = mm_state.truncate s"
  "mm_state.truncate (wr d i x s) = mm_state.truncate s" "mm_state.truncate (put_pte d va flags x s) = mm_state.truncate s"
  "mm_state.truncate (set_frame f ws s) = mm_state.truncate s" "mm_state.truncate (zero_frame f s) = mm_state.truncate s"
  "mm_state.truncate (s\<lparr>cow_faults := c\<rparr>) = mm_state.truncate s" "mm_state.truncate (s\<lparr>cow_copies := c\<rparr>) = mm_state.truncate s"
  by (simp_all add: mm_state.defs wr_def put_pte_def Let_def set_frame_def zero_frame_def)

lemma same_more:
  assumes "mm_state.more s' = mm_state.more s"
  shows "pmem s' = pmem s" "page_directory s' = page_directory s" "kernel_directory s' = kernel_directory s"
    "mm_structs s' = mm_structs s" "swap_slots s' = swap_slots s" "venv s' = venv s" "current_mm s' = current_mm s"
  using assms by (cases s'; cases s; simp)+

text \<open>Changes of the page array that keep the buddy data and the reference counts.\<close>

lemma alloc_ok_keeps:
  assumes "keeps_config s s'" "same_buddy s s'" "\<And>q. refcount (mem_map s' q) = refcount (mem_map s q)"
  shows "alloc_ok s' = alloc_ok s" "owned s' = owned s" "free_frames s' = free_frames s"
proof -
  note k = keeps_configD [OF assms(1)] and b = same_buddyD [OF assms(2)]
  show ff: "free_frames s' = free_frames s" by (rule b(2))
  show "alloc_ok s' = alloc_ok s" by (simp add: alloc_ok_def pages_inv_def k b assms(3))
  show "owned s' = owned s" by (simp add: fun_eq_iff owned_def ff k(8))
qed

text \<open>A frame that holds neither a directory nor a table.\<close>

definition data_frame :: "'a vm_state_scheme \<Rightarrow> u32 set \<Rightarrow> nat \<Rightarrow> bool" where
  "data_frame s D p \<longleftrightarrow> (\<forall>d \<in> D. dir_frame d \<noteq> p \<and> (\<forall>i < 1024. pgd_present (rd d i s) \<longrightarrow> tbl (rd d i s) \<noteq> p))"

lemma tables_ok_cong:
  assumes "\<And>d i. d \<in> D \<Longrightarrow> i < 1024 \<Longrightarrow> rd d i s' = rd d i s" "\<And>a. in_lowmem a s' = in_lowmem a s"
    "\<And>f. f \<in> free_frames s' \<Longrightarrow> f \<in> free_frames s \<or> data_frame s D f" "tables_ok s D"
  shows "tables_ok s' D"
proof (rule tables_okI)
  fix d assume d: "d \<in> D"
  then show "d \<noteq> 0 \<and> dir_frame d \<notin> free_frames s'"
    using tables_okD(1,2) [OF assms(4) d] assms(3) by (auto simp: data_frame_def)
next
  fix d i assume h: "d \<in> D" "i < 1024" "pgd_present (rd d i s')"
  then have r: "pgd_present (rd d i s)" "rd d i s' = rd d i s" using assms(1) by simp_all
  have "tbl (rd d i s) \<notin> free_frames s'"
    using assms(3) [of "tbl (rd d i s)"] tables_okD(4) [OF assms(4) h(1,2) r(1)] h(1,2) r(1) by (auto simp: data_frame_def)
  then show "in_lowmem (rd d i s' AND NOT 0xFFF) s' \<and> tbl (rd d i s') \<notin> free_frames s' \<and> (\<forall>d' \<in> D. tbl (rd d i s') \<noteq> dir_frame d')"
    unfolding r(2) assms(2) using tables_okD(3,5) [OF assms(4) h(1,2) r(1)] by blast
next
  fix d d' i j assume h: "d \<in> D" "d' \<in> D" "i < 1024" "j < 1024" "pgd_present (rd d i s')" "pgd_present (rd d' j s')"
    "tbl (rd d i s') = tbl (rd d' j s')"
  then show "i = j" using tables_okD(6) [OF assms(4) h(1,3,4,2)] assms(1) by simp
qed (use assms(4) in \<open>simp add: tables_ok_def\<close>)

lemma tables_ok_pmem:
  assumes "tables_ok s D" "pmem s' = pmem s" "bootmem s' = bootmem s" "free_frames s' = free_frames s"
  shows "tables_ok s' D"
  using assms by (intro tables_ok_cong [of D s' s]) (simp_all add: rd_def in_lowmem_def memlayout_lowmem_phys_end_def)

lemma tables_ok_freed:
  assumes "tables_ok s D" "data_frame s D p" "pmem s' = pmem s" "bootmem s' = bootmem s" "free_frames s' = insert p (free_frames s)"
  shows "tables_ok s' D"
  using assms by (intro tables_ok_cong [of D s' s]) (auto simp: rd_def in_lowmem_def memlayout_lowmem_phys_end_def)

lemma pte_view_pmem: "pmem s' = pmem s \<Longrightarrow> pte_view d va s' = pte_view d va s"
  by (simp add: pte_view_def rd_def Let_def)

lemma set_frame_tables:
  assumes "tables_ok s D" "data_frame s D q"
  shows "tables_ok (set_frame q ws s) D" "d \<in> D \<Longrightarrow> pte_view d va (set_frame q ws s) = pte_view d va s"
    "data_frame (set_frame q ws s) D f = data_frame s D f"
proof -
  have r: "rd d i (set_frame q ws s) = rd d i s" if "d \<in> D" for d i
    using that assms(2) by (auto simp: rd_def set_frame_def data_frame_def dir_frame_def)
  have a: "mm_state.truncate (set_frame q ws s) = mm_state.truncate s" by simp
  show "tables_ok (set_frame q ws s) D"
    using assms(1) by (rule tables_ok_cong [rotated 3]) (simp_all add: r same_alloc [OF a])
  show "data_frame (set_frame q ws s) D f = data_frame s D f" by (simp add: data_frame_def r)
  show "pte_view d va (set_frame q ws s) = pte_view d va s" if "d \<in> D"
    using assms(2) that unfolding pte_view_def r [OF that] by (auto simp: Let_def set_frame_def data_frame_def)
qed

lemma takes_page_tables:
  assumes "tables_ok s D" "takes_page shrink s q s1"
  shows "tables_ok s1 D" "data_frame s1 D q" "pte_view d va s1 = pte_view d va s"
proof -
  note k = takes_page_keeps [OF assms(2)]
  have q: "q \<in> free_frames s" "free_frames s1 = free_frames s - {q}" using assms(2) by (auto simp: takes_page_def)
  show "tables_ok s1 D" using assms(1) by (rule tables_ok_cong [rotated 3]) (use q in \<open>auto simp: rd_def k\<close>)
  show "data_frame s1 D q"
    using tables_okD(2,4) [OF assms(1)] q(1) by (auto simp: data_frame_def rd_def k)
  show "pte_view d va s1 = pte_view d va s" by (rule pte_view_pmem) (rule k(1))
qed

lemma put_pte_data:
  assumes "tables_ok s D" "d \<in> D" "pgd_present (rd d (pgd_index va) s)" "data_frame s D q"
  shows "data_frame (put_pte d va flags x s) D q" "pmem (put_pte d va flags x s) q = pmem s q"
proof -
  note c = put_pte_correct(4) [OF assms(1-3), where flags = flags and x = x]
  show "data_frame (put_pte d va flags x s) D q" using assms(4) c by (auto simp: data_frame_def)
  have e: "dir_frame d \<noteq> q" "tbl (rd d (pgd_index va) s) \<noteq> q" using assms(2-4) by (auto simp: data_frame_def)
  define s1 where "s1 = (if has_flag flags PTE_USER then wr d (pgd_index va) (rd d (pgd_index va) s OR PTE_USER) s else s)"
  have "tbl (rd d (pgd_index va) s1) \<noteq> q" using e or_user(1) by (simp add: s1_def rd_wr)
  moreover have "pmem s1 q = pmem s q" using e(1) by (simp add: s1_def fun_eq_iff pmem_wr)
  ultimately show "pmem (put_pte d va flags x s) q = pmem s q"
    unfolding put_pte_def s1_def [symmetric] Let_def by (simp add: fun_eq_iff pmem_wr table_frame [simplified])
qed

lemma owned_setup:
  assumes "owned s p" "keeps_setup s s'" "free_frames s' \<subseteq> free_frames s"
  shows "owned s' p"
  using assms same_shapeD(4) [of s s'] by (auto simp: owned_def keeps_setup_def same_config_def)

lemma takes_page_alloc:
  assumes "takes_page shrink s p s1" "alloc_ok s"
  shows "alloc_ok s1"
  using assms keeps_configD(2-4) [of s s1] by (simp add: takes_page_def alloc_ok_def)

text \<open>
  The change from \<open>s\<close> to \<open>s'\<close> enters \<open>x\<close> for \<open>va\<close> in the directory \<open>d\<close> and leaves everything else alone, apart from
  taking a free frame for a table.
\<close>

definition page_entered :: "u32 set \<Rightarrow> u32 \<Rightarrow> u32 \<Rightarrow> u32 \<Rightarrow> 'a vm_state_scheme \<Rightarrow> 'a vm_state_scheme \<Rightarrow> bool" where
  "page_entered D d va x s s' \<longleftrightarrow> tables_ok s' D \<and> pte_view d va s' = x \<and>
     (\<forall>d' \<in> D. \<forall>va'. \<not> same_pte s' d va d' va' \<longrightarrow> pte_view d' va' s' = pte_view d' va' s) \<and>
     (\<forall>q. data_frame s D q \<and> q \<notin> free_frames s \<longrightarrow> data_frame s' D q \<and> pmem s' q = pmem s q) \<and>
     (\<forall>q. q \<notin> free_frames s \<longrightarrow> refcount (mem_map s' q) = refcount (mem_map s q) \<and> rmap_view (mem_map s' q) = rmap_view (mem_map s q)) \<and>
     free_frames s' \<subseteq> free_frames s \<and> (alloc_ok s \<longrightarrow> alloc_ok s') \<and> keeps_setup s s' \<and> pfn_to_page s' = pfn_to_page s \<and>
     bootmem s' = bootmem s \<and> mm_structs s' = mm_structs s \<and> swap_slots s' = swap_slots s \<and>
     page_directory s' = page_directory s \<and> current_mm s' = current_mm s \<and> venv s' = venv s"

lemma page_enteredD:
  assumes "page_entered D d va x s s'"
  shows "tables_ok s' D" "pte_view d va s' = x" "alloc_ok s \<Longrightarrow> alloc_ok s'" "keeps_setup s s'"
    "free_frames s' \<subseteq> free_frames s" "bootmem s' = bootmem s" "mm_structs s' = mm_structs s" "swap_slots s' = swap_slots s"
    "page_directory s' = page_directory s" "current_mm s' = current_mm s" "venv s' = venv s" "pfn_to_page s' = pfn_to_page s"
  using assms by (simp_all add: page_entered_def)

lemma page_entered_others:
  assumes "page_entered D d va x s s'"
  shows "d' \<in> D \<Longrightarrow> \<not> same_pte s' d va d' va' \<Longrightarrow> pte_view d' va' s' = pte_view d' va' s"
    "data_frame s D q \<Longrightarrow> q \<notin> free_frames s \<Longrightarrow> data_frame s' D q"
    "data_frame s D q \<Longrightarrow> q \<notin> free_frames s \<Longrightarrow> pmem s' q = pmem s q"
    "q \<notin> free_frames s \<Longrightarrow> refcount (mem_map s' q) = refcount (mem_map s q)"
    "q \<notin> free_frames s \<Longrightarrow> rmap_view (mem_map s' q) = rmap_view (mem_map s q)"
  using assms by (simp_all add: page_entered_def)

lemma put_pte_entered:
  assumes "tables_ok s D" "d \<in> D" "pgd_present (rd d (pgd_index va) s)"
  shows "page_entered D d va x s (put_pte d va flags x s)"
proof -
  let ?s = "put_pte d va flags x s"
  have tr: "mm_state.truncate ?s = mm_state.truncate s" by simp
  note c = put_pte_correct [OF assms] and a = same_alloc [OF tr] and q = put_pte_data [OF assms]
  show ?thesis unfolding page_entered_def by (simp add: c a q put_pte_current)
qed

lemma new_table_entered:
  assumes "tables_ok s D" "d \<in> D" "\<not> pgd_present (rd d (pgd_index va) s)" and tk: "takes_page shrink s p s1"
  defines "s3 \<equiv> wr d (pgd_index va) (of_nat p * PAGE_SIZE OR PTE_READ_WRITE OR PTE_PRESENT) (zero_frame p s1)"
  assumes e: "page_entered D d va x s3 s'"
  shows "page_entered D d va x s s'"
proof -
  note nt = new_table [OF assms(1-4), folded s3_def] and k = takes_page_keeps [OF tk] and D = page_enteredD [OF e] and O = page_entered_others [OF e]
  have p: "p < 2 ^ 20" "p \<in> free_frames s" "keeps_config s s1" using tk by (simp_all add: takes_page_def)
  have tr: "mm_state.truncate s3 = mm_state.truncate s1" by (simp add: s3_def)
  note a = same_alloc [OF tr]
  have fs: "free_frames s3 = free_frames s - {p}" using tk a(3) by (simp add: takes_page_def)
  have df: "data_frame s3 D q" "pmem s3 q = pmem s q" if q: "data_frame s D q" "q \<notin> free_frames s" for q
  proof -
    have n: "q \<noteq> p" "dir_frame d \<noteq> q" using q p(2) assms(2) by (auto simp: data_frame_def)
    have "rd d' i s3 = of_nat p * PAGE_SIZE OR PTE_READ_WRITE OR PTE_PRESENT \<or> rd d' i s3 = rd d' i s" if "d' \<in> D" for d' i
      using tables_okD(2) [OF assms(1) that] p(2) unfolding s3_def rd_wr by (auto simp: rd_def dir_frame_def pmem_zero_frame k)
    then show "data_frame s3 D q" using q(1) n(1) new_entry(2) [OF p(1)] unfolding data_frame_def by metis
    show "pmem s3 q = pmem s q" using n by (simp add: s3_def fun_eq_iff pmem_wr pmem_zero_frame k)
  qed
  have rc: "refcount (mem_map s3 q) = refcount (mem_map s q)" "rmap_view (mem_map s3 q) = rmap_view (mem_map s q)"
    if "q \<notin> free_frames s" for q
    using tk that p(2) a(1) by (auto simp: takes_page_def)
  have ks: "keeps_setup s s3" using keeps_setupI [OF p(3)] a(9) by (rule keeps_setup_trans)
  have v: "bootmem s3 = bootmem s" "mm_structs s3 = mm_structs s" "swap_slots s3 = swap_slots s" "page_directory s3 = page_directory s"
      "current_mm s3 = current_mm s" "venv s3 = venv s" "pfn_to_page s3 = pfn_to_page s"
    using keeps_configD(1,5) [OF p(3)] a(2,7) same_shapeD(7) [of s s1] by (simp_all add: s3_def k put_pte_current)
  have "alloc_ok s'" if "alloc_ok s" using D(3) takes_page_alloc [OF tk that] a(4) by simp
  moreover have "keeps_setup s s'" by (rule keeps_setup_trans [OF ks D(4)])
  moreover have "data_frame s' D q \<and> pmem s' q = pmem s q" if "data_frame s D q" "q \<notin> free_frames s" for q
    using O(2,3) df [OF that] that(2) fs by simp
  ultimately show ?thesis
    unfolding page_entered_def using D(1,2,5) O(1,4,5) nt(3) rc fs by (auto simp: D v)
qed

lemma map_page_ex_full:
  assumes "tables_ok s D" "d \<in> D" "pgd_present (rd d (pgd_index va) s) \<or> takes_page shrink s p s1"
  shows "\<exists>s'. map_page_ex shrink d phys va flags s = Some s' \<and> page_entered D d va (phys OR flags) s s'"
proof (cases "pgd_present (rd d (pgd_index va) s)")
  case True
  then show ?thesis using put_pte_entered [OF assms(1,2) True] map_page_ex_present [OF assms(1,2) True] by blast
next
  case False
  then have tk: "takes_page shrink s p s1" using assms(3) by simp
  let ?s3 = "wr d (pgd_index va) (of_nat p * PAGE_SIZE OR PTE_READ_WRITE OR PTE_PRESENT) (zero_frame p s1)"
  note nt = new_table [OF assms(1,2) False tk]
  have "pgd_present (rd d (pgd_index va) ?s3)" unfolding nt(1) using tk by (intro new_entry(3)) (simp add: takes_page_def)
  from put_pte_entered [OF nt(2) assms(2) this]
  show ?thesis using new_table_entered [OF assms(1,2) False tk] map_page_ex_absent [OF assms(1,2) False tk] by blast
qed

subsection \<open>Properties\<close>

lemma aligned_or_flags:
  assumes "(phys :: u32) AND 0xFFF = 0" "flags AND NOT 0xFFF = 0"
  shows "(phys OR flags) AND NOT 0xFFF = phys"
proof -
  have "phys = (phys AND NOT 0xFFF) OR (phys AND 0xFFF)" by (rule bit_eqI) (auto simp: bit_simps)
  then have "phys AND NOT 0xFFF = phys" unfolding assms(1) by simp
  then show ?thesis using or_flags_frame [OF assms(2), of phys] by simp
qed

text \<open>The address that an entry of a well-formed directory translates to.\<close>

lemma virt_to_phys_view:
  assumes "tables_ok s D" "d \<in> D"
  shows "virt_to_phys_pgd d va s = Some (if pte_present (pte_view d va s) then pte_pfn (pte_view d va s) + (va AND 0xFFF) else 0xFFFFFFFF)"
  unfolding virt_to_phys_pgd_def pte_table_view [OF assms]
  by (simp add: pte_view_def Let_def) (simp add: pte_present_def has_flag_def)

text \<open>
  C24: Mapping a page refines the update of one entry of a flat table.  With well-formed page tables and enough
  memory for a new table, \<open>map_page_ex\<close> always returns.  Afterwards the address translates to the given page, every
  address of every directory that does not share the table entry has the entry it had before, and the tables are
  well formed again.
\<close>
theorem map_page_ex_refines:
  assumes "tables_ok s D" "d \<in> D" "plenty s" "phys AND 0xFFF = 0" "flags AND NOT 0xFFF = 0" "has_flag flags PTE_PRESENT"
  shows "\<exists>s'. map_page_ex shrink d phys va flags s = Some s' \<and> tables_ok s' D \<and>
    virt_to_phys_pgd d va s' = Some (phys + (va AND 0xFFF)) \<and>
    (\<forall>d' \<in> D. \<forall>va'. \<not> same_pte s' d va d' va' \<longrightarrow> pte_view d' va' s' = pte_view d' va' s)"
proof -
  obtain p s1 where tk: "takes_page shrink s p s1" using assms(3) by (rule plenty_takes)
  obtain s' where m: "map_page_ex shrink d phys va flags s = Some s'" and e: "page_entered D d va (phys OR flags) s s'"
    using map_page_ex_full [OF assms(1,2) disjI2 [OF tk]] by blast
  note s' = m page_enteredD(1,2) [OF e] page_entered_others(1) [OF e]
  have "phys AND PTE_PRESENT = (phys AND 0xFFF) AND PTE_PRESENT" by (rule bit_eqI) (auto simp: bit_simps PTE_defs)
  then have "pte_present (phys OR flags)"
    using assms(4,6) by (simp add: pte_present_def has_flag_def bit.conj_disj_distrib2)
  then show ?thesis
    using s' virt_to_phys_view [OF s'(2) assms(2), of va] aligned_or_flags [OF assms(4,5)] by (auto simp: pte_pfn_def)
qed

text \<open>Reading, writing and unmapping an entry.\<close>

lemma set_pte_raw_correct:
  assumes "tables_ok s D" "d \<in> D" "pgd_present (rd d (pgd_index va) s)"
  shows "\<exists>s'. set_pte_raw d va x s = Some s' \<and> tables_ok s' D \<and> pte_view d va s' = x \<and>
    s' = wr ((rd d (pgd_index va) s AND NOT 0xFFF) + PAGE_OFFSET) (pte_index va) x s \<and>
    (\<forall>d' \<in> D. \<forall>i. rd d' i s' = rd d' i s) \<and>
    (\<forall>d' \<in> D. \<forall>va'. \<not> same_pte s d va d' va' \<longrightarrow> pte_view d' va' s' = pte_view d' va' s)"
proof -
  note w = wr_table [OF assms, where x = x]
  have "same_pte s d va d va" using assms(3) by (simp add: same_pte_def)
  then show ?thesis
    using w assms(2,3) unfolding set_pte_raw_def pte_table_view [OF assms(1,2)] by (simp del: bit.compl_one)
qed

lemma unmap_page_pgd_correct:
  assumes "tables_ok s D" "d \<in> D"
  shows "\<exists>s'. unmap_page_pgd d va s = Some s' \<and> tables_ok s' D \<and>
    pte_view d va s' = (if pte_present (pte_view d va s) then 0 else pte_view d va s) \<and>
    (\<forall>d' \<in> D. \<forall>va'. \<not> same_pte s d va d' va' \<longrightarrow> pte_view d' va' s' = pte_view d' va' s)"
proof (cases "pgd_present (rd d (pgd_index va) s)")
  case False
  then show ?thesis
    using assms unfolding unmap_page_pgd_def pte_table_view [OF assms] by (simp add: pte_view_def Let_def)
next
  case True
  then have v: "rd ((rd d (pgd_index va) s AND - 0x1000) + PAGE_OFFSET) (pte_index va) s = pte_view d va s"
    by (simp add: pte_view_def Let_def)
  obtain s' where s': "set_pte_raw d va 0 s = Some s'" "tables_ok s' D" "pte_view d va s' = 0"
      "\<forall>d' \<in> D. \<forall>va'. \<not> same_pte s d va d' va' \<longrightarrow> pte_view d' va' s' = pte_view d' va' s"
    using set_pte_raw_correct [OF assms True] by blast
  have "unmap_page_pgd d va s = (if pte_present (pte_view d va s) then set_pte_raw d va 0 s else Some s)"
    using True v unfolding unmap_page_pgd_def set_pte_raw_def pte_table_view [OF assms] by simp
  then show ?thesis using s' assms(1) by auto
qed


subsection \<open>Witness\<close>

text \<open>Empty page tables in frame 2, on top of the small page allocator state.\<close>

definition demo_vm_ext :: "'a \<Rightarrow> 'a vm_state_ext" where
  "demo_vm_ext x = vm_state_ext (\<lambda>_ _. 0) 0xC0002000 0xC0002000 (\<lambda>_. demo_mm\<lparr>pgd := 0xC0002000\<rparr>) (Some 0) demo_env
     (\<lambda>_. \<lparr>used = False, sdata = None\<rparr>) 0 0 0 0 0 0 0 0 0 0 0 0 0 x"

definition demo_vm :: "'a \<Rightarrow> 'a vm_state_scheme" where
  "demo_vm x = demo_pages (demo_vm_ext x)"

lemma demo_pages_more: "mm_state.more (demo_pages x) = x" "bootmem (demo_pages x) = demo_bootmem"
  using erase_state(8,9) [OF demo_free_erase [of x]] by (simp_all add: demo_pages_def demo_arena_def)

lemma demo_vm_sel:
  "pmem (demo_vm x) = (\<lambda>_ _. 0)" "page_directory (demo_vm x) = 0xC0002000" "kernel_directory (demo_vm x) = 0xC0002000"
  "mm_structs (demo_vm x) = (\<lambda>_. demo_mm\<lparr>pgd := 0xC0002000\<rparr>)" "venv (demo_vm x) = demo_env"
  "vm_state.more (demo_vm x) = x" "swap_slots (demo_vm x) = (\<lambda>_. \<lparr>used = False, sdata = None\<rparr>)" "current_mm (demo_vm x) = Some 0"
  using demo_pages_more(1) [of "demo_vm_ext x"] unfolding demo_vm_def
  by (cases "demo_pages (demo_vm_ext x)"; simp add: demo_vm_ext_def )+

lemma demo_low: "in_lowmem a (demo_vm x)"
  by (simp add: in_lowmem_def demo_vm_def demo_pages_more demo_bootmem_def bootmem_zero_def)

lemma demo_plenty: "plenty (demo_vm x)"
proof -
  have "zone_watermark_ok ZONE_DMA 0 WMARK_HIGH (demo_vm x)" unfolding demo_vm_def
    by (simp add: zone_watermark_ok_def demo_pages_free demo_watermark del: get_zone.simps)
  moreover have "is_free (demo_vm x) 8 3" "pfn_to_zone (demo_vm x) 8 = Some ZONE_DMA" by (simp_all add: demo_vm_def demo_pages_block)
  moreover have "ZONE_DMA \<in> set (zl_zones (contig_zonelist (demo_vm x)))"
    by (simp add: demo_vm_def demo_pages_state build_zonelist_def)
  ultimately show ?thesis using demo_low by (auto simp: plenty_def demo_vm_def demo_pages_state)
qed

lemma demo_vm_free: "free_frames (demo_vm x) = {8..<16}"
  by (simp add: demo_vm_def demo_pages_state)

lemma demo_tables: "tables_ok (demo_vm x) {0xC0002000}"
  by (rule tables_okI)
    (auto simp: rd_def demo_vm_sel pgd_present_def has_flag_def demo_vm_free dir_frame_def frame_of_def virt_to_phys_addr_def)

theorem map_page_ex_refines_witness:
  "\<exists>s'. map_page_ex (\<lambda>_ _ _ s. Some (0, s)) 0xC0002000 0x5000 0x400000 (PTE_PRESENT OR PTE_USER) (demo_vm ()) = Some s' \<and>
    virt_to_phys_pgd 0xC0002000 0x400000 s' = Some 0x5000"
proof -
  have "\<exists>s'. map_page_ex (\<lambda>_ _ _ s. Some (0, s)) 0xC0002000 0x5000 0x400000 (PTE_PRESENT OR PTE_USER) (demo_vm ()) = Some s' \<and>
      tables_ok s' {0xC0002000} \<and> virt_to_phys_pgd 0xC0002000 0x400000 s' = Some (0x5000 + (0x400000 AND 0xFFF)) \<and>
      (\<forall>d' \<in> {0xC0002000}. \<forall>va'. \<not> same_pte s' 0xC0002000 0x400000 d' va' \<longrightarrow> pte_view d' va' s' = pte_view d' va' (demo_vm ()))"
    by (rule map_page_ex_refines [OF demo_tables [of "()"] _ demo_plenty [of "()"]]) (simp_all add: PTE_defs has_flag_def)
  then show ?thesis by auto
qed

end
