(* ===== verification/Swap.thy ===== *)
theory Swap
  imports Paging
begin

text \<open>
  The swap slots of \<open>mm/swap.c\<close>.  A page that is swapped out has its content in one of 64 slots and a
  table entry that is not present and holds the slot number plus one above the page offset bits.
\<close>

definition SWAP_SLOTS :: nat where "SWAP_SLOTS = 64"

definition swap_init :: "'a vm_state_scheme \<Rightarrow> 'a vm_state_scheme" where
  "swap_init s = s\<lparr>swap_slots := (\<lambda>i. if i < SWAP_SLOTS then \<lparr>used = False, sdata = None\<rparr> else swap_slots s i)\<rparr>"

definition swap_pte_encode :: "u32 \<Rightarrow> u32" where
  "swap_pte_encode slot = push_bit 12 (slot + 1)"

definition swap_pte_decode :: "u32 \<Rightarrow> u32 option" where
  "swap_pte_decode pte =
     (if pte_present pte then None
      else let enc = drop_bit 12 pte
           in if enc = 0 then None
              else if enc - 1 \<ge> of_nat SWAP_SLOTS then None
              else Some (enc - 1))"

definition swap_free_slot :: "u32 \<Rightarrow> 'a vm_state_scheme \<Rightarrow> 'a vm_state_scheme" where
  "swap_free_slot slot s =
     (if unat slot \<ge> SWAP_SLOTS then s
      else if \<not> used (swap_slots s (unat slot)) then s
      else s\<lparr>swap_slots := (swap_slots s)(unat slot := \<lparr>used = False, sdata = None\<rparr>)\<rparr>)"

text \<open>The first slot that is not used.\<close>

definition swap_find_slot :: "'a vm_state_scheme \<Rightarrow> nat option" where
  "swap_find_slot s = find (\<lambda>i. \<not> used (swap_slots s i)) [0..<SWAP_SLOTS]"

text \<open>The calls of the reverse mapping and of \<open>kmalloc\<close> in terms of the whole state.\<close>

definition kmalloc_vm :: "'a vm_state_scheme \<Rightarrow> bool \<times> 'a vm_state_scheme" where
  "kmalloc_vm s =
     (case kmalloc_ok (kmallocs (venv s)) of (ok, ks) \<Rightarrow> (ok, s\<lparr>venv := (venv s)\<lparr>kmallocs := ks\<rparr>\<rparr>))"

definition add_rmap :: "nat \<Rightarrow> u32 \<Rightarrow> u32 \<Rightarrow> 'a vm_state_scheme \<Rightarrow> 'a vm_state_scheme" where
  "add_rmap mm vaddr phys s =
     (case page_add_anon_rmap mm vaddr phys s (kmallocs (venv s)) of
        (s', ks) \<Rightarrow> s'\<lparr>venv := (venv s')\<lparr>kmallocs := ks\<rparr>\<rparr>)"

text \<open>\<open>swap_out_page\<close> returns 0 or -1.\<close>

definition swap_out_page :: "nat option \<Rightarrow> 'a vm_state_scheme \<Rightarrow> (int \<times> 'a vm_state_scheme) option" where
  "swap_out_page page s =
     (case page of
        None \<Rightarrow> Some (-1, s)
      | Some p \<Rightarrow>
          let pg = mem_map s p
          in if mapcount pg \<noteq> 1 then Some (-1, s)
             else case map_mm pg of
               None \<Rightarrow> Some (-1, s)
             | Some mm \<Rightarrow>
                 if map_vaddr pg \<ge> TASK_SIZE then Some (-1, s)
                 else if rmap_list pg \<noteq> [] then Some (-1, s)
                 else case swap_find_slot s of
                   None \<Rightarrow> Some (-1, s)
                 | Some slot \<Rightarrow> do {
                     pte \<leftarrow> get_pte_flags (pgd (mm_structs s mm)) (map_vaddr pg) s;
                     (if \<not> pte_present pte then Some (-1, s)
                      else
                        let phys = pte_pfn pte; (ok, s1) = kmalloc_vm s
                        in if \<not> ok then Some (-1, s1)
                           else do {
                             src \<leftarrow> directmap phys s1;
                             let buf = frame_words (frame_of (virt_to_phys_addr src)) s1;
                             s2 \<leftarrow> set_pte_raw (pgd (mm_structs s1 mm)) (map_vaddr pg) (swap_pte_encode (of_nat slot)) s1;
                             let s3 = page_remove_rmap mm (map_vaddr pg) phys s2;
                             s4 \<leftarrow> free_page phys s3;
                             let s5 = upd_page p (\<lambda>q. q\<lparr>pg_flags := clear_flag (pg_flags q) PG_ISOLATED\<rparr>) s4;
                             Some (0, s5\<lparr>swap_slots := (swap_slots s5)(slot := \<lparr>used = True, sdata = Some buf\<rparr>)\<rparr>)
                           }) })"

text \<open>
  A store of a whole page through a virtual address of the current directory.  If the page is not
  mapped the store faults in turn, which is outside this model.
\<close>

definition store_page :: "u32 \<Rightarrow> u32 list \<Rightarrow> 'a vm_state_scheme \<Rightarrow> 'a vm_state_scheme option" where
  "store_page va ws s = do {
     p \<leftarrow> virt_to_phys va s;
     (if p = 0xFFFFFFFF then None else Some (set_frame (frame_of p) ws s)) }"

definition load_page :: "u32 \<Rightarrow> 'a vm_state_scheme \<Rightarrow> u32 list option" where
  "load_page va s = do {
     p \<leftarrow> virt_to_phys va s;
     (if p = 0xFFFFFFFF then None else Some (frame_words (frame_of p) s)) }"

text \<open>\<open>swap_in_mm\<close> returns 1, 0 if there is nothing to swap in, or -1 if there is no memory.\<close>

definition swap_in_mm :: "'a vm_shrinker \<Rightarrow> nat option \<Rightarrow> u32 \<Rightarrow> 'a vm_state_scheme \<Rightarrow> (int \<times> 'a vm_state_scheme) option" where
  "swap_in_mm shrink mmp vaddr s =
     (case mmp of
        None \<Rightarrow> Some (0, s)
      | Some mm \<Rightarrow>
          if vaddr \<ge> TASK_SIZE then Some (0, s)
          else do {
            pte \<leftarrow> get_pte_raw (pgd (mm_structs s mm)) vaddr s;
            (case swap_pte_decode pte of
               None \<Rightarrow> Some (0, s)
             | Some slot \<Rightarrow>
                 if \<not> used (swap_slots s (unat slot)) \<or> sdata (swap_slots s (unat slot)) = None then Some (0, s)
                 else do {
                   (phys, s1) \<leftarrow> alloc_page shrink GFP_KERNEL s;
                   (if phys = 0 then Some (-1, s1)
                    else
                      let flags = PTE_PRESENT OR PTE_USER OR
                            (if vma_allows (mm_structs s1 mm) vaddr True False then PTE_READ_WRITE else 0)
                      in do {
                        s2 \<leftarrow> map_page_ex shrink (pgd (mm_structs s1 mm)) phys vaddr flags s1;
                        data \<leftarrow> sdata (swap_slots s2 (unat slot));
                        s3 \<leftarrow> store_page vaddr data s2;
                        Some (1, swap_free_slot slot (add_rmap mm vaddr phys s3))
                      }) }) })"

subsection \<open>Swap entries\<close>

lemma frame_bits: "bit ((pte :: u32) AND NOT 0xFFE) n \<longleftrightarrow> bit pte n \<and> (n = 0 \<or> 12 \<le> n)"
proof -
  have e: "(0xFFE :: u32) = push_bit 1 (mask 11)" by (simp add: mask_eq_exp_minus_1)
  have m: "bit (0xFFE :: u32) n \<longleftrightarrow> 1 \<le> n \<and> n < 12" unfolding e bit_push_bit_iff bit_mask_iff by auto
  show ?thesis unfolding bit_and_iff bit_not_iff m using bit_imp_le_length [of pte n] by auto
qed

lemma absent_frame_bits:
  assumes "\<not> pte_present pte"
  shows "pte AND NOT 0xFFE = push_bit 12 (drop_bit 12 pte)"
proof -
  have "\<not> bit pte 0"
  proof
    assume "bit pte 0"
    then have "bit (pte AND PTE_PRESENT) 0" by (simp add: bit_simps PTE_defs)
    then show False using assms by (auto simp: pte_present_def has_flag_def)
  qed
  then show ?thesis by (intro bit_eqI, unfold frame_bits bit_push_bit_iff) (auto simp: bit_drop_bit_eq intro: gr0I)
qed

lemma drop_push_slot: "(slot :: u32) < 64 \<Longrightarrow> drop_bit 12 (push_bit 12 (slot + 1)) = slot + 1"
proof -
  assume "slot < 64"
  then have u: "unat (slot + 1) < 2 ^ 20" by (simp add: word_less_nat_alt unat_word_ariths)
  then have "unat (push_bit 12 (slot + 1)) = unat (slot + 1) * 2 ^ 12"
    unfolding push_bit_eq_mult unat_word_ariths(2) by simp
  then have "unat (drop_bit 12 (push_bit 12 (slot + 1))) = unat (slot + 1)"
    unfolding drop_bit_eq_div unat_div by simp
  then show ?thesis by (rule word_unat_eq_iff [THEN iffD2])
qed

lemma swap_pte_decode_correct:
  "swap_pte_decode pte = Some slot \<longleftrightarrow> slot < 64 \<and> pte AND NOT 0xFFE = swap_pte_encode slot"
proof
  assume h: "swap_pte_decode pte = Some slot"
  then have "\<not> pte_present pte" "drop_bit 12 pte = slot + 1" "slot < 64"
    by (auto simp: swap_pte_decode_def Let_def SWAP_SLOTS_def split: if_splits)
  then show "slot < 64 \<and> pte AND NOT 0xFFE = swap_pte_encode slot"
    using absent_frame_bits [of pte] by (simp add: swap_pte_encode_def)
next
  assume h: "slot < 64 \<and> pte AND NOT 0xFFE = swap_pte_encode slot"
  then have b: "bit pte 0 = bit (push_bit 12 (slot + 1)) 0" using frame_bits [of pte 0] by (simp add: swap_pte_encode_def)
  then have "\<not> bit pte 0" by (simp add: bit_simps)
  then have "pte AND PTE_PRESENT = 0" unfolding PTE_PRESENT_def by (intro bit_eqI) (auto simp: bit_and_iff bit_1_iff intro: gr0I)
  then have np: "\<not> pte_present pte" by (simp add: pte_present_def has_flag_def)
  have "drop_bit 12 pte = drop_bit 12 (pte AND NOT 0xFFE)"
    by (rule bit_eqI, unfold bit_drop_bit_eq comp_def frame_bits) simp
  also have "\<dots> = slot + 1" using h drop_push_slot [of slot] by (simp add: swap_pte_encode_def)
  finally have d: "drop_bit 12 pte = slot + 1" .
  have "slot + 1 \<noteq> 0" using h by (auto simp: word_less_nat_alt unat_word_ariths word_unat_eq_iff)
  then show "swap_pte_decode pte = Some slot"
    using np d h by (auto simp: swap_pte_decode_def Let_def SWAP_SLOTS_def not_le)
qed

lemma swap_decode_encode: "slot < 64 \<Longrightarrow> swap_pte_decode (swap_pte_encode slot) = Some slot"
proof -
  assume "slot < 64"
  moreover have "swap_pte_encode slot AND NOT 0xFFE = swap_pte_encode slot"
    by (rule bit_eqI, unfold frame_bits) (auto simp: swap_pte_encode_def bit_push_bit_iff)
  ultimately show ?thesis using swap_pte_decode_correct by blast
qed

text \<open>
  C26: An entry decodes to a swap slot exactly if, apart from the eleven bits above the present bit, it is the
  encoding of a slot number below 64: encoding and decoding are inverse, no entry of a present page decodes
  to a slot, and a decoded slot number is always in range.
\<close>
theorem swap_pte_decode_iff:
  "swap_pte_decode pte = Some slot \<longleftrightarrow> slot < 64 \<and> pte AND NOT 0xFFE = swap_pte_encode slot"
  by (rule swap_pte_decode_correct)

subsection \<open>Swapping a page out and in\<close>

text \<open>Page \<open>p\<close> is mapped at \<open>va\<close> in the address space \<open>mm\<close>, which is its only user.\<close>

definition sole_user :: "'a vm_state_scheme \<Rightarrow> u32 set \<Rightarrow> nat \<Rightarrow> u32 \<Rightarrow> nat \<Rightarrow> bool" where
  "sole_user s D mm va p \<longleftrightarrow> pgd (mm_structs s mm) \<in> D \<and> va < TASK_SIZE \<and> owned s p \<and> data_frame s D p \<and>
     in_lowmem (of_nat p * PAGE_SIZE) s \<and> pfn_to_page s p = Some p \<and> refcount (mem_map s p) = 1 \<and>
     rmap_view (mem_map s p) = (1, Some mm, va, []) \<and>
     pte_present (pte_view (pgd (mm_structs s mm)) va s) \<and> pte_pfn (pte_view (pgd (mm_structs s mm)) va s) = of_nat p * PAGE_SIZE"

lemma kmalloc_vm_ok: "fst (kmalloc_ok (kmallocs (venv s))) \<Longrightarrow> \<exists>ks. kmalloc_vm s = (True, s\<lparr>venv := (venv s)\<lparr>kmallocs := ks\<rparr>\<rparr>)"
  by (cases "kmalloc_ok (kmallocs (venv s))") (auto simp: kmalloc_vm_def)

lemma page_addr_frame: "p < 2 ^ 20 \<Longrightarrow> frame_of (of_nat p * PAGE_SIZE) = p"
  using page_addr(3) by (simp add: frame_of_def)

lemma sole_userD:
  assumes "sole_user s D mm va p"
  shows "pgd (mm_structs s mm) \<in> D" "va < TASK_SIZE" "owned s p" "data_frame s D p" "in_lowmem (of_nat p * PAGE_SIZE) s"
    "pfn_to_page s p = Some p" "refcount (mem_map s p) = 1" "mapcount (mem_map s p) = 1" "map_mm (mem_map s p) = Some mm"
    "map_vaddr (mem_map s p) = va" "rmap_list (mem_map s p) = []" "pte_present (pte_view (pgd (mm_structs s mm)) va s)"
    "pte_pfn (pte_view (pgd (mm_structs s mm)) va s) = of_nat p * PAGE_SIZE" "p < 2 ^ 20"
  using assms by (auto simp: sole_user_def rmap_view_def owned_def)

lemma swap_out_correct:
  assumes ok: "tables_ok s D" "alloc_ok s" and su: "sole_user s D mm va p"
    and sl: "swap_find_slot s = Some slot" "fst (kmalloc_ok (kmallocs (venv s)))"
  defines "d \<equiv> pgd (mm_structs s mm)"
  shows "\<exists>s'. swap_out_page (Some p) s = Some (0, s') \<and> tables_ok s' D \<and> alloc_ok s' \<and> keeps_setup s s' \<and>
    pte_view d va s' = swap_pte_encode (of_nat slot) \<and>
    (\<forall>d' \<in> D. \<forall>va'. \<not> same_pte s d va d' va' \<longrightarrow> pte_view d' va' s' = pte_view d' va' s) \<and>
    swap_slots s' = (swap_slots s)(slot := \<lparr>used = True, sdata = Some (frame_words p s)\<rparr>) \<and>
    free_frames s' = insert p (free_frames s) \<and> mm_structs s' = mm_structs s \<and> page_directory s' = page_directory s"
proof -
  note u = sole_userD [OF su, folded d_def]
  obtain ks where km: "kmalloc_vm s = (True, s\<lparr>venv := (venv s)\<lparr>kmallocs := ks\<rparr>\<rparr>)" using kmalloc_vm_ok [OF sl(2)] by blast
  define s1 where "s1 = s\<lparr>venv := (venv s)\<lparr>kmallocs := ks\<rparr>\<rparr>"
  have a1: "mm_state.truncate s1 = mm_state.truncate s" by (simp add: s1_def)
  have t1: "tables_ok s1 D" using ok(1) by (rule tables_ok_pmem) (simp_all add: same_alloc [OF a1], simp add: s1_def)
  have v1: "pte_view d' va' s1 = pte_view d' va' s" for d' va' by (rule pte_view_pmem) (simp add: s1_def)
  have pr: "pgd_present (rd d (pgd_index va) s1)"
    using u(12) by (auto simp: pte_view_def Let_def s1_def rd_def pte_present_def has_flag_def split: if_splits)
  obtain s2 where s2: "set_pte_raw d va (swap_pte_encode (of_nat slot)) s1 = Some s2" "tables_ok s2 D"
      "pte_view d va s2 = swap_pte_encode (of_nat slot)"
      "s2 = wr ((rd d (pgd_index va) s1 AND NOT 0xFFF) + PAGE_OFFSET) (pte_index va) (swap_pte_encode (of_nat slot)) s1"
      "\<forall>d' \<in> D. \<forall>i. rd d' i s2 = rd d' i s1"
      "\<forall>d' \<in> D. \<forall>va'. \<not> same_pte s1 d va d' va' \<longrightarrow> pte_view d' va' s2 = pte_view d' va' s1"
    using set_pte_raw_correct [OF t1 u(1) pr] by blast
  have a2: "mm_state.truncate s2 = mm_state.truncate s" using s2(4) a1 by simp
  define s3 where "s3 = page_remove_rmap mm va (of_nat p * PAGE_SIZE) s2"
  have k3: "keeps_config s2 s3" "same_buddy s2 s3" by (simp_all add: s3_def)
  have a3: "alloc_ok s3" "owned s3 p" "refcount (mem_map s3 p) = 1" "free_frames s3 = free_frames s"
    using ok(2) u(3,7) same_alloc [OF a2] alloc_ok_keeps [OF k3] by (simp_all add: s3_def)
  obtain s4 where s4: "free_page (of_nat p * PAGE_SIZE) s3 = Some s4" "alloc_ok s4" "keeps_config s3 s4"
      "free_frames s4 = insert p (free_frames s)"
    using free_page_ok [OF a3(1,2)] a3(3,4) by auto
  define s5 where "s5 = upd_page p (\<lambda>q. q\<lparr>pg_flags := clear_flag (pg_flags q) PG_ISOLATED\<rparr>) s4"
  define s6 where "s6 = s5\<lparr>swap_slots := (swap_slots s5)(slot := \<lparr>used = True, sdata = Some (frame_words p s)\<rparr>)\<rparr>"
  have k5: "keeps_config s4 s5" by (simp add: s5_def)
  have b5: "same_buddy s4 s5" unfolding s5_def
    by (rule same_buddy_upd_page) (simp_all add: has_flag_def clear_flag_def PG_ISOLATED_def PG_BUDDY_def and.assoc)
  note e5 = alloc_ok_keeps [OF k5 b5]
  have m5: "mm_state.more s5 = mm_state.more s2"
    using keeps_configD(6) [OF k3(1)] keeps_configD(6) [OF s4(3)] keeps_configD(6) [OF k5] by simp
  note v5 = same_more [OF m5]
  have a6: "mm_state.truncate s6 = mm_state.truncate s5" by (simp add: s6_def)
  have r5: "alloc_ok s5" "free_frames s5 = insert p (free_frames s)" using e5 s4(2,4) by (simp_all add: s5_def)
  have bm: "bootmem s5 = bootmem s2"
    using keeps_configD(5) [OF k3(1)] keeps_configD(5) [OF s4(3)] keeps_configD(5) [OF k5] by simp
  have dm: "directmap (of_nat p * PAGE_SIZE) s1 = Some (of_nat p * PAGE_SIZE + PAGE_OFFSET)"
    using u(5) same_alloc(6) [OF a1] by (intro directmap_low) simp
  have fw: "frame_words (frame_of (virt_to_phys_addr (of_nat p * PAGE_SIZE + PAGE_OFFSET))) s1 = frame_words p s"
    using page_addr_frame [OF u(14)] frame_words_cong [of s1 p s] by (simp add: s1_def virt_to_phys_addr_def)
  have ms: "pgd (mm_structs s mm) = d" "pgd (mm_structs s1 mm) = d" by (simp_all add: s1_def d_def)
  have "swap_out_page (Some p) s = Some (0, s6)"
    using ms u(2,8-13) sl(1) km s2(1) s4(1) dm fw get_pte_flags_view [OF ok(1) u(1), of va]
    by (simp add: swap_out_page_def Let_def s1_def [symmetric] s3_def [symmetric] s5_def [symmetric] s6_def [symmetric])
  moreover have "tables_ok s6 D"
  proof (rule tables_ok_freed [OF s2(2)])
    show "data_frame s2 D p" using u(4) s2(5) by (simp add: data_frame_def s1_def rd_def)
    show "pmem s6 = pmem s2" "bootmem s6 = bootmem s2" using same_alloc(2) [OF a6] bm by (simp_all add: s6_def v5)
    show "free_frames s6 = insert p (free_frames s2)" using r5(2) same_alloc(3) [OF a6] same_alloc(3) [OF a2] by simp
  qed
  moreover have "keeps_setup s s6"
    using keeps_setupI [OF k3(1)] keeps_setupI [OF s4(3)] keeps_setupI [OF k5] same_alloc(9) [OF a2] same_alloc(9) [OF a6]
    by (meson keeps_setup_trans)
  moreover have "pte_view d' va' s6 = pte_view d' va' s2" for d' va' by (rule pte_view_pmem) (simp add: s6_def v5)
  moreover have "swap_slots s6 = (swap_slots s)(slot := \<lparr>used = True, sdata = Some (frame_words p s)\<rparr>)"
    "mm_structs s6 = mm_structs s" "page_directory s6 = page_directory s"
    using s2(4) by (simp_all add: s6_def v5 s1_def)
  moreover have "same_pte s1 d va d' va' = same_pte s d va d' va'" for d' va' by (simp add: same_pte_def rd_def s1_def)
  ultimately show ?thesis using s2(3,6) v1 r5 same_alloc [OF a6] by auto
qed


lemma virt_to_phys_cong:
  assumes "pmem s' = pmem s" "bootmem s' = bootmem s" "page_directory s' = page_directory s"
  shows "virt_to_phys va s' = virt_to_phys va s"
proof -
  have r: "rd a i s' = rd a i s" for a i using assms(1) by (simp add: rd_def)
  have "directmap a s' = directmap a s" for a using assms(2) by (simp add: directmap_def memlayout_lowmem_phys_end_def)
  then have "pte_table d va s' = pte_table d va s" for d va by (simp add: pte_table_def r Let_def)
  then show "virt_to_phys va s' = virt_to_phys va s"
    by (simp add: virt_to_phys_def virt_to_phys_pgd_def assms(3) r Let_def cong: option.case_cong)
qed

lemma load_page_cong:
  assumes "pmem s' = pmem s" "bootmem s' = bootmem s" "page_directory s' = page_directory s"
  shows "load_page va s' = load_page va s"
proof -
  have "frame_words f s' = frame_words f s" for f using assms(1) by (intro frame_words_cong) simp
  then show ?thesis unfolding load_page_def virt_to_phys_cong [OF assms] by presburger
qed

lemma page_at:
  assumes "virt_to_phys va s = Some (of_nat p * PAGE_SIZE)" "p < 2 ^ 20"
  shows "load_page va s = Some (frame_words p s)" "store_page va ws s = Some (set_frame p ws s)"
proof -
  have "unat (of_nat p * PAGE_SIZE :: u32) mod 4096 = 0" unfolding page_addr(1) [OF assms(2)] by simp
  then have "unat (of_nat p * PAGE_SIZE :: u32) \<noteq> unat (0xFFFFFFFF :: u32)" by auto
  then have "(of_nat p * PAGE_SIZE :: u32) \<noteq> 0xFFFFFFFF" by metis
  then show "load_page va s = Some (frame_words p s)" "store_page va ws s = Some (set_frame p ws s)"
    using assms(1) page_addr_frame [OF assms(2)] by (simp_all add: load_page_def store_page_def)
qed

lemma load_page_view:
  assumes "tables_ok s D" "page_directory s \<in> D" "va AND 0xFFF = 0" "p < 2 ^ 20"
    "pte_present (pte_view (page_directory s) va s)" "pte_pfn (pte_view (page_directory s) va s) = of_nat p * PAGE_SIZE"
  shows "virt_to_phys va s = Some (of_nat p * PAGE_SIZE)" "load_page va s = Some (frame_words p s)"
    "store_page va ws s = Some (set_frame p ws s)"
proof -
  show v: "virt_to_phys va s = Some (of_nat p * PAGE_SIZE)"
    using virt_to_phys_view [OF assms(1,2), of va] assms(3,5,6) by (simp add: virt_to_phys_def)
  show "load_page va s = Some (frame_words p s)" "store_page va ws s = Some (set_frame p ws s)" by (rule page_at [OF v assms(4)])+
qed

lemma add_rmap_keeps:
  "mm_state.truncate (add_rmap mm va phys s) = mm_state.truncate (fst (page_add_anon_rmap mm va phys s (kmallocs (venv s))))"
  "pmem (add_rmap mm va phys s) = pmem s" "mm_structs (add_rmap mm va phys s) = mm_structs s"
  "swap_slots (add_rmap mm va phys s) = swap_slots s" "page_directory (add_rmap mm va phys s) = page_directory s"
  "kernel_directory (add_rmap mm va phys s) = kernel_directory s" "current_mm (add_rmap mm va phys s) = current_mm s"
  "bootmem (add_rmap mm va phys s) = bootmem s" "free_frames (add_rmap mm va phys s) = free_frames s"
  "alloc_ok (add_rmap mm va phys s) = alloc_ok s"
proof -
  obtain t ks where p: "page_add_anon_rmap mm va phys s (kmallocs (venv s)) = (t, ks)" by (metis surj_pair)
  have k: "keeps_config s t" "same_buddy s t" "\<And>q. refcount (mem_map t q) = refcount (mem_map s q)"
    using keeps_rmap(2) [of s mm va phys "kmallocs (venv s)"] same_buddy_rmap(2) [of s mm va phys "kmallocs (venv s)"]
      refcount_rmap(2) [of mm va phys s "kmallocs (venv s)"] by (simp_all add: p)
  have e: "add_rmap mm va phys s = t\<lparr>venv := (venv t)\<lparr>kmallocs := ks\<rparr>\<rparr>" by (simp add: add_rmap_def p)
  note m = same_more [OF keeps_configD(6) [OF k(1)]]
  show tr: "mm_state.truncate (add_rmap mm va phys s) = mm_state.truncate (fst (page_add_anon_rmap mm va phys s (kmallocs (venv s))))"
    by (simp add: e p)
  show "pmem (add_rmap mm va phys s) = pmem s" "mm_structs (add_rmap mm va phys s) = mm_structs s"
    "swap_slots (add_rmap mm va phys s) = swap_slots s" "page_directory (add_rmap mm va phys s) = page_directory s"
    "kernel_directory (add_rmap mm va phys s) = kernel_directory s" "current_mm (add_rmap mm va phys s) = current_mm s"
    by (simp_all add: e m)
  show "bootmem (add_rmap mm va phys s) = bootmem s" "free_frames (add_rmap mm va phys s) = free_frames s"
    "alloc_ok (add_rmap mm va phys s) = alloc_ok s"
    using same_alloc [OF tr] p keeps_configD(5) [OF k(1)] alloc_ok_keeps [OF k] by simp_all
qed

lemma add_rmap_setup:
  "keeps_setup s (add_rmap mm va phys s)" "refcount (mem_map (add_rmap mm va phys s) q) = refcount (mem_map s q)"
proof -
  let ?t = "fst (page_add_anon_rmap mm va phys s (kmallocs (venv s)))"
  note tr = add_rmap_keeps(1) [of mm va phys s]
  show "keeps_setup s (add_rmap mm va phys s)"
    by (rule keeps_setup_trans [OF keeps_setupI [OF keeps_rmap(2)] same_alloc(9) [OF tr]])
  show "refcount (mem_map (add_rmap mm va phys s) q) = refcount (mem_map s q)" using same_alloc(1) [OF tr] by simp
qed

lemma swap_flags: "has_flag (PTE_PRESENT OR PTE_USER OR x) PTE_PRESENT" "(PTE_PRESENT OR PTE_USER) AND NOT 0xFFF = 0"
    "(PTE_PRESENT OR PTE_USER OR PTE_READ_WRITE) AND NOT 0xFFF = 0"
proof -
  have "bit ((PTE_PRESENT OR PTE_USER OR x) AND PTE_PRESENT) 0" by (simp add: bit_simps PTE_defs)
  then show "has_flag (PTE_PRESENT OR PTE_USER OR x) PTE_PRESENT" unfolding has_flag_def by force
qed (simp_all add: PTE_defs)

lemma page_flags_entry:
  assumes "p < 2 ^ 20" "flags AND NOT 0xFFF = 0" "has_flag flags PTE_PRESENT"
  shows "pte_present (of_nat p * PAGE_SIZE OR flags)" "pte_pfn (of_nat p * PAGE_SIZE OR flags) = of_nat p * PAGE_SIZE"
proof -
  have al: "(of_nat p * PAGE_SIZE :: u32) AND 0xFFF = 0" using page_addr(2) [OF assms(1)] by simp
  then show "pte_pfn (of_nat p * PAGE_SIZE OR flags) = of_nat p * PAGE_SIZE"
    unfolding pte_pfn_def by (rule aligned_or_flags [OF _ assms(2)])
  have "(of_nat p * PAGE_SIZE :: u32) AND PTE_PRESENT = (of_nat p * PAGE_SIZE AND 0xFFF) AND PTE_PRESENT"
    by (rule bit_eqI) (auto simp: bit_simps PTE_defs)
  then show "pte_present (of_nat p * PAGE_SIZE OR flags)"
    using al assms(3) by (simp add: pte_present_def has_flag_def bit.conj_disj_distrib2)
qed


text \<open>
  A page that was just allocated is entered into the current directory and filled with \<open>ws\<close>.
\<close>

lemma enter_page:
  assumes ok: "page_directory s \<in> D" and q: "data_frame s D q" "q \<notin> free_frames s" "q < 2 ^ 20"
    and va: "va AND 0xFFF = 0" and fl: "flags AND NOT 0xFFF = 0" "has_flag flags PTE_PRESENT" and len: "length ws = 1024"
    and e: "page_entered D (page_directory s) va (of_nat q * PAGE_SIZE OR flags) s s'"
  shows "data_frame s' D q" "store_page va ws s' = Some (set_frame q ws s')"
    "tables_ok (set_frame q ws s') D" "load_page va (set_frame q ws s') = Some ws"
    "virt_to_phys va s' = Some (of_nat q * PAGE_SIZE)" "virt_to_phys va (set_frame q ws s') = Some (of_nat q * PAGE_SIZE)"
    "d' \<in> D \<Longrightarrow> \<not> same_pte (set_frame q ws s') (page_directory s) va d' va' \<Longrightarrow>
       pte_view d' va' (set_frame q ws s') = pte_view d' va' s"
    "data_frame s D f \<Longrightarrow> f \<notin> free_frames s \<Longrightarrow> f \<noteq> q \<Longrightarrow> pmem (set_frame q ws s') f = pmem s f"
proof -
  let ?d = "page_directory s"
  note s' = page_enteredD [OF e] and o = page_entered_others [OF e]
  show df: "data_frame s' D q" using o(2) [OF q(1,2)] .
  note sf = set_frame_tables [OF s'(1) df, where ws = ws] and en = page_flags_entry [OF q(3) fl]
  have d': "page_directory s' \<in> D" "page_directory (set_frame q ws s') = ?d" using s'(9) ok by (simp_all add: set_frame_def)
  have ld: "virt_to_phys va s' = Some (of_nat q * PAGE_SIZE)" "store_page va ws s' = Some (set_frame q ws s')"
    using load_page_view(1,3) [OF s'(1) d'(1) va q(3)] s'(2,9) en by simp_all
  have ld2: "virt_to_phys va (set_frame q ws s') = Some (of_nat q * PAGE_SIZE)"
      "load_page va (set_frame q ws s') = Some (frame_words q (set_frame q ws s'))"
    using load_page_view(1,2) [OF sf(1) _ va q(3)] d'(2) ok sf(2) [OF ok] s'(2) en by simp_all
  show "tables_ok (set_frame q ws s') D" by (rule sf)
  show "load_page va (set_frame q ws s') = Some ws" unfolding ld2(2) frame_words_set [OF len] ..
  show "store_page va ws s' = Some (set_frame q ws s')" "virt_to_phys va s' = Some (of_nat q * PAGE_SIZE)"
    "virt_to_phys va (set_frame q ws s') = Some (of_nat q * PAGE_SIZE)" by (fact ld ld2)+
  have sp: "same_pte (set_frame q ws s') ?d va d' va' = same_pte s' ?d va d' va'" if "d' \<in> D"
    using df ok that by (simp add: same_pte_def rd_def set_frame_def data_frame_def dir_frame_def)
  show "pte_view d' va' (set_frame q ws s') = pte_view d' va' s"
    if "d' \<in> D" "\<not> same_pte (set_frame q ws s') ?d va d' va'" using that sf(2) o(1) sp by simp
  show "pmem (set_frame q ws s') f = pmem s f" if "data_frame s D f" "f \<notin> free_frames s" "f \<noteq> q"
    using o(3) [OF that(1,2)] that(3) by (simp add: set_frame_def)
qed


lemma swap_in_correct:
  assumes ok: "tables_ok s D" "alloc_ok s" "page_directory s \<in> D" "pgd (mm_structs s mm) = page_directory s"
    and va: "va < TASK_SIZE" "va AND 0xFFF = 0"
    and sl: "slot < SWAP_SLOTS" "pte_view (page_directory s) va s = swap_pte_encode (of_nat slot)"
      "swap_slots s slot = \<lparr>used = True, sdata = Some ws\<rparr>" "length ws = 1024"
    and tk: "takes_page shrink s q s1"
  shows "\<exists>s'. swap_in_mm shrink (Some mm) va s = Some (1, s') \<and> tables_ok s' D \<and> alloc_ok s' \<and> load_page va s' = Some ws \<and>
    swap_slots s' = (swap_slots s)(slot := \<lparr>used = False, sdata = None\<rparr>) \<and> mm_structs s' = mm_structs s \<and>
    (\<forall>d' \<in> D. \<forall>va'. \<not> same_pte s' (page_directory s) va d' va' \<longrightarrow> pte_view d' va' s' = pte_view d' va' s)"
proof -
  let ?d = "page_directory s"
  have us: "unat (of_nat slot :: u32) = slot" "(of_nat slot :: u32) < 64"
    using sl(1) by (simp_all add: SWAP_SLOTS_def unat_of_nat word_less_nat_alt)
  have dec: "swap_pte_decode (swap_pte_encode (of_nat slot)) = Some (of_nat slot)" by (rule swap_decode_encode [OF us(2)])
  have pr: "pgd_present (rd ?d (pgd_index va) s)"
  proof (rule ccontr)
    assume "\<not> ?thesis"
    then have "pte_view ?d va s = 0" by (simp add: pte_view_def Let_def)
    then show False using dec sl(2) by (simp add: swap_pte_decode_def pte_present_def has_flag_def Let_def)
  qed
  have q: "q < 2 ^ 20" "q \<noteq> 0" "q \<notin> free_frames s1" "alloc_page shrink GFP_KERNEL s = Some (of_nat q * PAGE_SIZE, s1)"
    using tk by (auto simp: takes_page_def)
  note k = takes_page_keeps [OF tk] and tt = takes_page_tables [OF ok(1) tk]
  define flags where "flags = PTE_PRESENT OR PTE_USER OR (if vma_allows (mm_structs s mm) va True False then PTE_READ_WRITE else 0)"
  have fl: "flags AND NOT 0xFFF = 0" "has_flag flags PTE_PRESENT" using swap_flags by (simp_all add: flags_def)
  have pr1: "pgd_present (rd (page_directory s1) (pgd_index va) s1) \<or> takes_page shrink s1 0 s1" using pr by (simp add: rd_def k)
  have d1: "page_directory s1 \<in> D" using ok(3) k by simp
  obtain s2 where m2: "map_page_ex shrink (page_directory s1) (of_nat q * PAGE_SIZE) va flags s1 = Some s2"
      and en: "page_entered D (page_directory s1) va (of_nat q * PAGE_SIZE OR flags) s1 s2"
    using map_page_ex_full [OF tt(1) d1 pr1] by blast
  note s2 = enter_page [OF d1 tt(2) q(3,1) va(2) fl sl(4) en] page_enteredD [OF en]
  define s3 where "s3 = set_frame q ws s2"
  have a3: "mm_state.truncate s3 = mm_state.truncate s2" by (simp add: s3_def)
  define s4 where "s4 = swap_free_slot (of_nat slot) (add_rmap mm va (of_nat q * PAGE_SIZE) s3)"
  have e3: "swap_slots s3 = swap_slots s" "mm_structs s3 = mm_structs s" "page_directory s3 = ?d"
    using s2(15-17) k by (simp_all add: s3_def set_frame_def)
  have e4: "s4 = (add_rmap mm va (of_nat q * PAGE_SIZE) s3)\<lparr>swap_slots := (swap_slots s)(slot := \<lparr>used = False, sdata = None\<rparr>)\<rparr>"
    using sl(1,3) by (simp add: s4_def swap_free_slot_def us add_rmap_keeps e3)
  have p4: "pmem s4 = pmem s3" "mm_structs s4 = mm_structs s" "page_directory s4 = ?d"
      "swap_slots s4 = (swap_slots s)(slot := \<lparr>used = False, sdata = None\<rparr>)"
    by (simp_all add: e4 add_rmap_keeps e3)
  have a4: "mm_state.truncate s4 = mm_state.truncate (add_rmap mm va (of_nat q * PAGE_SIZE) s3)" by (simp add: e4)
  have nz: "(of_nat q * PAGE_SIZE :: u32) \<noteq> 0" using page_addr(1) [OF q(1)] q(2) by (metis mult_eq_0_iff unat_0 zero_neq_numeral)
  have "swap_in_mm shrink (Some mm) va s = Some (1, s4)"
    using va(1) sl(2,3) get_pte_raw_view [OF ok(1,3)] dec us(1) q(4) nz m2 s2(2,16)
    by (simp add: swap_in_mm_def ok(4) k flags_def [symmetric] Let_def) (simp add: s4_def s3_def)
  moreover have "tables_ok s4 D"
    using s2(3) by (rule tables_ok_pmem) (simp_all add: s3_def [symmetric] p4 same_alloc(2,3) [OF a4] add_rmap_keeps)
  moreover have "alloc_ok s4"
    using s2(11) takes_page_alloc [OF tk ok(2)] same_alloc(4) [OF a3] same_alloc(4) [OF a4] by (simp add: add_rmap_keeps)
  moreover have "load_page va s4 = Some ws"
  proof -
    have "load_page va s4 = load_page va s3"
      using p4 e3 same_alloc(2) [OF a4] by (intro load_page_cong) (simp_all add: add_rmap_keeps)
    then show ?thesis using s2(4) by (simp add: s3_def)
  qed
  moreover have "pte_view d' va' s4 = pte_view d' va' s"
    if "d' \<in> D" "\<not> same_pte s4 ?d va d' va'" for d' va'
  proof -
    have "same_pte s4 ?d va d' va' = same_pte s3 ?d va d' va'" by (simp add: same_pte_def rd_def p4)
    then show ?thesis using s2(7) [OF that(1)] that(2) tt(3) k pte_view_pmem [OF p4(1)] by (simp add: s3_def)
  qed
  ultimately show ?thesis using p4 by blast
qed


lemma find_slot_free: "swap_find_slot s = Some slot \<Longrightarrow> slot < SWAP_SLOTS \<and> \<not> used (swap_slots s slot)"
  by (auto simp: swap_find_slot_def find_Some_iff)



subsection \<open>Witness\<close>

text \<open>A page with some content in frame 4, mapped at 4 MiB through the table in frame 3.\<close>

definition demo_page_vm :: "u32 \<Rightarrow> nat \<Rightarrow> 'a \<Rightarrow> 'a vm_state_scheme" where
  "demo_page_vm pte rc x =
     upd_page 4 (\<lambda>q. q\<lparr>refcount := rc, mapcount := 1, map_mm := Some 0, map_vaddr := 0x400000, rmap_list := []\<rparr>)
       (wr 0xC0004000 0 42 (wr 0xC0003000 0 pte (wr 0xC0002000 1 0x3007 (demo_vm x))))"

lemma demo_dirs: "dir_frame 0xC0002000 = 2" "dir_frame 0xC0003000 = 3" "dir_frame 0xC0004000 = 4"
    "pgd_index 0x400000 = 1" "pte_index 0x400000 = 0" "tbl 0x3007 = 3"
  by (simp_all add: dir_frame_def frame_of_def virt_to_phys_addr_def pgd_index_def pte_index_def tbl_def)

lemma demo_page_vm_mem:
  "pmem (demo_page_vm pte rc x) f i = (if f = 4 \<and> i = 0 then 42 else if f = 3 \<and> i = 0 then pte else if f = 2 \<and> i = 1 then 0x3007 else 0)"
  "rd 0xC0002000 i (demo_page_vm pte rc x) = (if i = 1 then 0x3007 else 0)"
  "mm_structs (demo_page_vm pte rc x) = mm_structs (demo_vm x)" "page_directory (demo_page_vm pte rc x) = 0xC0002000"
  "swap_slots (demo_page_vm pte rc x) = swap_slots (demo_vm x)" "venv (demo_page_vm pte rc x) = demo_env"
proof -
  show p: "pmem (demo_page_vm pte rc x) f i = (if f = 4 \<and> i = 0 then 42 else if f = 3 \<and> i = 0 then pte else if f = 2 \<and> i = 1 then 0x3007 else 0)" for f i
    unfolding demo_page_vm_def upd_page_def by (simp add: pmem_wr demo_dirs demo_vm_sel)
  show "rd 0xC0002000 i (demo_page_vm pte rc x) = (if i = 1 then 0x3007 else 0)"
    using demo_dirs(1) by (simp add: rd_def dir_frame_def p)
qed (simp_all add: demo_page_vm_def upd_page_def demo_vm_sel)

lemma demo_page_alloc:
  "same_buddy (demo_vm x) (demo_page_vm pte rc x)" "keeps_setup (demo_vm x) (demo_page_vm pte rc x)" "alloc_ok (demo_page_vm pte rc x)"
  "free_frames (demo_page_vm pte rc x) = {8..<16}" "mem_map (demo_page_vm pte rc x) 4 = (mem_map (demo_vm x) 4)
     \<lparr>refcount := rc, mapcount := 1, map_mm := Some 0, map_vaddr := 0x400000, rmap_list := []\<rparr>"
proof -
  let ?t = "wr 0xC0004000 0 42 (wr 0xC0003000 0 pte (wr 0xC0002000 1 0x3007 (demo_vm x)))"
  have tr: "mm_state.truncate ?t = mm_state.truncate (demo_vm x)" by simp
  have sb: "same_buddy ?t (demo_page_vm pte rc x)" unfolding demo_page_vm_def by (rule same_buddy_upd_page) simp_all
  have ks: "keeps_config ?t (demo_page_vm pte rc x)" unfolding demo_page_vm_def by simp
  have st: "same_buddy (demo_vm x) ?t" by (rule same_alloc(10) [OF tr])
  show "same_buddy (demo_vm x) (demo_page_vm pte rc x)" using st sb by (rule same_buddy_trans)
  then have b: "free_frames (demo_page_vm pte rc x) = free_frames (demo_vm x)" by (rule same_buddyD(2))
  then show "free_frames (demo_page_vm pte rc x) = {8..<16}" by (simp add: demo_vm_free)
  show "keeps_setup (demo_vm x) (demo_page_vm pte rc x)" by (rule keeps_setup_trans [OF same_alloc(9) [OF tr] keeps_setupI [OF ks]])
  show mm: "mem_map (demo_page_vm pte rc x) 4 = (mem_map (demo_vm x) 4)
     \<lparr>refcount := rc, mapcount := 1, map_mm := Some 0, map_vaddr := 0x400000, rmap_list := []\<rparr>"
    by (simp add: demo_page_vm_def)
  have "alloc_ok (demo_vm x)" by (simp add: alloc_ok_def demo_vm_def demo_pages_state)
  moreover have "refcount (mem_map (demo_page_vm pte rc x) f) = refcount (mem_map (demo_vm x) f)" if "f \<in> {8..<16}" for f
    using that by (auto simp: demo_page_vm_def)
  ultimately show "alloc_ok (demo_page_vm pte rc x)"
    using same_buddyD [OF sb] same_buddyD [OF st] keeps_configD [OF ks] same_alloc [OF tr] b
    by (auto simp: alloc_ok_def pages_inv_def demo_vm_free)
qed


lemma demo_page_tables: "tables_ok (demo_page_vm pte rc x) {0xC0002000}" "data_frame (demo_page_vm pte rc x) {0xC0002000} 4"
proof -
  have l: "in_lowmem a (demo_page_vm pte rc x)" for a
    using demo_low [of a x] demo_page_alloc(2) [of x pte rc] by (simp add: keeps_setup_def in_lowmem_def memlayout_lowmem_phys_end_def)
  show "tables_ok (demo_page_vm pte rc x) {0xC0002000}"
    by (rule tables_okI) (auto simp: demo_page_vm_mem demo_page_alloc demo_dirs l pgd_present_def has_flag_def split: if_splits)
  show "data_frame (demo_page_vm pte rc x) {0xC0002000} 4"
    by (simp add: data_frame_def demo_page_vm_mem demo_dirs pgd_present_def has_flag_def)
qed

lemma demo_page_facts:
  "pte_view 0xC0002000 0x400000 (demo_page_vm pte rc x) = pte" "owned (demo_page_vm pte rc x) 4"
  "pfn_to_page (demo_page_vm pte rc x) 4 = Some 4" "in_lowmem a (demo_page_vm pte rc x)"
proof -
  show "pte_view 0xC0002000 0x400000 (demo_page_vm pte rc x) = pte"
    by (simp add: pte_view_def demo_page_vm_mem demo_dirs pgd_present_def has_flag_def PTE_defs)
  have k: "same_shape (demo_vm x) (demo_page_vm pte rc x)" by (rule same_buddyD(5) [OF demo_page_alloc(1)])
  have "block_ok (demo_vm x) ZONE_DMA 4 2" unfolding demo_vm_def by (rule demo_block_4(1))
  then have "block_ok (demo_vm x) ZONE_DMA 4 0" by (auto simp: block_ok_def)
  then show "owned (demo_page_vm pte rc x) 4"
    using same_shapeD(4) [OF k] by (auto simp: owned_def demo_page_alloc)
  show "pfn_to_page (demo_page_vm pte rc x) 4 = Some 4"
    using same_shapeD(7) [OF k] by (simp add: pfn_to_page_def demo_vm_def demo_pages_state)
  show "in_lowmem a (demo_page_vm pte rc x)"
    using demo_low [of a x] demo_page_alloc(2) [of x pte rc] by (simp add: keeps_setup_def in_lowmem_def memlayout_lowmem_phys_end_def)
qed

lemma demo_page_sole: "sole_user (demo_page_vm 0x4007 1 x) {0xC0002000} 0 0x400000 4"
  unfolding sole_user_def rmap_view_def demo_page_vm_mem(3) demo_vm_sel
  by (simp add: demo_page_facts demo_page_tables(2) demo_page_alloc(5) pte_present_def pte_pfn_def has_flag_def PTE_defs)

lemma demo_page_plenty: "plenty (demo_page_vm pte rc x)"
  using plenty_mono [OF demo_plenty demo_page_alloc(3,2)] by (simp add: demo_vm_free demo_page_alloc(4))


end
