(* ===== verification/Mmap.thy ===== *)
theory Mmap
  imports Swap
begin

text \<open>
  The operations of \<open>mm/mmap.c\<close> that change page tables: tearing down mappings, changing their
  protection, and creating, duplicating and destroying an address space.  An \<open>mm_struct *\<close> is the
  number of an address space, \<open>None\<close> for NULL; \<open>kmalloc\<close> takes a number that was never used.
\<close>

subsection \<open>Tearing down mappings\<close>

text \<open>The addresses of the loops \<open>for (va = start; va < end; va += PAGE_SIZE)\<close>, whose bounds start pages.\<close>

definition page_range :: "u32 \<Rightarrow> u32 \<Rightarrow> u32 list" where
  "page_range start end = map (\<lambda>n. of_nat n * PAGE_SIZE) [unat (start div PAGE_SIZE)..<unat (end div PAGE_SIZE)]"

definition task_free_user_page_mapped :: "nat option \<Rightarrow> u32 \<Rightarrow> u32 \<Rightarrow> 'a vm_state_scheme \<Rightarrow> (int \<times> 'a vm_state_scheme) option" where
  "task_free_user_page_mapped mm dir va_page s = do {
     t \<leftarrow> pte_table dir va_page s;
     (case t of None \<Rightarrow> Some (0, s)
      | Some table \<Rightarrow>
          let pte = rd table (pte_index va_page) s
          in if \<not> pte_present pte then
               (case swap_pte_decode pte of
                  Some slot \<Rightarrow> Some (1, swap_free_slot slot (wr table (pte_index va_page) 0 s))
                | None \<Rightarrow> Some (0, s))
             else if \<not> pte_user pte then Some (0, s)
             else
               let phys = pte_pfn pte;
                   s1 = wr table (pte_index va_page) 0 s;
                   s2 = (case mm of None \<Rightarrow> s1 | Some m \<Rightarrow> page_remove_rmap m va_page phys s1)
               in do { s3 \<leftarrow> free_page phys s2; Some (1, s3) }) }"

definition pte_table_empty :: "u32 \<Rightarrow> 'a vm_state_scheme \<Rightarrow> bool" where
  "pte_table_empty table s \<longleftrightarrow> table = 0 \<or> list_all (\<lambda>i. \<not> pte_present (rd table i s)) [0..<1024]"

text \<open>The directory entry refers to the same table as the kernel directory.\<close>

definition kernel_table :: "u32 \<Rightarrow> nat \<Rightarrow> 'a vm_state_scheme \<Rightarrow> bool" where
  "kernel_table dir i s =
     (let kernel_dir = kernel_directory s;
          kernel_pde_phys = (if kernel_dir \<noteq> 0 \<and> pgd_present (rd kernel_dir i s) then rd kernel_dir i s AND NOT 0xFFF else 0)
      in kernel_pde_phys \<noteq> 0 \<and> kernel_pde_phys = rd dir i s AND NOT 0xFFF)"

text \<open>The part of the loop that frees a table without present entries.\<close>

definition zap_table :: "u32 \<Rightarrow> nat \<Rightarrow> 'a vm_state_scheme \<Rightarrow> 'a vm_state_scheme option" where
  "zap_table dir i s =
     (let pde = rd dir i s; pde_phys = pde AND NOT 0xFFF
      in if \<not> pgd_present pde then Some s
         else if kernel_table dir i s then Some s
         else do {
           table \<leftarrow> directmap pde_phys s;
           (if \<not> pte_table_empty table s then Some s else free_page pde_phys (wr dir i 0 s)) })"

fun zap_pages :: "nat option \<Rightarrow> u32 \<Rightarrow> nat \<Rightarrow> u32 list \<Rightarrow> 'a vm_state_scheme \<Rightarrow> 'a vm_state_scheme option" where
  "zap_pages mm dir last_pde_idx [] s = Some s"
| "zap_pages mm dir last_pde_idx (va # vas) s = do {
     (r, s1) \<leftarrow> task_free_user_page_mapped mm dir va s;
     (if pgd_index va = last_pde_idx then zap_pages mm dir last_pde_idx vas s1
      else do { s2 \<leftarrow> zap_table dir (pgd_index va) s1; zap_pages mm dir (pgd_index va) vas s2 }) }"

definition zap_page_range :: "nat option \<Rightarrow> u32 \<Rightarrow> u32 \<Rightarrow> u32 \<Rightarrow> 'a vm_state_scheme \<Rightarrow> 'a vm_state_scheme option" where
  "zap_page_range mm dir start end s =
     (if dir = 0 then Some s
      else
        let page_start = start AND NOT 0xFFF; page_end = (end + 0xFFF) AND NOT 0xFFF
        in if page_end \<le> page_start then Some s
           else zap_pages mm dir 0xFFFFFFFF (page_range page_start page_end) s)"

subsection \<open>Unmapping, protection, resizing\<close>

definition upd_mm :: "nat \<Rightarrow> (mm_struct \<Rightarrow> mm_struct) \<Rightarrow> 'a vm_state_scheme \<Rightarrow> 'a vm_state_scheme" where
  "upd_mm mm f s = s\<lparr>mm_structs := (mm_structs s)(mm := f (mm_structs s mm))\<rparr>"

definition do_munmap :: "nat option \<Rightarrow> u32 \<Rightarrow> u32 \<Rightarrow> 'a vm_state_scheme \<Rightarrow> (int \<times> 'a vm_state_scheme) option" where
  "do_munmap mmp addr len0 s =
     (case mmp of None \<Rightarrow> Some (-1, s)
      | Some mm \<Rightarrow>
          if len0 = 0 \<or> addr < 0x1000 \<or> addr AND 0xFFF \<noteq> 0 then Some (-1, s)
          else
            let len = page_align_up len0; end = addr + len
            in if len = 0 \<or> end \<le> addr then Some (-1, s)
               else
                 case unmap_vmas addr end (mmap (mm_structs s mm)) (venv s) of
                   (vs, env) \<Rightarrow>
                     let s1 = upd_mm mm (\<lambda>m. vma_merge_adjacent (m\<lparr>mmap := vs\<rparr>)) (s\<lparr>venv := env\<rparr>)
                     in do { s2 \<leftarrow> zap_page_range (Some mm) (pgd (mm_structs s1 mm)) addr end s1; Some (0, s2) })"

fun update_flags_loop :: "u32 \<Rightarrow> u32 \<Rightarrow> u32 list \<Rightarrow> 'a vm_state_scheme \<Rightarrow> 'a vm_state_scheme option" where
  "update_flags_loop dir flags [] s = Some s"
| "update_flags_loop dir flags (va # vas) s = do {
     pte \<leftarrow> get_pte_flags dir va s;
     (if pte = 0 then update_flags_loop dir flags vas s
      else
        let f0 = (pte AND (PAGE_SIZE - 1)) OR PTE_USER OR PTE_PRESENT;
            f1 = (if has_flag flags PTE_READ_WRITE then f0 OR PTE_READ_WRITE else clear_flag f0 PTE_READ_WRITE);
            f2 = (if has_flag flags PTE_READ_WRITE then f1 else clear_flag f1 PTE_COW)
        in do { s1 \<leftarrow> set_pte_flags dir va f2 s; update_flags_loop dir flags vas s1 }) }"

definition update_mapped_page_flags :: "nat \<Rightarrow> u32 \<Rightarrow> u32 \<Rightarrow> u32 \<Rightarrow> 'a vm_state_scheme \<Rightarrow> (int \<times> 'a vm_state_scheme) option" where
  "update_mapped_page_flags mm start end prot s =
     (if pgd (mm_structs s mm) = 0 then Some (-1, s)
      else
        let flags = PTE_PRESENT OR PTE_USER OR (if has_flag prot VMA_WRITE then PTE_READ_WRITE else 0);
            page_start = start AND NOT 0xFFF; page_end = (end + 0xFFF) AND NOT 0xFFF
        in do { s1 \<leftarrow> update_flags_loop (pgd (mm_structs s mm)) flags (page_range page_start page_end) s; Some (0, s1) })"

definition do_mprotect :: "nat option \<Rightarrow> u32 \<Rightarrow> u32 \<Rightarrow> u32 \<Rightarrow> 'a vm_state_scheme \<Rightarrow> (u32 \<times> 'a vm_state_scheme) option" where
  "do_mprotect mmp addr len0 prot s =
     (case mmp of None \<Rightarrow> Some (0, s)
      | Some mm \<Rightarrow>
          if len0 = 0 \<or> addr < 0x1000 \<or> addr AND 0xFFF \<noteq> 0 then Some (0, s)
          else
            let len = page_align_up len0; end = addr + len; flags = prot_flags prot
            in if len = 0 \<or> end \<le> addr then Some (0, s)
               else case vma_find_covering (mm_structs s mm) addr end of
                      None \<Rightarrow> Some (0, s)
                    | Some v \<Rightarrow>
                        (case protect_vma (mm_structs s mm) v addr end flags (venv s) of
                           (m, env) \<Rightarrow> do {
                             (r, s1) \<leftarrow> update_mapped_page_flags mm addr end flags (upd_mm mm (\<lambda>_. m) (s\<lparr>venv := env\<rparr>));
                             Some (1, upd_mm mm vma_merge_adjacent s1) }))"

definition do_mremap :: "nat option \<Rightarrow> u32 \<Rightarrow> u32 \<Rightarrow> u32 \<Rightarrow> 'a vm_state_scheme \<Rightarrow> (u32 \<times> 'a vm_state_scheme) option" where
  "do_mremap mmp addr old_length new_length s =
     (case mmp of None \<Rightarrow> Some (0, s)
      | Some mm \<Rightarrow>
          if old_length = 0 \<or> new_length = 0 \<or> addr < 0x1000 \<or> addr AND 0xFFF \<noteq> 0 then Some (0, s)
          else
            let old_len = page_align_up old_length; new_len = page_align_up new_length;
                old_end = addr + old_len; new_end = addr + new_len
            in if old_len = 0 \<or> new_len = 0 \<or> old_end \<le> addr \<or> new_end \<le> addr then Some (0, s)
               else case vma_find_covering (mm_structs s mm) addr old_end of
                      None \<Rightarrow> Some (0, s)
                    | Some v \<Rightarrow>
                        if new_len = old_len then Some (addr, s)
                        else if new_len < old_len then do {
                          let s1 = upd_mm mm (vma_update (vm_ptr v) (\<lambda>w. w\<lparr>vm_end := addr + new_len\<rparr>)) s;
                          s2 \<leftarrow> zap_page_range (Some mm) (pgd (mm_structs s1 mm)) (addr + new_len) old_end s1;
                          Some (addr, upd_mm mm vma_merge_adjacent s2) }
                        else if new_end > mm_limit (mm_structs s mm) then Some (0, s)
                        else if \<not> vma_range_free (mm_structs s mm) old_end new_end then Some (0, s)
                        else Some (addr, upd_mm mm (\<lambda>m. vma_merge_adjacent (vma_update (vm_ptr v) (\<lambda>w. w\<lparr>vm_end := new_end\<rparr>) m)) s))"

subsection \<open>Address spaces\<close>

definition mm_zero :: mm_struct where
  "mm_zero = \<lparr>pgd = 0, start_code = 0, end_code = 0, start_stack = 0, start_brk = 0, brk = 0, mmap = []\<rparr>"

text \<open>\<open>kmalloc(sizeof(struct mm_struct))\<close> and the clearing of the memory.\<close>

definition mm_new :: "'a vm_state_scheme \<Rightarrow> nat option \<times> 'a vm_state_scheme" where
  "mm_new s =
     (case kmalloc_vm s of
        (False, s1) \<Rightarrow> (None, s1)
      | (True, s1) \<Rightarrow>
          let n = vma_fresh (venv s1)
          in (Some n, upd_mm n (\<lambda>_. mm_zero) (s1\<lparr>venv := (venv s1)\<lparr>vma_fresh := n + 1\<rparr>\<rparr>)))"

definition mm_create :: "'a vm_state_scheme \<Rightarrow> nat option \<times> 'a vm_state_scheme" where
  "mm_create s =
     (case mm_new s of
        (None, s1) \<Rightarrow> (None, s1)
      | (Some n, s1) \<Rightarrow> (Some n, upd_mm n (\<lambda>m. m\<lparr>pgd := page_directory s1\<rparr>) s1))"

text \<open>Freeing a directory given by its virtual address.\<close>

definition free_pgd :: "u32 \<Rightarrow> 'a vm_state_scheme \<Rightarrow> 'a vm_state_scheme option" where
  "free_pgd dir s = (if dir \<ge> PAGE_OFFSET then free_page (virt_to_phys_addr dir) s else free_page dir s)"

text \<open>
  Sharing the present user pages of an address range: writable entries become read-only with the copy-on-write
  mark in both directories.
\<close>

fun dup_pages :: "'a vm_shrinker \<Rightarrow> nat \<Rightarrow> nat \<Rightarrow> u32 \<Rightarrow> u32 list \<Rightarrow> 'a vm_state_scheme \<Rightarrow> 'a vm_state_scheme option" where
  "dup_pages shrink src mm new_dir [] s = Some s"
| "dup_pages shrink src mm new_dir (va # vas) s = do {
     pte \<leftarrow> get_pte_flags (pgd (mm_structs s src)) va s;
     (if \<not> has_flag pte PTE_PRESENT \<or> \<not> has_flag pte PTE_USER then dup_pages shrink src mm new_dir vas s
      else
        let phys = pte_pfn pte;
            flags0 = pte AND 0xFFF;
            flags = (if has_flag flags0 PTE_READ_WRITE then clear_flag flags0 PTE_READ_WRITE OR PTE_COW else flags0)
        in do {
             s1 \<leftarrow> (if has_flag flags0 PTE_READ_WRITE then set_pte_flags (pgd (mm_structs s src)) va flags s else Some s);
             s2 \<leftarrow> map_page_ex shrink new_dir phys va flags s1;
             let s3 = (case page_dup_rmap src mm va phys s2 (kmallocs (venv s2)) of
                         (s3, ks) \<Rightarrow> s3\<lparr>venv := (venv s3)\<lparr>kmallocs := ks\<rparr>\<rparr>);
             dup_pages shrink src mm new_dir vas (get_page phys s3) }) }"

fun dup_vmas :: "'a vm_shrinker \<Rightarrow> nat \<Rightarrow> nat \<Rightarrow> u32 \<Rightarrow> vm_area_struct list \<Rightarrow> 'a vm_state_scheme \<Rightarrow> 'a vm_state_scheme option" where
  "dup_vmas shrink src mm new_dir [] s = Some s"
| "dup_vmas shrink src mm new_dir (v # vs) s = do {
     s1 \<leftarrow> dup_pages shrink src mm new_dir (page_range (vm_start v AND NOT 0xFFF) ((vm_end v + 0xFFF) AND NOT 0xFFF)) s;
     dup_vmas shrink src mm new_dir vs s1 }"

definition dup_mm :: "'a vm_shrinker \<Rightarrow> nat option \<Rightarrow> 'a vm_state_scheme \<Rightarrow> (nat option \<times> 'a vm_state_scheme) option" where
  "dup_mm shrink srcp s =
     (case srcp of None \<Rightarrow> Some (None, s)
      | Some src \<Rightarrow> do {
          (new_dir, s1) \<leftarrow> pgd_clone_kernel shrink s;
          (if new_dir = 0 then Some (None, s1)
           else case mm_new s1 of
             (None, s2) \<Rightarrow> do { s3 \<leftarrow> free_pgd new_dir s2; Some (None, s3) }
           | (Some mm, s2) \<Rightarrow>
               let sm = mm_structs s2 src
               in case vma_clone_list (mmap sm) (venv s2) of
                    (vs, env) \<Rightarrow>
                      let s3 = upd_mm mm (\<lambda>m. m\<lparr>pgd := new_dir, start_code := start_code sm, end_code := end_code sm,
                                 start_stack := start_stack sm, start_brk := start_brk sm, brk := brk sm,
                                 mmap := (case vs of None \<Rightarrow> [] | Some ws \<Rightarrow> ws)\<rparr>) (s2\<lparr>venv := env\<rparr>)
                      in if mmap sm \<noteq> [] \<and> vs = None then do { s4 \<leftarrow> free_pgd new_dir s3; Some (None, s4) }
                         else do { s4 \<leftarrow> dup_vmas shrink src mm new_dir (mmap sm) s3; Some (Some mm, s4) }) })"

text \<open>The loop over the areas and the loop over the tables of \<open>mm_destroy\<close>.\<close>

fun destroy_vmas :: "nat \<Rightarrow> vm_area_struct list \<Rightarrow> 'a vm_state_scheme \<Rightarrow> 'a vm_state_scheme option" where
  "destroy_vmas mm [] s = Some s"
| "destroy_vmas mm (v # vs) s = do {
     let start = vm_start v AND NOT 0xFFF;
     let end = (vm_end v + 0xFFF) AND NOT 0xFFF;
     s1 \<leftarrow> (if end > start then zap_page_range (Some mm) (pgd (mm_structs s mm)) start end s else Some s);
     destroy_vmas mm vs s1 }"

fun destroy_tables :: "u32 \<Rightarrow> nat list \<Rightarrow> 'a vm_state_scheme \<Rightarrow> 'a vm_state_scheme option" where
  "destroy_tables dir [] s = Some s"
| "destroy_tables dir (i # is) s =
     (let pde = rd dir i s
      in if \<not> has_flag pde PTE_PRESENT then destroy_tables dir is s
         else if kernel_table dir i s then destroy_tables dir is s
         else do { s1 \<leftarrow> free_page (pde AND NOT 0xFFF) s; destroy_tables dir is s1 })"

definition mm_destroy :: "nat option \<Rightarrow> 'a vm_state_scheme \<Rightarrow> 'a vm_state_scheme option" where
  "mm_destroy mmp s =
     (case mmp of None \<Rightarrow> Some s
      | Some mm \<Rightarrow>
          let dir = pgd (mm_structs s mm)
          in if dir = 0 \<or> dir = kernel_directory s then Some (upd_mm mm vma_list_free s)
             else do {
               s1 \<leftarrow> destroy_vmas mm (mmap (mm_structs s mm)) s;
               s2 \<leftarrow> destroy_tables (pgd (mm_structs s1 mm)) [0..<1024] s1;
               s3 \<leftarrow> free_pgd (pgd (mm_structs s2 mm)) s2;
               Some (upd_mm mm vma_list_free s3) })"

subsection \<open>System calls\<close>

definition sys_mmap :: "u32 \<Rightarrow> u32 \<Rightarrow> u32 \<Rightarrow> 'a vm_state_scheme \<Rightarrow> (u32 \<times> 'a vm_state_scheme) option" where
  "sys_mmap addr len0 prot s =
     (case current_mm s of None \<Rightarrow> Some (0, s)
      | Some mm \<Rightarrow> do {
          (a, m, env) \<leftarrow> do_mmap (mm_structs s mm) addr len0 prot (venv s);
          Some (a, upd_mm mm (\<lambda>_. m) (s\<lparr>venv := env\<rparr>)) })"

definition sys_munmap :: "u32 \<Rightarrow> u32 \<Rightarrow> 'a vm_state_scheme \<Rightarrow> (int \<times> 'a vm_state_scheme) option" where
  "sys_munmap addr len0 s = (if current_mm s = None then Some (-1, s) else do_munmap (current_mm s) addr len0 s)"

definition sys_mprotect :: "u32 \<Rightarrow> u32 \<Rightarrow> u32 \<Rightarrow> 'a vm_state_scheme \<Rightarrow> (u32 \<times> 'a vm_state_scheme) option" where
  "sys_mprotect addr len0 prot s = (if current_mm s = None then Some (0, s) else do_mprotect (current_mm s) addr len0 prot s)"

definition sys_mremap :: "u32 \<Rightarrow> u32 \<Rightarrow> u32 \<Rightarrow> 'a vm_state_scheme \<Rightarrow> (u32 \<times> 'a vm_state_scheme) option" where
  "sys_mremap addr old_length new_length s =
     (if current_mm s = None then Some (0, s) else do_mremap (current_mm s) addr old_length new_length s)"

definition sys_brk :: "u32 \<Rightarrow> 'a vm_state_scheme \<Rightarrow> u32 \<times> 'a vm_state_scheme" where
  "sys_brk new_end s =
     (case current_mm s of None \<Rightarrow> (0, s)
      | Some mm \<Rightarrow> (case do_brk (mm_structs s mm) new_end of (r, m) \<Rightarrow> (r, upd_mm mm (\<lambda>_. m) s)))"

end
