(* ===== verification/Fault.thy ===== *)
theory Fault
  imports Mmap
begin

text \<open>
  Page faults and the access to user memory, from \<open>mm/memory.c\<close>: the check of a user range, copy on
  write, the fault handler, and the copies between kernel and user memory, whose loads and stores may fault
  themselves.  A call that panics is \<open>None\<close>.  A fault that ends the task is reported as a value; what
  \<open>do_exit_reason\<close> and the scheduler do then is outside this model.
\<close>

subsection \<open>Checking a user range\<close>

definition access_page :: "u32 \<Rightarrow> u32 \<Rightarrow> bool \<Rightarrow> 'a vm_state_scheme \<Rightarrow> bool option" where
  "access_page dir page write s = do {
     e \<leftarrow> get_pte dir page s;
     Some (case e of
       None \<Rightarrow> (case current_mm s of None \<Rightarrow> False | Some mm \<Rightarrow> vma_allows (mm_structs s mm) page write False)
     | Some (pde, pte) \<Rightarrow>
         has_flag pde PTE_USER \<and> pte_user pte \<and>
         (write \<longrightarrow> has_flag pde PTE_READ_WRITE \<and> (pte_write pte \<or> has_flag pte PTE_COW))) }"

fun access_pages :: "u32 \<Rightarrow> u32 list \<Rightarrow> bool \<Rightarrow> 'a vm_state_scheme \<Rightarrow> bool option" where
  "access_pages dir [] write s = Some True"
| "access_pages dir (page # pages) write s = do {
     ok \<leftarrow> access_page dir page write s;
     (if ok then access_pages dir pages write s else Some False) }"

text \<open>The pages from that of \<open>start\<close> to that of \<open>end\<close>.\<close>

definition pages_of :: "u32 \<Rightarrow> u32 \<Rightarrow> u32 list" where
  "pages_of start end = map (\<lambda>n. of_nat n * PAGE_SIZE) [unat (start div PAGE_SIZE)..<Suc (unat (end div PAGE_SIZE))]"

definition access_ok :: "u32 \<Rightarrow> u32 \<Rightarrow> u32 \<Rightarrow> bool \<Rightarrow> 'a vm_state_scheme \<Rightarrow> bool option" where
  "access_ok dir addr len write s =
     (if dir = 0 then Some False
      else if len = 0 then Some True
      else
        let end = addr + len - 1
        in if addr < PAGE_SIZE \<or> end < addr \<or> end \<ge> TASK_SIZE then Some False
           else access_pages dir (pages_of addr end) write s)"

subsection \<open>Copy on write\<close>

definition resolve_cow :: "'a vm_shrinker \<Rightarrow> u32 \<Rightarrow> 'a vm_state_scheme \<Rightarrow> (int \<times> 'a vm_state_scheme) option" where
  "resolve_cow shrink page_base s = do {
     pte \<leftarrow> get_pte_flags (page_directory s) page_base s;
     (if \<not> has_flag pte PTE_COW then Some (0, s)
      else
        let phys = pte_pfn pte; rc = page_ref_count phys s; s1 = s\<lparr>cow_faults := cow_faults s + 1\<rparr>
        in if rc \<le> 1 then do {
             let flags = clear_flag ((pte AND (PAGE_SIZE - 1)) OR PTE_READ_WRITE) PTE_COW;
             s2 \<leftarrow> set_pte_flags (page_directory s1) page_base flags s1;
             Some (1, s2) }
           else do {
             (new_phys, s2) \<leftarrow> alloc_page shrink GFP_KERNEL s1;
             (if new_phys = 0 then Some (-1, s2)
              else
                let (ok, s3) = kmalloc_vm s2
                in if \<not> ok then do { s4 \<leftarrow> free_page new_phys s3; Some (-1, s4) }
                   else do {
                     tmp \<leftarrow> load_page page_base s3;
                     s4 \<leftarrow> map_page_ex shrink (page_directory s3) new_phys page_base (PTE_PRESENT OR PTE_USER OR PTE_READ_WRITE) s3;
                     let s5 = (case current_mm s4 of
                                 None \<Rightarrow> s4
                               | Some mm \<Rightarrow> add_rmap mm page_base new_phys (page_remove_rmap mm page_base phys s4));
                     s6 \<leftarrow> store_page page_base tmp s5;
                     s7 \<leftarrow> free_page phys s6;
                     Some (1, s7\<lparr>cow_copies := cow_copies s7 + 1\<rparr>) }) }) }"

subsection \<open>The fault handler\<close>

text \<open>\<open>handle_mm_fault\<close> returns 1 (handled), 0 (not handled) or -1 (no memory).\<close>

definition handle_mm_fault ::
  "'a vm_shrinker \<Rightarrow> nat option \<Rightarrow> u32 \<Rightarrow> bool \<Rightarrow> bool \<Rightarrow> bool \<Rightarrow> 'a vm_state_scheme \<Rightarrow> (int \<times> 'a vm_state_scheme) option" where
  "handle_mm_fault shrink mmp page_base is_present is_write is_exec s =
     (case mmp of
        None \<Rightarrow> Some (0, s)
      | Some mm \<Rightarrow>
          if \<not> vma_allows (mm_structs s mm) page_base is_write is_exec then Some (0, s)
          else if is_present then
            if \<not> is_write then Some (0, s)
            else do {
              (res, s1) \<leftarrow> resolve_cow shrink page_base s;
              (if res > 0 then Some (1, s1)
               else if res < 0 then Some (-1, s1)
               else if vma_allows (mm_structs s1 mm) page_base True False then do {
                 pte \<leftarrow> get_pte_flags (page_directory s1) page_base s1;
                 (if pte \<noteq> 0 \<and> pte_user pte \<and> \<not> pte_write pte \<and> \<not> has_flag pte PTE_COW then do {
                    s2 \<leftarrow> set_pte_flags (page_directory s1) page_base ((pte AND (PAGE_SIZE - 1)) OR PTE_READ_WRITE) s1;
                    Some (1, s2) }
                  else Some (0, s1)) }
               else Some (0, s1)) }
          else do {
            (swap_res, s1) \<leftarrow> swap_in_mm shrink (Some mm) page_base s;
            (if swap_res > 0 then Some (1, s1)
             else do {
               (phys, s2) \<leftarrow> alloc_page shrink GFP_KERNEL s1;
               (if phys = 0 then Some (-1, s2)
                else do {
                  let flags = PTE_PRESENT OR PTE_USER OR
                        (if vma_allows (mm_structs s2 mm) page_base True False then PTE_READ_WRITE else 0);
                  s3 \<leftarrow> map_page_ex shrink (page_directory s2) phys page_base flags s2;
                  s4 \<leftarrow> store_page page_base (replicate 1024 0) (add_rmap mm page_base phys s3);
                  Some (1, s4) }) }) })"

text \<open>
  How a fault ends: the interrupted code goes on, or the task exits with the code and reason given to
  \<open>do_exit_reason\<close>.
\<close>

datatype fault_end = Resume | Exit_task int u32

definition TASK_EXIT_PAGEFAULT :: int where "TASK_EXIT_PAGEFAULT = 2"

text \<open>The counters at the beginning of \<open>do_page_fault\<close>.\<close>

definition count_fault :: "bool \<Rightarrow> bool \<Rightarrow> bool \<Rightarrow> bool \<Rightarrow> 'a vm_state_scheme \<Rightarrow> 'a vm_state_scheme" where
  "count_fault is_present is_write is_user is_reserved s =
     s\<lparr>pf_total := pf_total s + 1,
       pf_present := (if is_present then pf_present s + 1 else pf_present s),
       pf_not_present := (if is_present then pf_not_present s else pf_not_present s + 1),
       pf_write := (if is_write then pf_write s + 1 else pf_write s),
       pf_user := (if is_user then pf_user s + 1 else pf_user s),
       pf_kernel := (if is_user then pf_kernel s else pf_kernel s + 1),
       pf_reserved := (if is_reserved then pf_reserved s + 1 else pf_reserved s)\<rparr>"

definition mm_allows :: "nat option \<Rightarrow> u32 \<Rightarrow> bool \<Rightarrow> bool \<Rightarrow> 'a vm_state_scheme \<Rightarrow> bool" where
  "mm_allows mmp addr is_write is_exec s =
     (case mmp of None \<Rightarrow> False | Some mm \<Rightarrow> vma_allows (mm_structs s mm) addr is_write is_exec)"

text \<open>The end of \<open>do_page_fault\<close>, reached for a kernel access to an unmapped address.\<close>

definition kernel_fault :: "'a vm_shrinker \<Rightarrow> u32 \<Rightarrow> 'a vm_state_scheme \<Rightarrow> (fault_end \<times> 'a vm_state_scheme) option" where
  "kernel_fault shrink page_base s = do {
     (phys, s1) \<leftarrow> alloc_page shrink GFP_KERNEL s;
     (if phys = 0 then None
      else do {
        s2 \<leftarrow> map_page_ex shrink (page_directory s1) phys page_base (PTE_PRESENT OR PTE_READ_WRITE) s1;
        s3 \<leftarrow> store_page page_base (replicate 1024 0) s2;
        Some (Resume, s3) }) }"

definition do_page_fault :: "'a vm_shrinker \<Rightarrow> u32 \<Rightarrow> u32 \<Rightarrow> 'a vm_state_scheme \<Rightarrow> (fault_end \<times> 'a vm_state_scheme) option" where
  "do_page_fault shrink faulting_address err_code s =
     (let is_present = has_flag err_code 0x1; is_write = has_flag err_code 0x2; is_user = has_flag err_code 0x4;
          is_reserved = has_flag err_code 0x8; is_instr_fetch = has_flag err_code 0x10;
          page_base = faulting_address AND NOT (PAGE_SIZE - 1);
          s1 = count_fault is_present is_write is_user is_reserved s;
          user_access = (is_user \<or> current_mm s1 \<noteq> None \<and> faulting_address < TASK_SIZE);
          exit_task = Exit_task TASK_EXIT_PAGEFAULT faulting_address
      in if is_reserved then None
         else if is_present then
           if \<not> user_access then None
           else do {
             (hm, s2) \<leftarrow> handle_mm_fault shrink (current_mm s1) page_base True is_write is_instr_fetch s1;
             (if hm > 0 then Some (Resume, s2)
              else if hm < 0 then None
              else Some (exit_task, s2\<lparr>pf_prot := pf_prot s2 + 1\<rparr>)) }
         else if faulting_address < PAGE_SIZE then
           if user_access then Some (exit_task, s1\<lparr>pf_null := pf_null s1 + 1\<rparr>) else None
         else if user_access \<and> faulting_address \<ge> TASK_SIZE then
           Some (exit_task, s1\<lparr>pf_kernel_addr := pf_kernel_addr s1 + 1\<rparr>)
         else if user_access \<and> \<not> mm_allows (current_mm s1) page_base is_write is_instr_fetch s1 then
           Some (exit_task, s1\<lparr>pf_out_of_range := pf_out_of_range s1 + 1\<rparr>)
         else if user_access then do {
           (hm, s2) \<leftarrow> handle_mm_fault shrink (current_mm s1) page_base False is_write is_instr_fetch s1;
           (if hm > 0 then Some (Resume, s2)
            else if hm < 0 then None
            else Some (exit_task, s2\<lparr>pf_out_of_range := pf_out_of_range s2 + 1\<rparr>)) }
         else kernel_fault shrink page_base s1)"

subsection \<open>Copies between kernel and user memory\<close>

text \<open>The byte at an offset of a frame; the processor is little endian.\<close>

definition get_byte :: "nat \<Rightarrow> nat \<Rightarrow> 'a vm_state_scheme \<Rightarrow> u8" where
  "get_byte f off s = ucast (drop_bit (8 * (off mod 4)) (pmem s f (off div 4)))"

definition set_byte :: "nat \<Rightarrow> nat \<Rightarrow> u8 \<Rightarrow> 'a vm_state_scheme \<Rightarrow> 'a vm_state_scheme" where
  "set_byte f off b s =
     (let w = pmem s f (off div 4);
          w' = (w AND NOT (push_bit (8 * (off mod 4)) 0xFF)) OR push_bit (8 * (off mod 4)) (ucast b)
      in s\<lparr>pmem := (pmem s)(f := (pmem s f)(off div 4 := w'))\<rparr>)"

text \<open>
  An access of the kernel through a virtual address.  If the page is not present the processor raises a page
  fault, with error code 0 for a load and 2 for a store, and repeats the access when the handler
  resumes.  If the handler ends the task the access does not return.
\<close>

definition fault_in :: "'a vm_shrinker \<Rightarrow> u32 \<Rightarrow> bool \<Rightarrow> 'a vm_state_scheme \<Rightarrow> 'a vm_state_scheme option" where
  "fault_in shrink va write s = do {
     m \<leftarrow> page_mapped va s;
     (if m then Some s
      else do {
        (r, s1) \<leftarrow> do_page_fault shrink va (if write then 2 else 0) s;
        (case r of Resume \<Rightarrow> Some s1 | Exit_task _ _ \<Rightarrow> None) }) }"

definition load_byte :: "'a vm_shrinker \<Rightarrow> u32 \<Rightarrow> 'a vm_state_scheme \<Rightarrow> (u8 \<times> 'a vm_state_scheme) option" where
  "load_byte shrink va s = do {
     s1 \<leftarrow> fault_in shrink va False s;
     p \<leftarrow> virt_to_phys va s1;
     (if p = 0xFFFFFFFF then None else Some (get_byte (frame_of p) (unat (p AND 0xFFF)) s1, s1)) }"

definition store_byte :: "'a vm_shrinker \<Rightarrow> u32 \<Rightarrow> u8 \<Rightarrow> 'a vm_state_scheme \<Rightarrow> 'a vm_state_scheme option" where
  "store_byte shrink va b s = do {
     s1 \<leftarrow> fault_in shrink va True s;
     p \<leftarrow> virt_to_phys va s1;
     (if p = 0xFFFFFFFF then None else Some (set_byte (frame_of p) (unat (p AND 0xFFF)) b s1)) }"

text \<open>\<open>memcpy\<close> copies byte by byte in increasing order.\<close>

fun load_bytes :: "'a vm_shrinker \<Rightarrow> u32 \<Rightarrow> nat \<Rightarrow> 'a vm_state_scheme \<Rightarrow> (u8 list \<times> 'a vm_state_scheme) option" where
  "load_bytes shrink va 0 s = Some ([], s)"
| "load_bytes shrink va (Suc n) s = do {
     (b, s1) \<leftarrow> load_byte shrink va s;
     (bs, s2) \<leftarrow> load_bytes shrink (va + 1) n s1;
     Some (b # bs, s2) }"

fun store_bytes :: "'a vm_shrinker \<Rightarrow> u32 \<Rightarrow> u8 list \<Rightarrow> 'a vm_state_scheme \<Rightarrow> 'a vm_state_scheme option" where
  "store_bytes shrink va [] s = Some s"
| "store_bytes shrink va (b # bs) s = do {
     s1 \<leftarrow> store_byte shrink va b s;
     store_bytes shrink (va + 1) bs s1 }"

text \<open>
  The kernel buffer is the list of its bytes: the copies return, respectively take, the bytes.  \<open>Inl\<close>
  is the result -1.
\<close>

definition copy_from_user :: "'a vm_shrinker \<Rightarrow> u32 \<Rightarrow> u32 \<Rightarrow> 'a vm_state_scheme \<Rightarrow> ((int + u8 list) \<times> 'a vm_state_scheme) option" where
  "copy_from_user shrink src_user len s =
     (if src_user = 0 \<and> len \<noteq> 0 then Some (Inl (-1), s)
      else do {
        ok \<leftarrow> access_ok (page_directory s) src_user len False s;
        (if \<not> ok then Some (Inl (-1), s)
         else do { (bs, s1) \<leftarrow> load_bytes shrink src_user (unat len) s; Some (Inr bs, s1) }) })"

fun resolve_pages :: "'a vm_shrinker \<Rightarrow> u32 list \<Rightarrow> 'a vm_state_scheme \<Rightarrow> (bool \<times> 'a vm_state_scheme) option" where
  "resolve_pages shrink [] s = Some (True, s)"
| "resolve_pages shrink (page # pages) s = do {
     (res, s1) \<leftarrow> resolve_cow shrink page s;
     (if res < 0 then Some (False, s1) else resolve_pages shrink pages s1) }"

definition copy_to_user :: "'a vm_shrinker \<Rightarrow> u32 \<Rightarrow> u8 list \<Rightarrow> 'a vm_state_scheme \<Rightarrow> (int \<times> 'a vm_state_scheme) option" where
  "copy_to_user shrink dst_user src s =
     (let len = of_nat (length src)
      in if dst_user = 0 \<and> len \<noteq> 0 then Some (-1, s)
         else do {
           ok \<leftarrow> access_ok (page_directory s) dst_user len True s;
           (if \<not> ok then Some (-1, s)
            else do {
              (ok', s1) \<leftarrow> (if len \<noteq> 0 then resolve_pages shrink (pages_of dst_user (dst_user + len - 1)) s else Some (True, s));
              (if \<not> ok' then Some (-1, s1)
               else do { s2 \<leftarrow> store_bytes shrink dst_user src s1; Some (0, s2) }) }) })"

subsection \<open>Isolation by copy on write\<close>

text \<open>The current directory maps frame \<open>p\<close> at \<open>va\<close> with the copy-on-write mark.\<close>

definition cow_page :: "'a vm_state_scheme \<Rightarrow> u32 set \<Rightarrow> u32 \<Rightarrow> nat \<Rightarrow> bool" where
  "cow_page s D va p \<longleftrightarrow> page_directory s \<in> D \<and> va AND 0xFFF = 0 \<and> owned s p \<and> data_frame s D p \<and> pfn_to_page s p = Some p \<and>
     pte_present (pte_view (page_directory s) va s) \<and> has_flag (pte_view (page_directory s) va s) PTE_COW \<and>
     pte_pfn (pte_view (page_directory s) va s) = of_nat p * PAGE_SIZE"

definition rmap_switch :: "u32 \<Rightarrow> u32 \<Rightarrow> u32 \<Rightarrow> 'a vm_state_scheme \<Rightarrow> 'a vm_state_scheme" where
  "rmap_switch va phys new_phys s =
     (case current_mm s of None \<Rightarrow> s | Some mm \<Rightarrow> add_rmap mm va new_phys (page_remove_rmap mm va phys s))"

lemma rmap_switch_keeps:
  "pmem (rmap_switch va phys new_phys s) = pmem s" "bootmem (rmap_switch va phys new_phys s) = bootmem s"
  "page_directory (rmap_switch va phys new_phys s) = page_directory s" "free_frames (rmap_switch va phys new_phys s) = free_frames s"
  "alloc_ok (rmap_switch va phys new_phys s) = alloc_ok s" "keeps_setup s (rmap_switch va phys new_phys s)"
  "refcount (mem_map (rmap_switch va phys new_phys s) q) = refcount (mem_map s q)"
  "mm_structs (rmap_switch va phys new_phys s) = mm_structs s"
proof -
  have "pmem (rmap_switch va phys new_phys s) = pmem s \<and> bootmem (rmap_switch va phys new_phys s) = bootmem s \<and>
    page_directory (rmap_switch va phys new_phys s) = page_directory s \<and> free_frames (rmap_switch va phys new_phys s) = free_frames s \<and>
    alloc_ok (rmap_switch va phys new_phys s) = alloc_ok s \<and> keeps_setup s (rmap_switch va phys new_phys s) \<and>
    refcount (mem_map (rmap_switch va phys new_phys s) q) = refcount (mem_map s q) \<and>
    mm_structs (rmap_switch va phys new_phys s) = mm_structs s"
  proof (cases "current_mm s")
    case (Some mm)
    let ?t = "page_remove_rmap mm va phys s"
    have k: "keeps_config s ?t" "same_buddy s ?t" "\<And>q. refcount (mem_map ?t q) = refcount (mem_map s q)" by simp_all
    note e = alloc_ok_keeps [OF k] keeps_configD(5) [OF k(1)] same_more [OF keeps_configD(6) [OF k(1)]]
    have "keeps_setup s (add_rmap mm va new_phys ?t)"
      by (rule keeps_setup_trans [OF keeps_setupI [OF k(1)] add_rmap_setup(1)])
    then show ?thesis using Some e by (simp add: rmap_switch_def add_rmap_keeps add_rmap_setup)
  qed (simp add: rmap_switch_def)
  then show "pmem (rmap_switch va phys new_phys s) = pmem s" "bootmem (rmap_switch va phys new_phys s) = bootmem s"
    "page_directory (rmap_switch va phys new_phys s) = page_directory s" "free_frames (rmap_switch va phys new_phys s) = free_frames s"
    "alloc_ok (rmap_switch va phys new_phys s) = alloc_ok s" "keeps_setup s (rmap_switch va phys new_phys s)"
    "refcount (mem_map (rmap_switch va phys new_phys s) q) = refcount (mem_map s q)"
    "mm_structs (rmap_switch va phys new_phys s) = mm_structs s" by blast+
qed

text \<open>The state in which \<open>resolve_cow\<close> has its new page and its buffer.\<close>

definition cow_ready :: "u32 set \<Rightarrow> nat \<Rightarrow> nat \<Rightarrow> 'a vm_state_scheme \<Rightarrow> 'a vm_state_scheme \<Rightarrow> bool" where
  "cow_ready D p q s s3 \<longleftrightarrow> q < 2 ^ 20 \<and> q \<noteq> 0 \<and> q \<in> free_frames s \<and> q \<noteq> p \<and> free_frames s3 = free_frames s - {q} \<and> pmem s3 = pmem s \<and>
     page_directory s3 = page_directory s \<and> tables_ok s3 D \<and> data_frame s3 D q \<and> alloc_ok s3 \<and> owned s3 p \<and>
     refcount (mem_map s3 p) = refcount (mem_map s p)"

lemma cow_alloc:
  assumes "tables_ok s D" "alloc_ok s" "plenty s" "owned s p" "fst (kmalloc_ok (kmallocs (venv s)))"
  shows "\<exists>q s2 s3. alloc_page shrink GFP_KERNEL (s\<lparr>cow_faults := cow_faults s + 1\<rparr>) = Some (of_nat q * PAGE_SIZE, s2) \<and>
    kmalloc_vm s2 = (True, s3) \<and> cow_ready D p q s s3"
proof -
  define s1 where "s1 = s\<lparr>cow_faults := cow_faults s + 1\<rparr>"
  have a1: "mm_state.truncate s1 = mm_state.truncate s" by (simp add: s1_def)
  have "plenty s1" using assms(3) same_alloc(8) [OF a1] by simp
  then obtain q s2 where tk: "takes_page shrink s1 q s2" by (rule plenty_takes)
  have t1: "tables_ok s1 D" using assms(1) by (rule tables_ok_pmem) (simp_all add: same_alloc [OF a1], simp add: s1_def)
  have q: "q < 2 ^ 20" "q \<noteq> 0" "alloc_page shrink GFP_KERNEL s1 = Some (of_nat q * PAGE_SIZE, s2)" "q \<in> free_frames s"
      "free_frames s2 = free_frames s - {q}" "q \<noteq> p"
    using tk assms(4) same_alloc(3) [OF a1] by (auto simp: takes_page_def owned_def)
  note k2 = takes_page_keeps [OF tk] and t2 = takes_page_tables [OF t1 tk]
  obtain ks where km: "kmalloc_vm s2 = (True, s2\<lparr>venv := (venv s2)\<lparr>kmallocs := ks\<rparr>\<rparr>)"
    using kmalloc_vm_ok [of s2] assms(5) k2(6) by (auto simp: s1_def)
  define s3 where "s3 = s2\<lparr>venv := (venv s2)\<lparr>kmallocs := ks\<rparr>\<rparr>"
  have a3: "mm_state.truncate s3 = mm_state.truncate s2" by (simp add: s3_def)
  have "pmem s3 = pmem s" "page_directory s3 = page_directory s" by (simp_all add: s3_def k2 s1_def)
  moreover have "tables_ok s3 D" using t2(1) by (rule tables_ok_pmem) (simp_all add: same_alloc [OF a3], simp add: s3_def)
  moreover have "data_frame s3 D q" using t2(2) by (simp add: data_frame_def rd_def s3_def)
  moreover have "alloc_ok s3" using takes_page_alloc [OF tk] assms(2) same_alloc(4) [OF a1] same_alloc(4) [OF a3] by simp
  moreover have "refcount (mem_map s3 p) = refcount (mem_map s p)"
    using tk q(6) same_alloc(1) [OF a1] same_alloc(1) [OF a3] by (simp add: takes_page_def)
  moreover have "owned s3 p"
    using owned_setup [of s1 p s2] assms(4) tk q(5) same_alloc(3,5) [OF a1] same_alloc(5) [OF a3] by (auto simp: takes_page_def keeps_setupI)
  ultimately show ?thesis using q km same_alloc(3) [OF a3] by (auto simp: cow_ready_def s1_def s3_def)
qed

text \<open>The rest of the copy: move the reverse mapping, fill the new page and drop the old one.\<close>

lemma cow_release:
  fixes va :: u32 and q :: nat and ws :: "u32 list"
  assumes "alloc_ok s4" "owned s4 p" "1 < refcount (mem_map s4 p)"
  defines "s6 \<equiv> set_frame q ws (rmap_switch va (of_nat p * PAGE_SIZE) (of_nat q * PAGE_SIZE) s4)"
  shows "\<exists>s7. free_page (of_nat p * PAGE_SIZE) s6 = Some s7 \<and> refcount (mem_map s7 p) = refcount (mem_map s4 p) - 1 \<and>
    free_frames s7 = free_frames s4 \<and> pmem s7 = pmem (set_frame q ws s4) \<and> page_directory s7 = page_directory s4 \<and> bootmem s7 = bootmem s4"
proof -
  note k = rmap_switch_keeps [where va = va and phys = "of_nat p * PAGE_SIZE" and new_phys = "of_nat q * PAGE_SIZE" and s = s4]
  have a6: "mm_state.truncate s6 = mm_state.truncate (rmap_switch va (of_nat p * PAGE_SIZE) (of_nat q * PAGE_SIZE) s4)" by (simp add: s6_def)
  have al6: "alloc_ok s6" "owned s6 p" "refcount (mem_map s6 p) = refcount (mem_map s4 p)" "free_frames s6 = free_frames s4"
    using assms(1) owned_setup [OF assms(2) k(6)] same_alloc [OF a6] by (simp_all add: k)
  obtain s7 where s7: "free_page (of_nat p * PAGE_SIZE) s6 = Some s7" "keeps_config s6 s7" "refcount (mem_map s7 p) = refcount (mem_map s4 p) - 1"
      "free_frames s7 = free_frames s4"
    using free_page_ok [OF al6(1,2)] al6(3,4) assms(3) by auto
  note m7 = same_more [OF keeps_configD(6) [OF s7(2)]]
  have "pmem s7 = pmem (set_frame q ws s4)" by (simp add: m7 s6_def set_frame_def k(1) cong: if_cong)
  moreover have "page_directory s7 = page_directory s4" by (simp add: m7 s6_def set_frame_def k(3))
  moreover have "bootmem s7 = bootmem s4" using keeps_configD(5) [OF s7(2)] same_alloc(2) [OF a6] k(2) by simp
  ultimately show ?thesis using s7 by blast
qed

text \<open>What the faulting address space and the others see after the copy.\<close>

definition cow_done :: "u32 set \<Rightarrow> u32 \<Rightarrow> nat \<Rightarrow> nat \<Rightarrow> 'a vm_state_scheme \<Rightarrow> 'a vm_state_scheme \<Rightarrow> bool" where
  "cow_done D va p q s s' \<longleftrightarrow> q < 2 ^ 20 \<and> q \<in> free_frames s \<and> virt_to_phys va s' = Some (of_nat q * PAGE_SIZE) \<and>
     frame_words q s' = frame_words p s \<and> tables_ok s' D \<and> data_frame s' D q \<and>
     (\<forall>f. data_frame s D f \<and> f \<notin> free_frames s \<longrightarrow> pmem s' f = pmem s f) \<and>
     (\<forall>d' \<in> D. \<forall>va'. \<not> same_pte s' (page_directory s) va d' va' \<longrightarrow> pte_view d' va' s' = pte_view d' va' s) \<and>
     refcount (mem_map s' p) = refcount (mem_map s p) - 1 \<and> page_directory s' = page_directory s"

lemma cow_entered_done:
  assumes r: "cow_ready D p q s s3" and c: "page_directory s \<in> D" "va AND 0xFFF = 0" and fl: "flags AND NOT 0xFFF = 0" "has_flag flags PTE_PRESENT"
    and e: "page_entered D (page_directory s3) va (of_nat q * PAGE_SIZE OR flags) s3 s4"
    and s': "pmem s' = pmem (set_frame q (frame_words p s) s4)" "page_directory s' = page_directory s4" "bootmem s' = bootmem s4"
      "free_frames s' = free_frames s4" "refcount (mem_map s' p) = refcount (mem_map s p) - 1"
  shows "cow_done D va p q s s'"
proof -
  let ?d = "page_directory s" and ?t = "set_frame q (frame_words p s) s4"
  have r3: "q < 2 ^ 20" "q \<in> free_frames s" "free_frames s3 = free_frames s - {q}" "pmem s3 = pmem s" "page_directory s3 = ?d" "data_frame s3 D q"
    using r by (simp_all add: cow_ready_def)
  have d3: "page_directory s3 \<in> D" "q \<notin> free_frames s3" "length (frame_words p s) = 1024" using r3 c by simp_all
  note t = enter_page [OF d3(1) r3(6) d3(2) r3(1) c(2) fl d3(3) e]
  have at: "mm_state.truncate ?t = mm_state.truncate s4" by simp
  have e': "bootmem s' = bootmem ?t" "free_frames s' = free_frames ?t" "page_directory s' = ?d" "page_directory ?t = ?d"
    using s' same_alloc(2,3) [OF at] page_enteredD(9) [OF e] r3(5) by (simp_all add: set_frame_def)
  have "virt_to_phys va s' = Some (of_nat q * PAGE_SIZE)" using virt_to_phys_cong [of s' ?t va] s'(1) e' t(6) by simp
  moreover have "frame_words q s' = frame_words p s"
    using frame_words_cong [of s' q ?t] frame_words_set [OF d3(3), of q s4] s'(1) by simp
  moreover have "tables_ok s' D" using t(3) by (rule tables_ok_pmem) (rule s'(1) e'(1,2))+
  moreover have "data_frame s' D q"
    using set_frame_tables(3) [OF page_enteredD(1) [OF e] t(1), of "frame_words p s" q] t(1) by (simp add: data_frame_def rd_def s'(1))
  moreover have "pmem s' f = pmem s f" if "data_frame s D f" "f \<notin> free_frames s" for f
    using t(8) [of f] that r3 s'(1) by (simp add: data_frame_def rd_def) (metis)
  moreover have "pte_view d' va' s' = pte_view d' va' s" if "d' \<in> D" "\<not> same_pte s' ?d va d' va'" for d' va'
  proof -
    have "same_pte s' ?d va d' va' = same_pte ?t ?d va d' va'" by (simp add: same_pte_def rd_def s'(1))
    then show ?thesis using t(7) [OF that(1)] that(2) r3(5) pte_view_pmem [OF s'(1)] pte_view_pmem [OF r3(4)] by simp
  qed
  ultimately show ?thesis using r3 e' s'(5) by (simp add: cow_done_def)
qed

lemma cow_pageD:
  assumes "cow_page s D va p"
  shows "page_directory s \<in> D" "va AND 0xFFF = 0" "owned s p" "data_frame s D p" "pfn_to_page s p = Some p" "p < 2 ^ 20"
    "pte_present (pte_view (page_directory s) va s)" "has_flag (pte_view (page_directory s) va s) PTE_COW"
    "pte_pfn (pte_view (page_directory s) va s) = of_nat p * PAGE_SIZE"
  using assms by (auto simp: cow_page_def owned_def)

lemma cow_copy:
  assumes "tables_ok s D" "alloc_ok s" "plenty s" "cow_page s D va p" "1 < refcount (mem_map s p)"
    "fst (kmalloc_ok (kmallocs (venv s)))"
  shows "\<exists>q s'. resolve_cow shrink va s = Some (1, s') \<and> cow_done D va p q s s'"
proof -
  let ?d = "page_directory s" and ?fl = "PTE_PRESENT OR PTE_USER OR PTE_READ_WRITE" and ?op = "of_nat p * PAGE_SIZE :: u32"
  note c = cow_pageD [OF assms(4)]
  obtain q s2 s3 where al: "alloc_page shrink GFP_KERNEL (s\<lparr>cow_faults := cow_faults s + 1\<rparr>) = Some (of_nat q * PAGE_SIZE, s2)"
      and km: "kmalloc_vm s2 = (True, s3)" and rdy: "cow_ready D p q s s3"
    using cow_alloc [OF assms(1-3) c(3) assms(6)] by blast
  have r: "q < 2 ^ 20" "q \<noteq> 0" "pmem s3 = pmem s" "page_directory s3 = ?d" "tables_ok s3 D" "alloc_ok s3" "owned s3 p" "p \<notin> free_frames s3"
      "refcount (mem_map s3 p) = refcount (mem_map s p)"
    using rdy c(3) by (auto simp: cow_ready_def owned_def)
  have d3: "page_directory s3 \<in> D" using r(4) c(1) by simp
  have pr: "pgd_present (rd (page_directory s3) (pgd_index va) s3) \<or> takes_page shrink s3 0 s3"
    using c(7) by (auto simp: r rd_def pte_view_def Let_def pte_present_def has_flag_def split: if_splits)
  have fl: "?fl AND NOT 0xFFF = 0" "has_flag ?fl PTE_PRESENT" using swap_flags by simp_all
  obtain s4 where m4: "map_page_ex shrink (page_directory s3) (of_nat q * PAGE_SIZE) va ?fl s3 = Some s4"
      and e: "page_entered D (page_directory s3) va (of_nat q * PAGE_SIZE OR ?fl) s3 s4"
    using map_page_ex_full [OF r(5) d3 pr] by blast
  note e4 = page_enteredD [OF e] and rc4 = page_entered_others(4) [OF e r(8)]
  let ?s5 = "rmap_switch va ?op (of_nat q * PAGE_SIZE) s4"
  obtain s7 where s7: "free_page ?op (set_frame q (frame_words p s) ?s5) = Some s7" "refcount (mem_map s7 p) = refcount (mem_map s p) - 1"
      "free_frames s7 = free_frames s4" "pmem s7 = pmem (set_frame q (frame_words p s) s4)" "page_directory s7 = page_directory s4" "bootmem s7 = bootmem s4"
    using cow_release [OF e4(3) [OF r(6)] owned_setup [OF r(7) e4(4,5)], where q = q and ws = "frame_words p s" and va = va] rc4 r(9) assms(5) by auto
  let ?s' = "s7\<lparr>cow_copies := cow_copies s7 + 1\<rparr>"
  have a': "mm_state.truncate ?s' = mm_state.truncate s7" by simp
  have "cow_done D va p q s ?s'"
    using s7 same_alloc(1,2,3) [OF a'] by (intro cow_entered_done [OF rdy c(1,2) fl e]) simp_all
  moreover have "resolve_cow shrink va s = Some (1, ?s')"
  proof -
    have rc: "page_ref_count ?op s = refcount (mem_map s p)" using page_addr(3) [OF c(6)] c(5) by (simp add: page_ref_count_def)
    have "virt_to_phys va s4 = Some (of_nat q * PAGE_SIZE)"
      using enter_page(5) [OF d3 _ _ r(1) c(2) fl _ e, of "frame_words p s"] rdy by (simp add: cow_ready_def)
    then have v5: "virt_to_phys va ?s5 = Some (of_nat q * PAGE_SIZE)" using virt_to_phys_cong [of ?s5 s4 va] by (simp add: rmap_switch_keeps)
    have nz: "of_nat q * PAGE_SIZE \<noteq> (0::u32)" using page_addr(1) [OF r(1)] r(2) by (metis mult_eq_0_iff unat_0 zero_neq_numeral)
    have l3: "load_page va s3 = Some (frame_words p s)"
      using load_page_view(2) [OF r(5) d3 c(2,6)] pte_view_pmem [OF r(3)] r c(7,9) frame_words_cong [of s3 p s] by simp
    show ?thesis
      using get_pte_flags_view [OF assms(1) c(1), of va] c(7,8,9) rc assms(5) al nz km l3 m4 page_at(2) [OF v5 r(1), of "frame_words p s"] s7(1)
      by (simp add: resolve_cow_def Let_def rmap_switch_def [symmetric])
  qed
  ultimately show ?thesis by blast
qed


text \<open>
  C27: Copy on write isolates the users of a shared page.  With enough memory, resolving a write fault on a page
  with more than one user always succeeds; the faulting address space reads the same content as
  before and can then be given any new content, while every page that was in use, the shared page included, keeps its
  content, every table entry of every directory other than the faulting one stays as it was, and the
  shared page has one user less.
\<close>
theorem cow_isolation:
  assumes "tables_ok s D" "alloc_ok s" "plenty s" "cow_page s D va p" "1 < refcount (mem_map s p)"
    "fst (kmalloc_ok (kmallocs (venv s)))" "length ws = 1024"
  shows "\<exists>s' s''. resolve_cow shrink va s = Some (1, s') \<and> load_page va s' = load_page va s \<and>
    store_page va ws s' = Some s'' \<and> load_page va s'' = Some ws \<and> tables_ok s'' D \<and>
    refcount (mem_map s' p) = refcount (mem_map s p) - 1 \<and>
    (\<forall>f. data_frame s D f \<and> f \<notin> free_frames s \<longrightarrow> pmem s'' f = pmem s f) \<and>
    (\<forall>d' \<in> D. \<forall>va'. \<not> same_pte s'' (page_directory s) va d' va' \<longrightarrow> pte_view d' va' s'' = pte_view d' va' s)"
proof -
  obtain q s' where rs: "resolve_cow shrink va s = Some (1, s')" and dn: "cow_done D va p q s s'"
    using cow_copy [OF assms(1-6)] by blast
  note c0 = cow_pageD [OF assms(4)]
  note c = c0(1,2,6,7,9)
  have s': "resolve_cow shrink va s = Some (1, s')" "q < 2 ^ 20" "q \<in> free_frames s"
    "virt_to_phys va s' = Some (of_nat q * PAGE_SIZE)" "frame_words q s' = frame_words p s" "tables_ok s' D" "data_frame s' D q"
    "\<And>f. data_frame s D f \<Longrightarrow> f \<notin> free_frames s \<Longrightarrow> pmem s' f = pmem s f"
    "\<And>d' va'. d' \<in> D \<Longrightarrow> \<not> same_pte s' (page_directory s) va d' va' \<Longrightarrow> pte_view d' va' s' = pte_view d' va' s"
    "refcount (mem_map s' p) = refcount (mem_map s p) - 1" "page_directory s' = page_directory s"
    using rs dn by (simp_all add: cow_done_def)
  let ?s = "set_frame q ws s'"
  note sf = set_frame_tables [OF s'(6,7), where ws = ws]
  have r: "rd d' i ?s = rd d' i s'" if "d' \<in> D" for d' i
    using that s'(7) by (auto simp: rd_def set_frame_def data_frame_def dir_frame_def)
  have sp: "same_pte ?s (page_directory s) va d' va' = same_pte s' (page_directory s) va d' va'" if "d' \<in> D" for d' va'
    using r [OF that] r [OF c(1)] by (simp add: same_pte_def)
  have "page_directory ?s = page_directory s" using s'(11) by (simp add: set_frame_def)
  moreover have "virt_to_phys_pgd (page_directory s) va ?s = virt_to_phys_pgd (page_directory s) va s'"
    unfolding virt_to_phys_view [OF s'(6) c(1)] virt_to_phys_view [OF sf(1) c(1)] sf(2) [OF c(1)] by (rule refl)
  ultimately have "virt_to_phys va ?s = Some (of_nat q * PAGE_SIZE)" using s'(4,11) by (simp add: virt_to_phys_def)
  then have "load_page va ?s = Some (frame_words q ?s)" by (rule page_at(1)) (rule s'(2))
  moreover have "frame_words q ?s = ws" by (rule frame_words_set [OF assms(7)])
  moreover have "load_page va s' = load_page va s"
    using load_page_view(2) [OF assms(1) c(1,2,3,4,5)] page_at(1) [OF s'(4,2)] s'(5) by simp
  moreover have "pmem ?s f = pmem s f" if "data_frame s D f" "f \<notin> free_frames s" for f
    using s'(8) [OF that] that(2) s'(3) by (auto simp: set_frame_def)
  moreover have "pte_view d' va' ?s = pte_view d' va' s" if "d' \<in> D" "\<not> same_pte ?s (page_directory s) va d' va'" for d' va'
    using s'(9) sf(2) that sp by simp
  ultimately show ?thesis using s'(1,10) page_at(2) [OF s'(4,2), of ws] sf(1) by auto
qed

theorem cow_isolation_witness:
  "\<exists>s' s''. resolve_cow (\<lambda>_ _ _ s. Some (0, s)) 0x400000 (demo_page_vm 0x4205 2 ()) = Some (1, s') \<and>
    load_page 0x400000 s' = load_page 0x400000 (demo_page_vm 0x4205 2 ()) \<and>
    store_page 0x400000 (replicate 1024 7) s' = Some s'' \<and> pmem s'' 4 = pmem (demo_page_vm 0x4205 2 ()) 4"
proof -
  let ?s = "demo_page_vm 0x4205 2 ()"
  have h: "cow_page ?s {0xC0002000} 0x400000 4" "1 < refcount (mem_map ?s 4)" "fst (kmalloc_ok (kmallocs (venv ?s)))"
    "length (replicate 1024 7 :: u32 list) = 1024"
    unfolding cow_page_def demo_page_vm_mem
    by (simp_all add: demo_page_facts demo_page_tables(2) demo_page_alloc(5) pte_present_def pte_pfn_def has_flag_def PTE_defs demo_env_def)
  have "data_frame ?s {0xC0002000} 4" "4 \<notin> free_frames ?s" by (simp_all add: demo_page_tables(2) demo_page_alloc(4))
  then show ?thesis
    using cow_isolation [OF demo_page_tables(1) demo_page_alloc(3) demo_page_plenty h, where shrink = "\<lambda>_ _ _ s. Some (0, s)"] by blast
qed

end
