(* ===== verification/Kstring.thy ===== *)
theory Kstring
  imports Prelude
begin

text \<open>
  The memory and string routines \<open>lib/string.c\<close> and the duplication routines \<open>mm/util.c\<close>.  Memory is a
  function from 32-bit addresses to bytes, so pointers wrap around and may alias.  A loop that runs to a NUL byte is a partial
  function: \<open>None\<close> is a loop that does not end.  A character is its ASCII code: \<open>'0'\<close> is \<open>0x30\<close>, \<open>'a'\<close> is \<open>0x61\<close>,
  \<open>'-'\<close> is \<open>0x2D\<close>.  An address that \<open>kmalloc\<close> returned is an argument, \<open>0\<close> being NULL.
\<close>

type_synonym bytes = "u32 \<Rightarrow> u8"

subsection \<open>Blocks of memory\<close>

fun memset_loop :: "u32 \<Rightarrow> u8 \<Rightarrow> nat \<Rightarrow> bytes \<Rightarrow> bytes" where
  "memset_loop p c 0 m = m"
| "memset_loop p c (Suc n) m = memset_loop (p + 1) c n (m(p := c))"

definition memset :: "u32 \<Rightarrow> u32 \<Rightarrow> u32 \<Rightarrow> bytes \<Rightarrow> bytes" where
  "memset s c n m = memset_loop s (ucast c) (unat n) m"

fun copy_up :: "u32 \<Rightarrow> u32 \<Rightarrow> nat \<Rightarrow> bytes \<Rightarrow> bytes" where
  "copy_up d s 0 m = m"
| "copy_up d s (Suc n) m = copy_up (d + 1) (s + 1) n (m(d := m s))"

fun copy_down :: "u32 \<Rightarrow> u32 \<Rightarrow> nat \<Rightarrow> bytes \<Rightarrow> bytes" where
  "copy_down d s 0 m = m"
| "copy_down d s (Suc n) m = copy_down (d - 1) (s - 1) n (m(d - 1 := m (s - 1)))"

definition memcpy :: "u32 \<Rightarrow> u32 \<Rightarrow> u32 \<Rightarrow> bytes \<Rightarrow> bytes" where
  "memcpy dest src n m = copy_up dest src (unat n) m"

definition memmove :: "u32 \<Rightarrow> u32 \<Rightarrow> u32 \<Rightarrow> bytes \<Rightarrow> bytes" where
  "memmove dest src n m =
     (if n = 0 \<or> dest = src then m
      else if dest < src then copy_up dest src (unat n) m
      else copy_down (dest + n) (src + n) (unat n) m)"

subsection \<open>Strings\<close>

partial_function (option) strlen_loop :: "u32 \<Rightarrow> u32 \<Rightarrow> bytes \<Rightarrow> u32 option" where
  "strlen_loop str len m = (if m (str + len) = 0 then Some len else strlen_loop str (len + 1) m)"

definition strlen :: "u32 \<Rightarrow> bytes \<Rightarrow> u32 option" where
  "strlen str m = (if str = 0 then Some 0 else strlen_loop str 0 m)"

partial_function (option) strcpy :: "u32 \<Rightarrow> u32 \<Rightarrow> bytes \<Rightarrow> bytes option" where
  "strcpy dest src m =
     (let m' = m(dest := m src) in if m src = 0 then Some m' else strcpy (dest + 1) (src + 1) m')"

partial_function (option) strcmp_loop :: "u32 \<Rightarrow> u32 \<Rightarrow> bytes \<Rightarrow> int option" where
  "strcmp_loop s1 s2 m =
     (if m s1 \<noteq> 0 \<and> m s1 = m s2 then strcmp_loop (s1 + 1) (s2 + 1) m else Some (uint (m s1) - uint (m s2)))"

definition strcmp :: "u32 \<Rightarrow> u32 \<Rightarrow> bytes \<Rightarrow> int option" where
  "strcmp s1 s2 m =
     (if s1 = 0 then Some (0 - (if s2 = 0 then 0 else uint (m s2)))
      else if s2 = 0 then Some (uint (m s1))
      else strcmp_loop s1 s2 m)"

partial_function (option) skip_string :: "u32 \<Rightarrow> bytes \<Rightarrow> u32 option" where
  "skip_string p m = (if m p = 0 then Some p else skip_string (p + 1) m)"

partial_function (option) strcat_copy :: "u32 \<Rightarrow> u32 \<Rightarrow> bytes \<Rightarrow> bytes option" where
  "strcat_copy dest src m =
     (if m src = 0 then Some (m(dest := 0)) else strcat_copy (dest + 1) (src + 1) (m(dest := m src)))"

definition strcat :: "u32 \<Rightarrow> u32 \<Rightarrow> bytes \<Rightarrow> bytes option" where
  "strcat dest src m = (case skip_string dest m of None \<Rightarrow> None | Some p \<Rightarrow> strcat_copy p src m)"

fun strncmp_loop :: "u32 \<Rightarrow> u32 \<Rightarrow> nat \<Rightarrow> bytes \<Rightarrow> int" where
  "strncmp_loop s1 s2 0 m = 0"
| "strncmp_loop s1 s2 (Suc n) m =
     (if m s1 \<noteq> 0 \<and> m s1 = m s2 then strncmp_loop (s1 + 1) (s2 + 1) n m else uint (m s1) - uint (m s2))"

definition strncmp :: "u32 \<Rightarrow> u32 \<Rightarrow> u32 \<Rightarrow> bytes \<Rightarrow> int" where
  "strncmp s1 s2 n m =
     (if n = 0 then 0
      else if s1 = 0 then 0 - (if s2 = 0 then 0 else uint (m s2))
      else if s2 = 0 then uint (m s1)
      else strncmp_loop s1 s2 (unat n) m)"

subsection \<open>Numbers\<close>

text \<open>
  A base of 0 divides by zero and a base of 1 never ends; both are \<open>None\<close>.
\<close>

partial_function (option) itoa_digits :: "u32 \<Rightarrow> u32 \<Rightarrow> u32 \<Rightarrow> u32 \<Rightarrow> bytes \<Rightarrow> (u32 \<times> bytes) option" where
  "itoa_digits u_num base buf i m =
     (if u_num = 0 then Some (i, m)
      else if base = 0 then None
      else
        let r = sint (u_num mod base);
            c = (if r > 9 then of_int (r - 10 + 0x61) else of_int (r + 0x30))
        in itoa_digits (u_num div base) base buf (i + 1) (m(buf + i := c)))"

function itoa_reverse :: "u32 \<Rightarrow> nat \<Rightarrow> nat \<Rightarrow> bytes \<Rightarrow> bytes" where
  "itoa_reverse buf i j m =
     (if i < j
      then itoa_reverse buf (i + 1) (j - 1)
             (m(buf + of_nat i := m (buf + of_nat j), buf + of_nat j := m (buf + of_nat i)))
      else m)"
  by pat_completeness auto
termination by (relation "measure (\<lambda>(buf, i, j, m). j)") auto

definition itoa :: "u32 \<Rightarrow> u32 \<Rightarrow> u32 \<Rightarrow> bytes \<Rightarrow> bytes option" where
  "itoa num base buf m =
     (if buf = 0 then Some m
      else if num = 0 then Some (m(buf := 0x30, buf + 1 := 0))
      else
        let is_negative = sint num < 0 \<and> base = 10;
            u_num = (if is_negative then - num else num)
        in case itoa_digits u_num base buf 0 m of
             None \<Rightarrow> None
           | Some (i, m1) \<Rightarrow>
               let m2 = (if is_negative then m1(buf + i := 0x2D) else m1);
                   i2 = (if is_negative then i + 1 else i);
                   m3 = m2(buf + i2 := 0)
               in Some (itoa_reverse buf 0 (unat i2 - 1) m3))"

subsection \<open>Copies on the heap\<close>

definition kstrdup :: "u32 \<Rightarrow> u32 \<Rightarrow> bytes \<Rightarrow> (u32 \<times> bytes) option" where
  "kstrdup s buf m =
     (if s = 0 then Some (0, m)
      else case strlen s m of
        None \<Rightarrow> None
      | Some l \<Rightarrow> let len = l + 1 in Some (buf, if buf \<noteq> 0 then memcpy buf s len m else m))"

definition strdup :: "u32 \<Rightarrow> u32 \<Rightarrow> bytes \<Rightarrow> (u32 \<times> bytes) option" where
  "strdup s buf m = kstrdup s buf m"

lemma unat_suc_less: "len < mx \<Longrightarrow> unat (len + 1) = Suc (unat len)" for len mx :: u32
  using unsigned_less [of mx, where ?'a = nat] by (simp add: word_less_nat_alt unat_word_ariths)

function kstrndup_len :: "u32 \<Rightarrow> u32 \<Rightarrow> u32 \<Rightarrow> bytes \<Rightarrow> u32" where
  "kstrndup_len s mx len m =
     (if len < mx \<and> m (s + len) \<noteq> 0 then kstrndup_len s mx (len + 1) m else len)"
  by pat_completeness auto
termination
  by (relation "measure (\<lambda>(s, mx, len, m). unat mx - unat len)") (auto simp: unat_suc_less, simp add: word_less_nat_alt diff_less_mono2)

definition kstrndup :: "u32 \<Rightarrow> u32 \<Rightarrow> u32 \<Rightarrow> bytes \<Rightarrow> u32 \<times> bytes" where
  "kstrndup s mx buf m =
     (if s = 0 then (0, m)
      else
        let len = kstrndup_len s mx 0 m
        in (buf, if buf \<noteq> 0 then (memcpy buf s len m)(buf + len := 0) else m))"

definition kmemdup :: "u32 \<Rightarrow> u32 \<Rightarrow> u32 \<Rightarrow> bytes \<Rightarrow> u32 \<times> bytes" where
  "kmemdup src len p m = (p, if p \<noteq> 0 then memcpy p src len m else m)"

subsection \<open>Moving blocks\<close>

lemma unat_offset: "unat d + k < 2 ^ 32 \<Longrightarrow> unat (d + of_nat k) = unat d + k" for d :: u32
  by (simp add: unat_word_ariths unat_of_nat)

lemma addr_offset: "unat d \<le> unat a \<Longrightarrow> a = d + of_nat (unat a - unat d)" for a d :: u32
  by (simp add: of_nat_diff)

text \<open>The block of \<open>n\<close> bytes at \<open>d\<close> gets the bytes at \<open>s\<close>.\<close>

definition moved :: "u32 \<Rightarrow> u32 \<Rightarrow> nat \<Rightarrow> bytes \<Rightarrow> bytes" where
  "moved d s n m a = (if unat d \<le> unat a \<and> unat a < unat d + n then m (s + (a - d)) else m a)"

lemma moved_0 [simp]: "moved d s 0 m = m"
  by (auto simp: moved_def fun_eq_iff)

lemma moved_1: "moved d s (Suc 0) m = m(d := m s)"
proof -
  have "unat d \<le> unat a \<and> unat a < unat d + Suc 0 \<longleftrightarrow> a = d" for a using word_unat_eq_iff [of a d] by linarith
  then show ?thesis by (simp add: moved_def fun_eq_iff)
qed

text \<open>An offset below \<open>n\<close> from \<open>s\<close> misses \<open>e\<close> when \<open>e\<close> is not in the block at \<open>s\<close>.\<close>

lemma block_misses:
  assumes "unat d \<le> unat a" "unat a < unat d + n" "unat s + n \<le> 2 ^ 32" "unat e < unat s \<or> unat s + n \<le> unat e"
  shows "s + (a - d) \<noteq> (e :: u32)"
proof -
  define k where "k = unat a - unat d"
  have k: "a = d + of_nat k" "k < n" using addr_offset [OF assms(1)] assms(1,2) by (simp_all add: k_def)
  have "unat (s + of_nat k) = unat s + k" using k assms(3) by (intro unat_offset) simp
  then have "unat (s + (a - d)) \<noteq> unat e" using k assms(4) by auto
  then show ?thesis by auto
qed

lemma moved_first:
  assumes "unat d + Suc n \<le> 2 ^ 32" "0 < n" "unat s + Suc n \<le> 2 ^ 32" "\<not> (unat s < unat d \<and> unat d < unat s + Suc n)"
  shows "moved (d + 1) (s + 1) n (m(d := m s)) = moved d s (Suc n) m"
proof
  fix a
  have d1: "unat (d + 1) = Suc (unat d)" using unat_offset [of d 1] assms(1,2) by simp
  have eq: "a = d \<longleftrightarrow> unat a = unat d" by (rule word_unat_eq_iff)
  have "s + (a - d) \<noteq> d \<or> s = d" if "unat d \<le> unat a" "unat a < unat d + Suc n"
    using block_misses [OF that assms(3), of d] assms(4) word_unat_eq_iff [of s d] by linarith
  then show "moved (d + 1) (s + 1) n (m(d := m s)) a = moved d s (Suc n) m a"
    using d1 eq by (auto simp: moved_def)
qed

lemma copy_up_moved:
  assumes "unat d + n \<le> 2 ^ 32" "unat s + n \<le> 2 ^ 32" "\<not> (unat s < unat d \<and> unat d < unat s + n)"
  shows "copy_up d s n m = moved d s n m"
  using assms
proof (induction n arbitrary: d s m)
  case (Suc n)
  show ?case
  proof (cases "n = 0")
    case True
    then show ?thesis by (simp add: moved_1)
  next
    case False
    then have w: "unat (d + 1) = Suc (unat d)" "unat (s + 1) = Suc (unat s)"
      using unat_offset [of d 1] unat_offset [of s 1] Suc.prems by simp_all
    have "copy_up d s (Suc n) m = moved (d + 1) (s + 1) n (m(d := m s))"
      using Suc.prems w by (subst copy_up.simps, intro Suc.IH) auto
    then show ?thesis using moved_first [OF Suc.prems(1) _ Suc.prems(2,3)] False by simp
  qed
qed simp

lemma moved_last:
  assumes "unat d + Suc n \<le> 2 ^ 32" "unat s + Suc n \<le> 2 ^ 32" "unat s \<le> unat d"
  shows "moved d s n (m(d + of_nat n := m (s + of_nat n))) = moved d s (Suc n) m"
proof
  fix a
  have u: "unat (d + of_nat n) = unat d + n" using assms(1) by (intro unat_offset) simp
  have eq: "a = d + of_nat n \<longleftrightarrow> unat a = unat d + n" using u word_unat_eq_iff [of a "d + of_nat n"] by simp
  have "s + (a - d) \<noteq> d + of_nat n" if "unat d \<le> unat a" "unat a < unat d + n"
    using block_misses [OF that, of s "d + of_nat n"] assms u by simp
  then show "moved d s n (m(d + of_nat n := m (s + of_nat n))) a = moved d s (Suc n) m a"
    using eq by (auto simp: moved_def less_Suc_eq)
qed

lemma copy_down_moved:
  assumes "unat d + n \<le> 2 ^ 32" "unat s + n \<le> 2 ^ 32" "unat s \<le> unat d"
  shows "copy_down (d + of_nat n) (s + of_nat n) n m = moved d s n m"
  using assms
proof (induction n arbitrary: m)
  case (Suc n)
  let ?m = "m(d + of_nat n := m (s + of_nat n))"
  have "copy_down (d + of_nat (Suc n)) (s + of_nat (Suc n)) (Suc n) m = copy_down (d + of_nat n) (s + of_nat n) n ?m"
    by (simp add: algebra_simps)
  also have "\<dots> = moved d s n ?m" by (rule Suc.IH) (use Suc.prems in linarith)+
  also have "\<dots> = moved d s (Suc n) m" by (rule moved_last [OF Suc.prems])
  finally show ?case .
qed simp

lemma memmove_moved:
  assumes "unat dest + unat n \<le> 2 ^ 32" "unat src + unat n \<le> 2 ^ 32"
  shows "memmove dest src n m = moved dest src (unat n) m"
proof -
  have "moved dest dest k m = m" for k by (simp add: moved_def fun_eq_iff)
  then show ?thesis
    using assms copy_up_moved [OF assms, of m] copy_down_moved [OF assms, of m]
    by (auto simp: memmove_def word_less_nat_alt)
qed

subsection \<open>Strings as lists\<close>

fun str_at :: "bytes \<Rightarrow> u32 \<Rightarrow> u8 list \<Rightarrow> bool" where
  "str_at m p [] = (m p = 0)"
| "str_at m p (x # xs) = (x \<noteq> 0 \<and> m p = x \<and> str_at m (p + 1) xs)"

lemma strlen_loop_str: "str_at m (p + l) xs \<Longrightarrow> strlen_loop p l m = Some (l + of_nat (length xs))"
proof (induction xs arbitrary: l)
  case (Cons x xs)
  then show ?case by (subst strlen_loop.simps) (simp add: algebra_simps)
qed (subst strlen_loop.simps, simp)

lemma strlen_str: "str_at m p xs \<Longrightarrow> p \<noteq> 0 \<Longrightarrow> strlen p m = Some (of_nat (length xs))"
  using strlen_loop_str [of m p 0 xs] by (simp add: strlen_def)

text \<open>The difference of the first bytes that differ, a NUL byte standing after the end.\<close>

fun str_diff :: "u8 list \<Rightarrow> u8 list \<Rightarrow> int" where
  "str_diff [] [] = 0"
| "str_diff [] (y # ys) = - uint y"
| "str_diff (x # xs) [] = uint x"
| "str_diff (x # xs) (y # ys) = (if x = y then str_diff xs ys else uint x - uint y)"

lemma strcmp_loop_str: "str_at m p xs \<Longrightarrow> str_at m q ys \<Longrightarrow> strcmp_loop p q m = Some (str_diff xs ys)"
  by (induction xs ys arbitrary: p q rule: str_diff.induct) (simp_all add: strcmp_loop.simps)

lemma str_diff_order:
  assumes "0 \<notin> set xs" "0 \<notin> set ys"
  shows "str_diff xs ys = 0 \<longleftrightarrow> xs = ys" "str_diff xs ys < 0 \<longleftrightarrow> ord_class.lexordp xs ys"
  using assms
proof (induction xs ys rule: str_diff.induct)
  case (2 y ys)
  { case 1 with 2 show ?case by (simp add: uint_0_iff) }
  { case 2 then show ?case by (simp add: word_less_def [symmetric]) (simp add: less_le uint_0_iff) }
next
  case (4 x xs y ys)
  { case 1 with 4 show ?case by (auto simp: word_uint_eq_iff) }
  { case 2 with 4 show ?case using word_uint_eq_iff [of x y] by (cases "x = y") (auto simp: word_less_def) }
qed (auto simp: uint_0_iff)

lemma str_at_nonzero: "str_at m p xs \<Longrightarrow> 0 \<notin> set xs"
  by (induction xs arbitrary: p) auto

text \<open>Writing a list of bytes.\<close>

fun put_bytes :: "u32 \<Rightarrow> u8 list \<Rightarrow> bytes \<Rightarrow> bytes" where
  "put_bytes a [] m = m"
| "put_bytes a (x # xs) m = put_bytes (a + 1) xs (m(a := x))"

lemma put_bytes_append: "put_bytes a (xs @ ys) m = put_bytes (a + of_nat (length xs)) ys (put_bytes a xs m)"
  by (induction xs arbitrary: a m) (simp_all add: algebra_simps)

lemma put_bytes_get:
  assumes "length xs \<le> 2 ^ 32"
  shows "put_bytes a xs m p = (if unat (p - a) < length xs then xs ! unat (p - a) else m p)"
  using assms
proof (induction xs arbitrary: a m)
  case (Cons x xs)
  have step: "unat (p - a) = Suc (unat (p - (a + 1)))" if "p \<noteq> a"
  proof -
    have "p - a \<noteq> 0" using that by simp
    then have "unat (p - a) \<noteq> 0" by (simp add: unat_eq_zero)
    moreover have "unat (p - a - 1) = unat (p - a) - 1" using \<open>p - a \<noteq> 0\<close> by (simp add: unat_minus_one)
    ultimately show ?thesis by (simp add: algebra_simps)
  qed
  show ?case
  proof (cases "p = a")
    case True
    have e: "a - (a + 1) = 0xFFFFFFFF" by simp
    have "unat (a - (a + 1)) = 2 ^ 32 - 1" unfolding e by simp
    then show ?thesis using Cons True by simp
  next
    case False
    then show ?thesis using Cons step by simp
  qed
qed simp

lemma put_bytes_nth: "length xs \<le> 2 ^ 32 \<Longrightarrow> i < length xs \<Longrightarrow> put_bytes a xs m (a + of_nat i) = xs ! i"
  by (simp add: put_bytes_get unat_of_nat)

lemma put_bytes_update:
  assumes "length xs \<le> 2 ^ 32" "i < length xs"
  shows "(put_bytes a xs m)(a + of_nat i := v) = put_bytes a (xs[i := v]) m"
proof
  fix p
  have i: "unat (of_nat i :: u32) = i" using assms by (simp add: unat_of_nat)
  have "p = a + of_nat i \<longleftrightarrow> unat (p - a) = i"
  proof
    assume "unat (p - a) = i"
    then have "p - a = of_nat i" by auto
    then show "p = a + of_nat i" by (simp add: algebra_simps)
  qed (simp add: i)
  then show "((put_bytes a xs m)(a + of_nat i := v)) p = put_bytes a (xs[i := v]) m p"
    using assms by (auto simp: put_bytes_get nth_list_update)
qed

lemma str_at_put:
  assumes "0 \<notin> set xs" "length xs < 2 ^ 32"
  shows "str_at (put_bytes a (xs @ [0]) m) a xs"
  using assms
proof (induction xs arbitrary: a m)
  case (Cons x xs)
  have "put_bytes a ((x # xs) @ [0]) m a = x" using put_bytes_nth [of "(x # xs) @ [0]" 0 a m] Cons.prems by simp
  then show ?case using Cons by simp
qed simp

subsection \<open>Decimal numbers\<close>

text \<open>The digits of a number, the most significant first.\<close>

fun dec :: "nat \<Rightarrow> u8 list" where
  "dec n = (if n < 10 then [of_nat n + 0x30] else dec (n div 10) @ [of_nat (n mod 10) + 0x30])"

declare dec.simps [simp del] itoa_reverse.simps [simp del] kstrndup_len.simps [simp del]

definition show_int :: "int \<Rightarrow> u8 list" where
  "show_int n = (if n < 0 then 0x2D # dec (nat (- n)) else dec (nat n))"

definition is_dec_digit :: "u8 \<Rightarrow> bool" where
  "is_dec_digit c \<longleftrightarrow> 0x30 \<le> c \<and> c \<le> 0x39"

lemma dec_digit: "n < 10 \<Longrightarrow> is_dec_digit (of_nat n + 0x30)" "n < 10 \<Longrightarrow> uint (of_nat n + 0x30 :: u8) = int n + 48"
proof -
  assume n: "n < 10"
  then have "unat (of_nat n + 0x30 :: u8) = n + 48" by (simp add: unat_word_ariths unat_of_nat)
  then show u: "uint (of_nat n + 0x30 :: u8) = int n + 48" unfolding uint_nat by simp
  show "is_dec_digit (of_nat n + 0x30)" using n unfolding is_dec_digit_def word_le_def u by simp
qed

lemma sint_u32: "sint x = (if uint x < 2 ^ 31 then uint x else uint x - 2 ^ 32)" for x :: u32
proof (cases "uint x < 2 ^ 31")
  case True
  then have "(uint x + 2147483648) mod 4294967296 = uint x + 2147483648" by simp
  then show ?thesis using True by (simp add: sint_uint signed_take_bit_eq_take_bit_shift take_bit_eq_mod)
next
  case False
  have "(uint x + 2147483648) mod 4294967296 = (uint x + 2147483648 - 4294967296) mod 4294967296" by (metis minus_mod_self2)
  also have "\<dots> = uint x + 2147483648 - 4294967296" using False uint_lt2p [of x] by (intro mod_pos_pos_trivial) simp_all
  finally show ?thesis using False by (simp add: sint_uint signed_take_bit_eq_take_bit_shift take_bit_eq_mod)
qed

lemma dec_digits: "c \<in> set (dec n) \<Longrightarrow> is_dec_digit c"
proof (induction n rule: dec.induct)
  case (1 n)
  then show ?case by (subst (asm) dec.simps) (auto split: if_splits intro: dec_digit(1))
qed

lemma dec_length: "n < 10 ^ k \<Longrightarrow> 0 < k \<Longrightarrow> length (dec n) \<le> k"
proof (induction n arbitrary: k rule: dec.induct)
  case (1 n)
  show ?case
  proof (cases "n < 10")
    case False
    then obtain j where k: "k = Suc j" "0 < j" using "1.prems" by (cases k) (auto, metis gr0I less_not_refl power_0 mult_1_right)
    then have "n div 10 < 10 ^ j" using "1.prems"(1) by (simp add: less_mult_imp_div_less mult.commute)
    then have "length (dec (n div 10)) \<le> j" using "1.IH" [OF False _ k(2)] by simp
    then show ?thesis using False k by (subst dec.simps) simp
  qed (use "1.prems" in \<open>subst dec.simps, simp\<close>)
qed

lemma dec_not_Nil: "dec n \<noteq> []"
  by (subst dec.simps) simp

lemma itoa_digits_dec:
  assumes "u \<noteq> 0"
  shows "itoa_digits u 10 buf i m = Some (i + of_nat (length (dec (unat u))), put_bytes (buf + i) (rev (dec (unat u))) m)"
  using assms
proof (induction "unat u" arbitrary: u i m rule: less_induct)
  case less
  have u10: "unat (u mod 10) = unat u mod 10" "unat (u div 10) = unat u div 10" by (simp_all add: unat_mod unat_div)
  have d: "(9 < int (unat u mod 10)) = False" by simp
  have "uint (u mod 10) = int (unat u mod 10)" unfolding uint_nat u10 ..
  then have sm: "sint (u mod 10) = int (unat u mod 10)" by (simp only: sint_u32) simp
  have c: "(of_int (int (unat u mod 10) + 0x30) :: u8) = of_nat (unat u mod 10) + 0x30" by simp
  have pos: "0 < unat u" using less.prems by (simp add: unat_gt_0)
  have step: "itoa_digits u 10 buf i m = itoa_digits (u div 10) 10 buf (i + 1) (m(buf + i := of_nat (unat u mod 10) + 0x30))"
    using less.prems by (subst itoa_digits.simps) (simp only: sm c d Let_def, simp)
  show ?case
  proof (cases "unat u < 10")
    case True
    then have "u div 10 = 0" using u10(2) by (simp add: unat_eq_zero [symmetric])
    then show ?thesis using step True by (simp add: itoa_digits.simps [of 0] dec.simps [of "unat u"])
  next
    case False
    then have "u div 10 \<noteq> 0" using u10(2) by (metis div_eq_0_iff unat_0 zero_neq_numeral)
    from less.hyps [OF _ this] have "itoa_digits (u div 10) 10 buf (i + 1) (m(buf + i := of_nat (unat u mod 10) + 0x30)) =
      Some (i + 1 + of_nat (length (dec (unat u div 10))), put_bytes (buf + (i + 1)) (rev (dec (unat u div 10))) (m(buf + i := of_nat (unat u mod 10) + 0x30)))"
      using pos u10(2) by simp
    then show ?thesis using step False by (simp add: dec.simps [of "unat u"] algebra_simps)
  qed
qed

lemma itoa_reverse_put:
  assumes "length (us @ xs @ vs) \<le> 2 ^ 32" "xs \<noteq> []"
  shows "itoa_reverse buf (length us) (length us + length xs - 1) (put_bytes buf (us @ xs @ vs) m) = put_bytes buf (us @ rev xs @ vs) m"
  using assms
proof (induction "length xs" arbitrary: us xs vs m rule: less_induct)
  case less
  show ?case
  proof (cases "length xs = 1")
    case True
    then obtain x where "xs = [x]" by (metis One_nat_def length_0_conv length_Suc_conv)
    then show ?thesis by (subst itoa_reverse.simps) simp
  next
    case False
    then obtain x ws where "xs = x # ws" "ws \<noteq> []" using less.prems(2) by (cases xs) auto
    then obtain zs y where xs: "xs = x # zs @ [y]" by (cases ws rule: rev_cases) auto
    let ?i = "length us" and ?j = "length us + Suc (length zs)"
    let ?L = "us @ xs @ vs"
    have ij: "?i < length ?L" "?j < length ?L" by (simp_all add: xs)
    have get: "put_bytes buf ?L m (buf + of_nat ?i) = x" "put_bytes buf ?L m (buf + of_nat ?j) = y"
      using put_bytes_nth [OF less.prems(1) ij(1)] put_bytes_nth [OF less.prems(1) ij(2)] by (simp_all add: xs nth_append)
    have sw: "(?L[?i := y])[?j := x] = us @ (y # zs @ [x]) @ vs" by (simp add: xs list_update_append)
    have up: "(put_bytes buf ?L m)(buf + of_nat ?i := y, buf + of_nat ?j := x) = put_bytes buf ((us @ [y]) @ zs @ (x # vs)) m"
      using put_bytes_update [OF less.prems(1) ij(1), of buf m y] put_bytes_update [of "?L[?i := y]" ?j buf m x] sw ij less.prems(1) by simp
    have j: "?i + length xs - 1 = ?j" by (simp add: xs)
    have "itoa_reverse buf ?i (?i + length xs - 1) (put_bytes buf ?L m)
        = itoa_reverse buf (Suc ?i) (?j - 1) (put_bytes buf ((us @ [y]) @ zs @ (x # vs)) m)"
      unfolding j by (subst itoa_reverse.simps) (simp only: get up, simp)
    also have "\<dots> = put_bytes buf ((us @ [y]) @ rev zs @ (x # vs)) m"
    proof (cases "zs = []")
      case True
      then show ?thesis by (subst itoa_reverse.simps) simp
    next
      case False
      have "itoa_reverse buf (length (us @ [y])) (length (us @ [y]) + length zs - 1) (put_bytes buf ((us @ [y]) @ zs @ (x # vs)) m)
        = put_bytes buf ((us @ [y]) @ rev zs @ (x # vs)) m"
        using False less.prems(1) by (intro less.hyps) (simp_all add: xs)
      then show ?thesis by simp
    qed
    finally show ?thesis by (simp add: xs)
  qed
qed

lemma abs_word: "unat (if sint x < 0 then - x else x) = nat \<bar>sint x\<bar>" for x :: u32
proof (cases "sint x < 0")
  case True
  then have "2 ^ 31 \<le> uint x" by (auto simp: sint_u32 split: if_splits)
  moreover have "(- uint x) mod 2 ^ 32 = 2 ^ 32 - uint x"
    using uint_lt2p [of x] \<open>2 ^ 31 \<le> uint x\<close> by (simp add: zmod_zminus1_eq_if)
  then have "uint (- x) = 2 ^ 32 - uint x" unfolding uint_word_ariths by simp
  ultimately show ?thesis using True uint_lt2p [of x] unfolding unat_eq_nat_uint sint_u32 by simp
next
  case False
  then have "sint x = uint x" using uint_lt2p [of x] by (auto simp: sint_u32 split: if_splits)
  then show ?thesis unfolding unat_eq_nat_uint by simp
qed

lemma itoa_show:
  assumes "buf \<noteq> 0"
  shows "itoa num 10 buf m = Some (put_bytes buf (show_int (sint num) @ [0]) m)"
proof (cases "num = 0")
  case True
  then show ?thesis using assms by (simp add: itoa_def show_int_def dec.simps)
next
  case False
  define neg where "neg = (sint num < 0)"
  define u where "u = (if neg then - num else num)"
  have u: "u \<noteq> 0" "unat u = nat \<bar>sint num\<bar>" using False abs_word by (simp_all add: u_def neg_def)
  let ?d = "dec (unat u)"
  have len: "length ?d \<le> 10" using unsigned_less [of u, where ?'a = nat] by (intro dec_length) simp_all
  let ?r = "rev ?d @ (if neg then [0x2D] else [])"
  have sh: "show_int (sint num) = rev ?r" using u(2) by (simp add: show_int_def neg_def)
  have lu: "unat (of_nat (length ?r) :: u32) = length ?r" using len by (subst unat_of_nat) simp
  have ne: "?r \<noteq> []" using dec_not_Nil by simp
  have "itoa num 10 buf m = Some (itoa_reverse buf 0 (length ?r - 1) (put_bytes buf (?r @ [0]) m))"
    using assms False itoa_digits_dec [OF u(1), of buf 0 m] lu
    by (cases neg) (simp_all add: itoa_def neg_def [symmetric] u_def put_bytes_append Let_def ac_simps)
  also have "itoa_reverse buf 0 (length ?r - 1) (put_bytes buf (?r @ [0]) m) = put_bytes buf (rev ?r @ [0]) m"
    using itoa_reverse_put [of "[]" ?r "[0]" buf m] ne len by simp
  finally show ?thesis using sh by simp
qed

subsection \<open>Properties\<close>

text \<open>
  C28: \<open>memmove\<close> copies a block as it was, whatever the overlap: afterwards every byte of the destination is the byte that the source
  had at the same offset before the call, and no other byte has changed.  \<open>memcpy\<close> does the same as \<open>memmove\<close> unless the
  destination starts inside the source.
\<close>
theorem memmove_equivalence:
  assumes "unat dest + unat n \<le> 2 ^ 32" "unat src + unat n \<le> 2 ^ 32"
  shows "memmove dest src n m a = (if dest \<le> a \<and> unat a < unat dest + unat n then m (src + (a - dest)) else m a) \<and>
    (src < dest \<and> unat dest < unat src + unat n \<or> memcpy dest src n m = memmove dest src n m)"
  using memmove_moved [OF assms, of m] copy_up_moved [OF assms, of m]
  by (auto simp: moved_def word_le_nat_alt word_less_nat_alt memcpy_def)

theorem memmove_equivalence_witness:
  "memmove 0x1001 0x1000 3 (\<lambda>a. ucast a) 0x1003 = 2 \<and> memcpy 0x1000 0x1001 3 (\<lambda>a. ucast a) = memmove 0x1000 0x1001 3 (\<lambda>a. ucast a)"
  using memmove_equivalence [of "0x1001" 3 "0x1000" "\<lambda>a. ucast a" "0x1003"]
    memmove_equivalence [of "0x1000" 3 "0x1001" "\<lambda>a. ucast a"]
  by simp

end
