(* ===== verification/Parser.thy ===== *)
theory Parser
  imports Kstring "HOL-Library.Monad_Syntax"
begin

text \<open>
  The option parser \<open>lib/parser.c\<close>: patterns with \<open>%\<close> directives, substrings and numbers.  The string and the pattern are
  addresses in memory; \<open>None\<close> is a loop that does not end, or a table without a NULL pattern that is run off.  A
  \<open>char\<close> is compared as a byte: every comparison is with an ASCII character, so the sign of \<open>char\<close> does not matter.
\<close>

subsection \<open>Characters\<close>

definition is_digit :: "u8 \<Rightarrow> bool" where
  "is_digit c \<longleftrightarrow> c \<ge> 0x30 \<and> c \<le> 0x39"

definition is_hex_digit :: "u8 \<Rightarrow> bool" where
  "is_hex_digit c \<longleftrightarrow> c \<ge> 0x30 \<and> c \<le> 0x39 \<or> c \<ge> 0x61 \<and> c \<le> 0x66 \<or> c \<ge> 0x41 \<and> c \<le> 0x46"

definition hex_value :: "u8 \<Rightarrow> int" where
  "hex_value c =
     (if c \<ge> 0x30 \<and> c \<le> 0x39 then uint c - 0x30
      else if c \<ge> 0x61 \<and> c \<le> 0x66 then uint c - 0x61 + 10
      else if c \<ge> 0x41 \<and> c \<le> 0x46 then uint c - 0x41 + 10
      else -1)"

subsection \<open>Matching a pattern\<close>

record substring_t =
  sfrom :: u32
  sto :: u32

definition MAX_OPT_ARGS :: nat where "MAX_OPT_ARGS = 3"

partial_function (option) find_meta :: "u32 \<Rightarrow> bytes \<Rightarrow> u32 option option" where
  "find_meta scan m =
     (if m scan = 0 then Some None else if m scan = 0x25 then Some (Some scan) else find_meta (scan + 1) m)"

partial_function (option) scan_while :: "(u8 \<Rightarrow> bool) \<Rightarrow> u32 \<Rightarrow> bytes \<Rightarrow> u32 option" where
  "scan_while P scan m = (if P (m scan) then scan_while P (scan + 1) m else Some scan)"

partial_function (option) scan_len :: "u32 \<Rightarrow> u32 \<Rightarrow> bytes \<Rightarrow> (u32 \<times> u32) option" where
  "scan_len len p m =
     (if is_digit (m p) then scan_len (len * 10 + of_int (uint (m p) - 0x30)) (p + 1) m else Some (len, p))"

text \<open>
  The \<open>switch\<close> on the letter of a directive: the address behind the text that it takes, \<open>Some None\<close> being \<open>return 0\<close>.
\<close>

definition match_arg :: "u8 \<Rightarrow> u32 \<Rightarrow> u32 \<Rightarrow> bytes \<Rightarrow> u32 option option" where
  "match_arg c len s m =
     (if c = 0x73 then do {
        l \<leftarrow> strlen s m;
        Some (if l = 0 then None else Some (s + (if len = -1 \<or> sint len > sint l then l else len)))
      }
      else if c = 0x64 then
        let scan = (if m s = 0x2D then s + 1 else s)
        in if \<not> is_digit (m scan) then Some None else map_option Some (scan_while is_digit scan m)
      else if c = 0x75 then
        if \<not> is_digit (m s) then Some None else map_option Some (scan_while is_digit s m)
      else if c = 0x6F then
        if m s < 0x30 \<or> m s > 0x37 then Some None else map_option Some (scan_while (\<lambda>c. c \<ge> 0x30 \<and> c \<le> 0x37) s m)
      else if c = 0x78 then
        if \<not> is_hex_digit (m s) then Some None else map_option Some (scan_while is_hex_digit s m)
      else Some None)"

partial_function (option) match_one_loop ::
  "u32 \<Rightarrow> u32 \<Rightarrow> nat \<Rightarrow> (nat \<Rightarrow> substring_t) \<Rightarrow> bytes \<Rightarrow> (bool \<times> (nat \<Rightarrow> substring_t)) option" where
  "match_one_loop s p argc args m = do {
     found \<leftarrow> find_meta p m;
     (case found of
        None \<Rightarrow> do { r \<leftarrow> strcmp p s m; Some (r = 0, args) }
      | Some meta \<Rightarrow>
          if strncmp p s (meta - p) m \<noteq> 0 then Some (False, args)
          else
            let s1 = s + (meta - p); p1 = meta + 1
            in if \<not> is_digit (m p1) \<and> m p1 = 0x25 then
                 if m s1 \<noteq> 0x25 then Some (False, args)
                 else match_one_loop (s1 + 1) (p1 + 1) argc args m
               else do {
                 (len, p2) \<leftarrow> (if is_digit (m p1) then scan_len 0 p1 m else Some (-1, p1));
                 (if argc \<ge> MAX_OPT_ARGS then Some (False, args)
                  else
                    let args1 = args(argc := (args argc)\<lparr>sfrom := s1\<rparr>)
                    in do {
                         taken \<leftarrow> match_arg (m p2) len s1 m;
                         (case taken of
                            None \<Rightarrow> Some (False, args1)
                          | Some to \<Rightarrow> match_one_loop to (p2 + 1) (argc + 1) (args1(argc := (args1 argc)\<lparr>sto := to\<rparr>)) m)
                       })
               })
   }"

definition match_one :: "u32 \<Rightarrow> u32 \<Rightarrow> (nat \<Rightarrow> substring_t) \<Rightarrow> bytes \<Rightarrow> (bool \<times> (nat \<Rightarrow> substring_t)) option" where
  "match_one s p args m = (if p = 0 then Some (True, args) else match_one_loop s p 0 args m)"

fun match_token :: "u32 \<Rightarrow> (int \<times> u32) list \<Rightarrow> (nat \<Rightarrow> substring_t) \<Rightarrow> bytes \<Rightarrow> (int \<times> (nat \<Rightarrow> substring_t)) option" where
  "match_token s [] args m = None"
| "match_token s ((token, pattern) # table) args m = do {
     (ok, args') \<leftarrow> match_one s pattern args m;
     (if ok then Some (token, args') else match_token s table args' m)
   }"

subsection \<open>Numbers\<close>

function number_loop :: "u32 \<Rightarrow> u32 \<Rightarrow> int \<Rightarrow> u32 \<Rightarrow> bytes \<Rightarrow> int + u32" where
  "number_loop p to base val m =
     (if p < to then
        if base \<noteq> 16 \<and> \<not> is_digit (m p) then Inl (- EINVAL)
        else
          let digit = (if base = 16 then hex_value (m p) else uint (m p) - 0x30)
          in if digit < 0 \<or> digit \<ge> base then Inl (- EINVAL)
             else number_loop (p + 1) to base (val * of_int base + of_int digit) m
      else Inr val)"
  by pat_completeness auto
termination
  by (relation "measure (\<lambda>(p, to, base, val, m). unat to - unat p)") (auto simp: unat_suc_less, simp_all add: word_less_nat_alt diff_less_mono2)

declare number_loop.simps [simp del]

definition match_number :: "substring_t \<Rightarrow> int \<Rightarrow> bytes \<Rightarrow> int + u32" where
  "match_number s base m =
     (if sfrom s \<ge> sto s then Inl (- EINVAL)
      else
        let neg = (m (sfrom s) = 0x2D);
            p = (if neg then sfrom s + 1 else sfrom s);
            (base', p') =
              (if base = 0 then
                 if sint (sto s - p) \<ge> 2 \<and> m p = 0x30 \<and> (m (p + 1) = 0x78 \<or> m (p + 1) = 0x58) then (16, p + 2)
                 else if p < sto s \<and> m p = 0x30 then (8, p + 1)
                 else (10, p)
               else (base, p))
        in if p' \<ge> sto s then Inl (- EINVAL)
           else case number_loop p' (sto s) base' 0 m of
                  Inl e \<Rightarrow> Inl e
                | Inr val \<Rightarrow> Inr (val * (if neg then -1 else 1)))"

definition match_int :: "substring_t \<Rightarrow> bytes \<Rightarrow> int + u32" where "match_int s m = match_number s 0 m"
definition match_octal :: "substring_t \<Rightarrow> bytes \<Rightarrow> int + u32" where "match_octal s m = match_number s 8 m"
definition match_hex :: "substring_t \<Rightarrow> bytes \<Rightarrow> int + u32" where "match_hex s m = match_number s 16 m"

subsection \<open>Copies of a substring\<close>

definition match_strcpy :: "u32 \<Rightarrow> substring_t \<Rightarrow> bytes \<Rightarrow> bytes" where
  "match_strcpy to s m = (memcpy to (sfrom s) (sto s - sfrom s) m)(to + (sto s - sfrom s) := 0)"

definition match_strdup :: "substring_t \<Rightarrow> u32 \<Rightarrow> bytes \<Rightarrow> u32 \<times> bytes" where
  "match_strdup s buf m =
     (let len = sto s - sfrom s
      in if buf = 0 then (0, m) else (buf, (memcpy buf (sfrom s) len m)(buf + len := 0)))"

subsection \<open>Scanning known text\<close>

lemma str_at_drop: "str_at m p (xs @ ys) \<Longrightarrow> str_at m (p + of_nat (length xs)) ys"
  by (induction xs arbitrary: p) (auto simp: add.assoc [symmetric])

lemma find_meta_found:
  "str_at m p (xs @ 0x25 # ys) \<Longrightarrow> 0x25 \<notin> set xs \<Longrightarrow> find_meta p m = Some (Some (p + of_nat (length xs)))"
  by (induction xs arbitrary: p) (subst find_meta.simps, simp add: algebra_simps)+

lemma find_meta_end: "str_at m p xs \<Longrightarrow> 0x25 \<notin> set xs \<Longrightarrow> find_meta p m = Some None"
  by (induction xs arbitrary: p) (subst find_meta.simps, simp)+

lemma strncmp_loop_prefix:
  "str_at m p (xs @ ys) \<Longrightarrow> str_at m q (xs @ zs) \<Longrightarrow> strncmp_loop p q (length xs) m = 0"
  by (induction xs arbitrary: p q) auto

lemma scan_while_run:
  assumes "str_at m p (xs @ ys)" "\<forall>c \<in> set xs. P c" "\<not> P (case ys of [] \<Rightarrow> 0 | c # _ \<Rightarrow> c)"
  shows "scan_while P p m = Some (p + of_nat (length xs))"
  using assms
proof (induction xs arbitrary: p)
  case Nil
  then have "m p = (case ys of [] \<Rightarrow> 0 | c # _ \<Rightarrow> c)" by (cases ys) simp_all
  then show ?case using Nil by (subst scan_while.simps) simp
next
  case (Cons x xs)
  then show ?case by (subst scan_while.simps) (simp add: algebra_simps)
qed

subsection \<open>Reading back a printed number\<close>

lemma is_digit_eq: "is_digit = is_dec_digit"
  by (simp add: is_digit_def is_dec_digit_def fun_eq_iff)

definition dec_value :: "u8 list \<Rightarrow> u32 \<Rightarrow> u32" where
  "dec_value = fold (\<lambda>c v. v * 10 + of_int (uint c - 0x30))"

lemma dec_value_snoc: "dec_value (xs @ [c]) v = dec_value xs v * 10 + of_int (uint c - 0x30)"
  unfolding dec_value_def by (simp only: fold_append fold.simps o_apply id_apply)

lemma digit_value: "n < 10 \<Longrightarrow> (of_int (uint (of_nat n + 0x30 :: u8) - 0x30) :: u32) = of_nat n"
  unfolding dec_digit(2) by simp

lemma dec_value_dec: "dec_value (dec n) 0 = of_nat n"
proof (induction n rule: dec.induct)
  case (1 n)
  show ?case
  proof (cases "n < 10")
    case True
    have "dec n = [] @ [of_nat n + 0x30]" using True by (simp add: dec.simps [of n])
    then show ?thesis unfolding \<open>dec n = _\<close> dec_value_snoc digit_value [OF True] by (simp add: dec_value_def)
  next
    case False
    have d: "n mod 10 < 10" by simp
    have "dec n = dec (n div 10) @ [of_nat (n mod 10) + 0x30]" using False by (simp add: dec.simps [of n])
    have "dec_value (dec n) 0 = of_nat (n div 10) * 10 + of_nat (n mod 10)"
      unfolding \<open>dec n = _\<close> dec_value_snoc digit_value [OF d] "1.IH" [OF False] by (rule refl)
    also have "\<dots> = of_nat (n div 10 * 10 + n mod 10)" by (simp only: of_nat_add of_nat_mult of_nat_numeral)
    finally show ?thesis by simp
  qed
qed

lemma number_loop_digits:
  assumes "str_at m p (ds @ ys)" "\<forall>c \<in> set ds. is_dec_digit c" "unat p + length ds < 2 ^ 32"
  shows "number_loop p (p + of_nat (length ds)) 10 v m = Inr (dec_value ds v)"
  using assms
proof (induction ds arbitrary: p v)
  case Nil
  then show ?case by (subst number_loop.simps) (simp add: dec_value_def)
next
  case (Cons c ds)
  have p1: "unat (p + of_nat (length (c # ds))) = unat p + length (c # ds)" "unat (p + 1) = unat p + 1"
    using unat_offset [of p "length (c # ds)"] unat_offset [of p 1] Cons.prems(3) by simp_all
  then have lt: "p < p + of_nat (length (c # ds))" unfolding word_less_nat_alt by simp
  have c: "m p = c" "is_digit c" "0 \<le> uint c - 0x30" "uint c - 0x30 < 10"
    using Cons.prems(1,2) by (auto simp: is_digit_eq is_dec_digit_def word_le_def)
  have "number_loop p (p + of_nat (length (c # ds))) 10 v m
      = number_loop (p + 1) ((p + 1) + of_nat (length ds)) 10 (v * 10 + of_int (uint c - 0x30)) m"
    using lt c by (subst number_loop.simps) (simp add: add.assoc)
  also have "\<dots> = Inr (dec_value ds (v * 10 + of_int (uint c - 0x30)))"
    using Cons.prems p1 by (intro Cons.IH) simp_all
  finally show ?case by (simp add: dec_value_def)
qed

lemma dec_first: "0 < n \<Longrightarrow> hd (dec n) \<noteq> 0x30"
proof (induction n rule: dec.induct)
  case (1 n)
  show ?case
  proof (cases "n < 10")
    case True
    have "uint (of_nat n + 0x30 :: u8) \<noteq> 0x30" using dec_digit(2) [OF True] 1 by simp
    then show ?thesis using True by (subst dec.simps) auto
  next
    case False
    then show ?thesis using 1 dec_not_Nil by (subst dec.simps) simp
  qed
qed

lemma dec_head: "\<exists>c cs. dec n = c # cs \<and> is_dec_digit c"
  using dec_not_Nil [of n] dec_digits [of _ n] by (cases "dec n") auto

lemma digit_not_special: "is_dec_digit c \<Longrightarrow> c \<noteq> 0x2D \<and> c \<noteq> 0x25 \<and> c \<noteq> 0"
  by (auto simp: is_dec_digit_def)

text \<open>\<open>match_int\<close> on the digits of a number behind an optional sign.\<close>

lemma match_int_dec:
  assumes "str_at m q (sg @ dec n)" "sg = [] \<or> sg = [0x2D]" "unat q + length (sg @ dec n) < 2 ^ 32"
  shows "match_int \<lparr>sfrom = q, sto = q + of_nat (length (sg @ dec n))\<rparr> m =
    (if n = 0 then Inl (- EINVAL) else Inr (if sg = [] then of_nat n else - of_nat n))"
proof -
  define to and p where "to = q + of_nat (length (sg @ dec n))" and "p = q + of_nat (length sg)"
  obtain c cs where c: "dec n = c # cs" "is_dec_digit c" using dec_head by blast
  have u: "unat to = unat q + length (sg @ dec n)" "unat p = unat q + length sg"
    using unat_offset [of q "length (sg @ dec n)"] unat_offset [of q "length sg"] assms(3) by (simp_all add: to_def p_def)
  have sp: "str_at m p (dec n @ [])" using str_at_drop [OF assms(1)] by (simp add: p_def)
  have mp: "m p = c" using sp c by simp
  have neg: "m q = 0x2D \<longleftrightarrow> sg \<noteq> []" "(if m q = 0x2D then q + 1 else q) = p"
    using assms(1,2) c digit_not_special by (auto simp: p_def)
  have to: "to = p + of_nat (length (dec n))" by (simp add: to_def p_def)
  have lt: "q < to" "p < to" using u c unfolding word_less_nat_alt by simp_all
  have ge: "(to \<le> q) = False" "(to \<le> p) = False" using lt by (simp_all add: not_le)
  have "match_int \<lparr>sfrom = q, sto = to\<rparr> m = (if n = 0 then Inl (- EINVAL) else Inr (if sg = [] then of_nat n else - of_nat n))"
  proof (cases "n = 0")
    case True
    then have d: "dec n = [0x30]" by (simp add: dec.simps)
    then have "to - p = 1" "to \<le> p + 1" "m p = 0x30" using mp c by (simp_all add: to)
    then show ?thesis unfolding match_int_def match_number_def Let_def substring_t.simps neg(2) ge using True lt(2) by simp
  next
    case False
    then have z: "(m p = 0x30) = False" using dec_first [of n] c mp by simp
    have "number_loop p to 10 0 m = Inr (of_nat n)"
      unfolding to using number_loop_digits [OF sp, of 0] dec_digits dec_value_dec u assms(3) by simp
    then show ?thesis
      unfolding match_int_def match_number_def Let_def substring_t.simps neg(2) ge z using neg(1) False by (simp add: ge)
  qed
  then show ?thesis by (simp only: to_def)
qed

subsection \<open>Properties\<close>

lemma show_int_split: "\<exists>sg. show_int n = sg @ dec (nat \<bar>n\<bar>) \<and> (if n < 0 then sg = [0x2D] else sg = [])"
  by (auto simp: show_int_def)

lemma show_int_length: "length (show_int (sint (num :: u32))) \<le> 11"
proof -
  have "nat \<bar>sint num\<bar> < 10 ^ 10"
    using abs_word [of num] unsigned_less [of "if sint num < 0 then - num else num", where ?'a = nat] by simp
  from dec_length [OF this] have "length (dec (nat \<bar>sint num\<bar>)) \<le> 10" by simp
  then show ?thesis by (cases "sint num < 0") (simp_all add: show_int_def)
qed

lemma show_int_nonzero: "0 \<notin> set (show_int n)"
  using dec_digits digit_not_special by (auto simp: show_int_def)

lemma substring_full: "r\<lparr>sfrom := a, sto := b\<rparr> = \<lparr>sfrom = a, sto = b\<rparr>" for r :: substring_t
  by (cases r) simp

lemma strcmp_empty: "m p = 0 \<Longrightarrow> m q = 0 \<Longrightarrow> strcmp p q m = Some 0"
  by (simp add: strcmp_def strcmp_loop.simps)

lemma match_d:
  assumes "str_at m q (show_int n)"
  shows "match_arg 0x64 len q m = Some (Some (q + of_nat (length (show_int n))))"
proof -
  obtain sg where sg: "show_int n = sg @ dec (nat \<bar>n\<bar>)" "if n < 0 then sg = [0x2D] else sg = []" using show_int_split by blast
  obtain c cs where c: "dec (nat \<bar>n\<bar>) = c # cs" "is_dec_digit c" using dec_head by blast
  have d: "str_at m (q + of_nat (length sg)) (dec (nat \<bar>n\<bar>) @ [])" using str_at_drop [of m q sg] assms sg by simp
  have "scan_while is_digit (q + of_nat (length sg)) m = Some (q + of_nat (length sg) + of_nat (length (dec (nat \<bar>n\<bar>))))"
    using scan_while_run [OF d, of is_digit] dec_digits by (simp add: is_digit_eq is_dec_digit_def)
  moreover have "(if m q = 0x2D then q + 1 else q) = q + of_nat (length sg)"
    using assms sg c digit_not_special [OF c(2)] by (auto split: if_splits)
  moreover have "is_digit (m (q + of_nat (length sg)))" using d c by (simp add: is_digit_eq)
  ultimately show ?thesis by (simp add: match_arg_def Let_def sg(1) add.assoc)
qed

text \<open>
  C29: Reading back an option.  When a buffer holds a key followed by a number that \<open>itoa\<close> printed in base 10,
  matching it against the pattern made of the key and \<open>%d\<close> succeeds, and \<open>match_int\<close> on the argument gives the
  number, for every 32-bit number but one: for 0 it returns \<open>-EINVAL\<close>, since it takes the only digit for an octal prefix.
\<close>
theorem option_roundtrip:
  assumes "itoa num 10 (s + of_nat (length key)) (put_bytes s key m0) = Some m"
    and "s + of_nat (length key) \<noteq> 0" "s \<noteq> 0" "p \<noteq> 0" "unat s + length key + 12 < 2 ^ 32"
    and key: "0 \<notin> set key" "0x25 \<notin> set key" and pat: "str_at m p (key @ [0x25, 0x64])"
  shows "\<exists>args'. match_one s p args m = Some (True, args') \<and>
    match_int (args' 0) m = (if num = 0 then Inl (- EINVAL) else Inr num)"
proof -
  let ?n = "sint num" and ?k = "of_nat (length key) :: u32"
  let ?q = "s + ?k" and ?to = "s + ?k + of_nat (length (show_int (sint num)))"
  have m: "m = put_bytes s (key @ show_int ?n @ [0]) m0"
    using assms(1) itoa_show [OF assms(2)] by (simp add: put_bytes_append)
  have len: "length (key @ show_int ?n) < 2 ^ 32" using show_int_length [of num] assms(5) by simp
  have str: "str_at m s (key @ show_int ?n)"
    using str_at_put [of "key @ show_int ?n" s m0] key(1) show_int_nonzero len by (simp add: m)
  have q: "str_at m ?q (show_int ?n)" using str_at_drop [OF str] .
  have fin: "m ?to = 0" using str_at_drop [of m ?q "show_int ?n" "[]"] q by simp
  have uq: "unat ?q + length (show_int ?n) < 2 ^ 32"
    using unat_offset [of s "length key"] assms(5) show_int_length [of num] by simp
  have pe: "str_at m (p + ?k) [0x25, 0x64]" using str_at_drop [OF pat] .
  define args1 where "args1 = args(0 := \<lparr>sfrom = ?q, sto = ?to\<rparr>)"
  have cmp: "strncmp p s ?k m = 0"
    using strncmp_loop_prefix [OF pat str] assms(3,4) len by (simp add: strncmp_def unat_of_nat)
  have stop: "match_one_loop ?to (p + ?k + 1 + 1) 1 args1 m = Some (True, args1)"
    using find_meta_end [of m "p + ?k + 1 + 1" "[]"] strcmp_empty [of m "p + ?k + 1 + 1" ?to] pe fin
    by (subst match_one_loop.simps) simp
  have d: "is_digit 0x64 = False" by (simp add: is_digit_def)
  have "match_one_loop s p 0 args m = match_one_loop ?to (p + ?k + 1 + 1) 1 args1 m"
    using find_meta_found [of m p key "[0x64]"] pat key(2) cmp pe match_d [OF q, of "-1"] d
    by (subst match_one_loop.simps) (simp add: MAX_OPT_ARGS_def args1_def substring_full Let_def)
  moreover have "match_int (args1 0) m = (if num = 0 then Inl (- EINVAL) else Inr num)"
  proof -
    obtain sg where sg: "show_int ?n = sg @ dec (nat \<bar>?n\<bar>)" "if ?n < 0 then sg = [0x2D] else sg = []" using show_int_split by blast
    have "sg = [] \<or> sg = [0x2D]" using sg(2) by metis
    then have "match_int \<lparr>sfrom = ?q, sto = ?to\<rparr> m
        = (if nat \<bar>?n\<bar> = 0 then Inl (- EINVAL) else Inr (if sg = [] then of_nat (nat \<bar>?n\<bar>) else - of_nat (nat \<bar>?n\<bar>)))"
      unfolding sg(1) using q sg(1) uq by (intro match_int_dec) simp_all
    moreover have "(if sg = [] then of_nat (nat \<bar>?n\<bar>) else - of_nat (nat \<bar>?n\<bar>)) = (of_int ?n :: u32)" using sg(2) by (auto split: if_splits)
    moreover have "of_int ?n = num" by simp
    then have "nat \<bar>?n\<bar> = 0 \<longleftrightarrow> num = 0" by (auto simp del: of_int_sint)
    ultimately show ?thesis by (simp add: args1_def)
  qed
  ultimately show ?thesis using assms(4) stop by (simp add: match_one_def)
qed

theorem option_roundtrip_witness:
  "\<exists>m args'. itoa 42 10 0x1002 (put_bytes 0x1000 [0x6E, 0x3D] (put_bytes 0x2000 [0x6E, 0x3D, 0x25, 0x64, 0] (\<lambda>_. 0))) = Some m \<and>
    match_one 0x1000 0x2000 (\<lambda>_. \<lparr>sfrom = 0, sto = 0\<rparr>) m = Some (True, args') \<and> match_int (args' 0) m = Inr 42"
proof -
  let ?key = "[0x6E, 0x3D] :: u8 list" and ?m0 = "put_bytes 0x2000 [0x6E, 0x3D, 0x25, 0x64, 0] (\<lambda>_. 0)"
  obtain m where m: "itoa 42 10 0x1002 (put_bytes 0x1000 ?key ?m0) = Some m" by (simp add: itoa_show)
  then have "m = put_bytes 0x1002 (show_int (sint (42 :: u32)) @ [0]) (put_bytes 0x1000 ?key ?m0)" by (simp add: itoa_show)
  moreover have "show_int (sint (42 :: u32)) = [0x34, 0x32]" by (simp add: sint_u32 show_int_def dec.simps)
  ultimately have "str_at m 0x2000 (?key @ [0x25, 0x64])" by simp
  then show ?thesis
    using option_roundtrip [of 42 "0x1000" ?key ?m0 m "0x2000" "\<lambda>_. \<lparr>sfrom = 0, sto = 0\<rparr>"] m by auto
qed

end
