(* ===== verification/Bitmap.thy ===== *)
theory Bitmap
  imports Prelude
begin

text \<open>
  The bitmaps \<open>lib/bitmap.c\<close>, \<open>include/linux/bitmap.h\<close> and \<open>include/linux/bitops.h\<close>.  A bitmap is an array of 32-bit words,
  a function of the index; a count of bits is a natural number.  The theorem reads a bitmap as the set of its bits.
\<close>

type_synonym bitmap = "nat \<Rightarrow> u32"

definition BITS_TO_LONGS :: "nat \<Rightarrow> nat" where "BITS_TO_LONGS nr = (nr + 32 - 1) div 32"

definition BITMAP_LAST_WORD_MASK :: "nat \<Rightarrow> u32" where
  "BITMAP_LAST_WORD_MASK nbits = drop_bit (32 - nbits mod 32) (NOT 0)"

text \<open>A loop \<open>for (k = 0; k < lim; ++k) if (P(k)) return 0;\<close> goes on to the last word iff no \<open>P k\<close> holds.\<close>

fun words_all :: "(nat \<Rightarrow> bool) \<Rightarrow> nat \<Rightarrow> nat \<Rightarrow> bool" where
  "words_all P k 0 = True"
| "words_all P k (Suc n) = (if \<not> P k then False else words_all P (Suc k) n)"

definition bitmap_empty :: "bitmap \<Rightarrow> nat \<Rightarrow> bool" where
  "bitmap_empty bitmap bits =
     (let lim = bits div 32
      in words_all (\<lambda>k. bitmap k = 0) 0 lim \<and>
         \<not> (bits mod 32 \<noteq> 0 \<and> bitmap lim AND BITMAP_LAST_WORD_MASK bits \<noteq> 0))"

definition bitmap_full :: "bitmap \<Rightarrow> nat \<Rightarrow> bool" where
  "bitmap_full bitmap bits =
     (let lim = bits div 32
      in words_all (\<lambda>k. NOT (bitmap k) = 0) 0 lim \<and>
         \<not> (bits mod 32 \<noteq> 0 \<and> NOT (bitmap lim) AND BITMAP_LAST_WORD_MASK bits \<noteq> 0))"

definition bitmap_equal :: "bitmap \<Rightarrow> bitmap \<Rightarrow> nat \<Rightarrow> bool" where
  "bitmap_equal bitmap1 bitmap2 bits =
     (let lim = bits div 32
      in words_all (\<lambda>k. bitmap1 k = bitmap2 k) 0 lim \<and>
         \<not> (bits mod 32 \<noteq> 0 \<and> (bitmap1 lim XOR bitmap2 lim) AND BITMAP_LAST_WORD_MASK bits \<noteq> 0))"

text \<open>A loop that assigns \<open>f k\<close> to the words \<open>k, k + 1, \<dots>\<close> of \<open>dst\<close>.\<close>

fun words_set :: "(nat \<Rightarrow> u32) \<Rightarrow> nat \<Rightarrow> nat \<Rightarrow> bitmap \<Rightarrow> bitmap" where
  "words_set f k 0 dst = dst"
| "words_set f k (Suc n) dst = words_set f (Suc k) n (dst(k := f k))"

definition bitmap_complement :: "bitmap \<Rightarrow> bitmap \<Rightarrow> nat \<Rightarrow> bitmap" where
  "bitmap_complement dst src bits =
     (let lim = bits div 32; dst1 = words_set (\<lambda>k. NOT (src k)) 0 lim dst
      in if bits mod 32 \<noteq> 0 then dst1(lim := NOT (src lim) AND BITMAP_LAST_WORD_MASK bits) else dst1)"

definition bitmap_and :: "bitmap \<Rightarrow> bitmap \<Rightarrow> bitmap \<Rightarrow> nat \<Rightarrow> bitmap" where
  "bitmap_and dst bitmap1 bitmap2 bits = words_set (\<lambda>k. bitmap1 k AND bitmap2 k) 0 (BITS_TO_LONGS bits) dst"

definition bitmap_or :: "bitmap \<Rightarrow> bitmap \<Rightarrow> bitmap \<Rightarrow> nat \<Rightarrow> bitmap" where
  "bitmap_or dst bitmap1 bitmap2 bits = words_set (\<lambda>k. bitmap1 k OR bitmap2 k) 0 (BITS_TO_LONGS bits) dst"

definition bitmap_xor :: "bitmap \<Rightarrow> bitmap \<Rightarrow> bitmap \<Rightarrow> nat \<Rightarrow> bitmap" where
  "bitmap_xor dst bitmap1 bitmap2 bits = words_set (\<lambda>k. bitmap1 k XOR bitmap2 k) 0 (BITS_TO_LONGS bits) dst"

definition bitmap_zero :: "bitmap \<Rightarrow> nat \<Rightarrow> bitmap" where
  "bitmap_zero dst bits = words_set (\<lambda>_. 0) 0 (BITS_TO_LONGS bits) dst"

definition bitmap_fill :: "bitmap \<Rightarrow> nat \<Rightarrow> bitmap" where
  "bitmap_fill dst bits =
     (let nr = BITS_TO_LONGS bits; dst1 = words_set (\<lambda>_. NOT 0) 0 nr dst
      in if bits mod 32 \<noteq> 0 then dst1(nr - 1 := dst1 (nr - 1) AND BITMAP_LAST_WORD_MASK bits) else dst1)"

definition bitmap_copy :: "bitmap \<Rightarrow> bitmap \<Rightarrow> nat \<Rightarrow> bitmap" where
  "bitmap_copy dst src bits = words_set src 0 (BITS_TO_LONGS bits) dst"

definition set_bit_map :: "nat \<Rightarrow> bitmap \<Rightarrow> bitmap" where
  "set_bit_map nr addr = addr(nr div 32 := addr (nr div 32) OR push_bit (nr mod 32) 1)"

definition clear_bit_map :: "nat \<Rightarrow> bitmap \<Rightarrow> bitmap" where
  "clear_bit_map nr addr = addr(nr div 32 := addr (nr div 32) AND NOT (push_bit (nr mod 32) 1))"

definition test_bit :: "nat \<Rightarrow> bitmap \<Rightarrow> bool" where
  "test_bit nr addr \<longleftrightarrow> drop_bit (nr mod 32) (addr (nr div 32)) AND 1 \<noteq> 0"

definition test_and_set_bit :: "nat \<Rightarrow> bitmap \<Rightarrow> bool \<times> bitmap" where
  "test_and_set_bit nr addr =
     (let mask = push_bit (nr mod 32) 1; p = nr div 32
      in (addr p AND mask \<noteq> 0, addr(p := addr p OR mask)))"

definition test_and_clear_bit :: "nat \<Rightarrow> bitmap \<Rightarrow> bool \<times> bitmap" where
  "test_and_clear_bit nr addr =
     (let mask = push_bit (nr mod 32) 1; p = nr div 32
      in (addr p AND mask \<noteq> 0, addr(p := addr p AND NOT mask)))"

fun bitmap_set :: "bitmap \<Rightarrow> nat \<Rightarrow> nat \<Rightarrow> bitmap" where
  "bitmap_set dst pos 0 = dst"
| "bitmap_set dst pos (Suc nbits) =
     bitmap_set (dst(pos div 32 := dst (pos div 32) OR push_bit (pos mod 32) 1)) (Suc pos) nbits"

fun bitmap_clear :: "bitmap \<Rightarrow> nat \<Rightarrow> nat \<Rightarrow> bitmap" where
  "bitmap_clear dst pos 0 = dst"
| "bitmap_clear dst pos (Suc nbits) =
     bitmap_clear (dst(pos div 32 := dst (pos div 32) AND NOT (push_bit (pos mod 32) 1))) (Suc pos) nbits"

subsection \<open>Bitmaps as sets\<close>

definition bit_set :: "bitmap \<Rightarrow> nat \<Rightarrow> nat set" where
  "bit_set b n = {i. i < n \<and> bit (b (i div 32)) (i mod 32)}"

lemma words_all_iff: "words_all P k n \<longleftrightarrow> (\<forall>i < n. P (k + i))"
  by (induction n arbitrary: k) (auto simp: less_Suc_eq_0_disj)

lemma words_set_get: "words_set f k n dst i = (if k \<le> i \<and> i < k + n then f i else dst i)"
  by (induction n arbitrary: k dst) auto

lemma last_word_mask:
  assumes "n mod 32 \<noteq> 0"
  shows "bit (BITMAP_LAST_WORD_MASK n) i \<longleftrightarrow> i < n mod 32"
proof -
  have "n mod 32 < 32" by simp
  then show ?thesis using assms by (auto simp: BITMAP_LAST_WORD_MASK_def bit_simps)
qed

lemma word_zero_iff: "w = 0 \<longleftrightarrow> (\<forall>i < 32. \<not> bit w i)" for w :: u32
  by (auto simp: bit_eq_iff bit_simps)

text \<open>Quantifying over the bits below \<open>n\<close> is quantifying over whole words and the last one.\<close>

lemma div_mod_split: "(i :: nat) < n \<Longrightarrow> i div 32 < n div 32 \<or> i div 32 = n div 32 \<and> i mod 32 < n mod 32"
  using div_le_mono [of i n 32] mult_div_mod_eq [of 32 i] mult_div_mod_eq [of 32 n] by linarith

lemma bits_by_word:
  fixes Q :: "nat \<Rightarrow> nat \<Rightarrow> bool"
  shows "(\<forall>i < n. Q (i div 32) (i mod 32)) \<longleftrightarrow> (\<forall>k < n div 32. \<forall>j < 32. Q k j) \<and> (\<forall>j < n mod 32. Q (n div 32) j)"
proof (intro iffI conjI allI impI)
  fix k j assume a: "\<forall>i < n. Q (i div 32) (i mod 32)" "k < n div 32" "j < (32::nat)"
  have "k * 32 + j < n" using a(2,3) div_times_less_eq_dividend [of n 32] mult_le_mono1 [of "Suc k" "n div 32" 32] by linarith
  moreover have "(k * 32 + j) div 32 = k" "(k * 32 + j) mod 32 = j" using a(3) by simp_all
  ultimately show "Q k j" using a(1) by metis
next
  fix j assume a: "\<forall>i < n. Q (i div 32) (i mod 32)" "j < n mod 32"
  have j: "j < 32" using a(2) mod_less_divisor [of 32 n] by linarith
  have "n div 32 * 32 + j < n" using a(2) div_mult_mod_eq [of n 32] by linarith
  moreover have "(n div 32 * 32 + j) div 32 = n div 32" "(n div 32 * 32 + j) mod 32 = j" using j by simp_all
  ultimately show "Q (n div 32) j" using a(1) by metis
next
  fix i assume a: "(\<forall>k < n div 32. \<forall>j < 32. Q k j) \<and> (\<forall>j < n mod 32. Q (n div 32) j)" "i < n"
  have "i mod 32 < 32" by simp
  then show "Q (i div 32) (i mod 32)" using a(1) div_mod_split [OF a(2)] by metis
qed

lemma bit_set_empty: "bit_set b n = {} \<longleftrightarrow> (\<forall>i < n. \<not> bit (b (i div 32)) (i mod 32))"
  by (auto simp: bit_set_def)

lemma masked_zero: "n mod 32 \<noteq> 0 \<Longrightarrow> w AND BITMAP_LAST_WORD_MASK n = 0 \<longleftrightarrow> (\<forall>j < n mod 32. \<not> bit w j)" for w :: u32
proof -
  assume n: "n mod 32 \<noteq> 0"
  have "j < 32" if "j < n mod 32" for j using that mod_less_divisor [of 32 n] by linarith
  then show ?thesis by (auto simp: word_zero_iff bit_and_iff last_word_mask [OF n])
qed

text \<open>The tests of a whole bitmap: no bit of \<open>f\<close> is set in the words and in the masked last word.\<close>

lemma bitmap_scan:
  "words_all (\<lambda>k. f k = 0) 0 (n div 32) \<and> \<not> (n mod 32 \<noteq> 0 \<and> f (n div 32) AND BITMAP_LAST_WORD_MASK n \<noteq> 0)
     \<longleftrightarrow> (\<forall>i < n. \<not> bit (f (i div 32)) (i mod 32))"
  unfolding bits_by_word [where Q = "\<lambda>k j. \<not> bit (f k) j"] words_all_iff
  using masked_zero [of n "f (n div 32)"] by (cases "n mod 32 = 0") (simp_all add: word_zero_iff)

lemma BITS_TO_LONGS_eq: "BITS_TO_LONGS n = n div 32 + (if n mod 32 = 0 then 0 else 1)"
proof -
  have "n + 32 - 1 = (n mod 32 + 31) + n div 32 * 32" using div_mult_mod_eq [of n 32] by linarith
  then have "(n + 32 - 1) div 32 = n div 32 + (n mod 32 + 31) div 32" by (simp only: div_mult_self1)
  also have "(n mod 32 + 31) div 32 = (if n mod 32 = 0 then 0 else 1)"
    using mod_less_divisor [of 32 n] by (auto intro!: div_nat_eqI)
  finally show ?thesis by (simp add: BITS_TO_LONGS_def)
qed

lemma long_index: "i < n \<Longrightarrow> i div 32 < BITS_TO_LONGS n"
  using div_mod_split [of i n] by (auto simp: BITS_TO_LONGS_eq)

lemma bit_set_words:
  "bit_set (words_set f 0 (BITS_TO_LONGS n) dst) n = {i. i < n \<and> bit (f (i div 32)) (i mod 32)}"
  by (auto simp: bit_set_def words_set_get long_index)

lemma bit_set_upd: "i \<in> bit_set (b(q := w)) n \<longleftrightarrow> i < n \<and> bit (if i div 32 = q then w else b (i div 32)) (i mod 32)"
  by (simp add: bit_set_def)

lemma bit_single: "bit (2 ^ k :: u32) j \<longleftrightarrow> j = k \<and> k < 32"
  by (auto simp: bit_simps)

lemma bit_set_update:
  "bit_set (b(p div 32 := b (p div 32) OR 2 ^ (p mod 32))) n = bit_set b n \<union> ({p} \<inter> {..<n})"
  "bit_set (b(p div 32 := b (p div 32) AND NOT (2 ^ (p mod 32)))) n = bit_set b n - {p}"
proof -
  have e: "i div 32 = p div 32 \<and> i mod 32 = p mod 32 \<longleftrightarrow> i = p" for i by (metis div_mult_mod_eq)
  show "bit_set (b(p div 32 := b (p div 32) OR 2 ^ (p mod 32))) n = bit_set b n \<union> ({p} \<inter> {..<n})"
  proof (rule set_eqI)
    fix i show "i \<in> bit_set (b(p div 32 := b (p div 32) OR 2 ^ (p mod 32))) n \<longleftrightarrow> i \<in> bit_set b n \<union> ({p} \<inter> {..<n})"
      unfolding bit_set_upd using e [of i] by (cases "i div 32 = p div 32") (auto simp: bit_set_def bit_or_iff bit_single)
  qed
  show "bit_set (b(p div 32 := b (p div 32) AND NOT (2 ^ (p mod 32)))) n = bit_set b n - {p}"
  proof (rule set_eqI)
    fix i show "i \<in> bit_set (b(p div 32 := b (p div 32) AND NOT (2 ^ (p mod 32)))) n \<longleftrightarrow> i \<in> bit_set b n - {p}"
      unfolding bit_set_upd using e [of i] by (cases "i div 32 = p div 32") (auto simp: bit_set_def bit_and_iff bit_not_iff bit_single)
  qed
qed

lemma bit_set_masked:
  assumes "n mod 32 \<noteq> 0"
  shows "bit_set (b(n div 32 := w AND BITMAP_LAST_WORD_MASK n)) n = bit_set (b(n div 32 := w)) n"
proof (rule set_eqI)
  fix i
  have "i mod 32 < n mod 32" if "i < n" "i div 32 = n div 32" using div_mod_split [OF that(1)] that(2) by simp
  then show "i \<in> bit_set (b(n div 32 := w AND BITMAP_LAST_WORD_MASK n)) n \<longleftrightarrow> i \<in> bit_set (b(n div 32 := w)) n"
    unfolding bit_set_upd using last_word_mask [OF assms] by (auto simp: bit_and_iff)
qed

lemma longs_last: "n mod 32 \<noteq> 0 \<Longrightarrow> BITS_TO_LONGS n - 1 = n div 32" "n mod 32 = 0 \<Longrightarrow> BITS_TO_LONGS n = n div 32"
  by (simp_all add: BITS_TO_LONGS_eq)

lemma bit_set_cong: "(\<And>k. k < BITS_TO_LONGS n \<Longrightarrow> b k = c k) \<Longrightarrow> bit_set b n = bit_set c n"
  using long_index by (auto simp: bit_set_def)

lemma complement_set: "bit_set (bitmap_complement dst src n) n = {..<n} - bit_set src n"
proof -
  have not: "bit_set (\<lambda>k. NOT (src k)) n = {..<n} - bit_set src n" by (auto simp: bit_set_def bit_not_iff)
  show ?thesis
  proof (cases "n mod 32 = 0")
    case True
    have "bit_set (words_set (\<lambda>k. NOT (src k)) 0 (n div 32) dst) n = bit_set (\<lambda>k. NOT (src k)) n"
      using longs_last(2) [OF True] by (intro bit_set_cong) (simp add: words_set_get)
    then show ?thesis using True not by (simp add: bitmap_complement_def Let_def)
  next
    case False
    have "bit_set ((words_set (\<lambda>k. NOT (src k)) 0 (n div 32) dst)(n div 32 := NOT (src (n div 32)))) n = bit_set (\<lambda>k. NOT (src k)) n"
      using BITS_TO_LONGS_eq [of n] False by (intro bit_set_cong) (auto simp: words_set_get)
    then show ?thesis using False bit_set_masked [OF False] not by (simp add: bitmap_complement_def Let_def)
  qed
qed

lemma fill_set: "bit_set (bitmap_fill dst n) n = {..<n}"
proof -
  have w: "bit_set (words_set (\<lambda>_. NOT 0) 0 (BITS_TO_LONGS n) dst) n = {..<n}" unfolding bit_set_words by (auto simp: bit_not_iff)
  show ?thesis
  proof (cases "n mod 32 = 0")
    case False
    then show ?thesis using w bit_set_masked [OF False, of "words_set (\<lambda>_. NOT 0) 0 (BITS_TO_LONGS n) dst"] longs_last(1) [OF False]
      by (simp add: bitmap_fill_def Let_def)
  qed (use w in \<open>simp add: bitmap_fill_def Let_def\<close>)
qed

lemma set_range: "bit_set (bitmap_set b pos len) n = bit_set b n \<union> ({pos..<pos + len} \<inter> {..<n})"
  by (induction len arbitrary: b pos) (auto simp: bit_set_update)

lemma clear_range: "bit_set (bitmap_clear b pos len) n = bit_set b n - {pos..<pos + len}"
  by (induction len arbitrary: b pos) (auto simp: bit_set_update)

lemma test_mask: "w AND 2 ^ k \<noteq> 0 \<longleftrightarrow> k < 32 \<and> bit w k" for w :: u32
  by (auto simp: word_zero_iff bit_and_iff bit_single)

lemma test_shift: "drop_bit k w AND 1 \<noteq> 0 \<longleftrightarrow> bit w k" for w :: u32
  by (auto simp: word_zero_iff bit_simps)

subsection \<open>Properties\<close>

text \<open>
  C30: A bitmap behaves as the set of its bits below the given count.  The tests decide emptiness, fullness and equality of the
  sets, the operations on whole bitmaps are complement, intersection, union, symmetric difference, the empty and the full set,
  the range operations add and remove a range, and the single-bit operations test, add and remove one element.
\<close>
theorem bitmap_refines_set:
  "(bitmap_empty b n \<longleftrightarrow> bit_set b n = {}) \<and> (bitmap_full b n \<longleftrightarrow> bit_set b n = {..<n}) \<and>
   (bitmap_equal b c n \<longleftrightarrow> bit_set b n = bit_set c n) \<and>
   bit_set (bitmap_complement d b n) n = {..<n} - bit_set b n \<and>
   bit_set (bitmap_and d b c n) n = bit_set b n \<inter> bit_set c n \<and>
   bit_set (bitmap_or d b c n) n = bit_set b n \<union> bit_set c n \<and>
   bit_set (bitmap_xor d b c n) n = (bit_set b n - bit_set c n) \<union> (bit_set c n - bit_set b n) \<and>
   bit_set (bitmap_zero d n) n = {} \<and> bit_set (bitmap_fill d n) n = {..<n} \<and> bit_set (bitmap_copy d b n) n = bit_set b n \<and>
   bit_set (bitmap_set b pos len) n = bit_set b n \<union> ({pos..<pos + len} \<inter> {..<n}) \<and>
   bit_set (bitmap_clear b pos len) n = bit_set b n - {pos..<pos + len} \<and>
   (test_bit i b \<longleftrightarrow> i \<in> bit_set b (Suc i)) \<and>
   (fst (test_and_set_bit i b) \<longleftrightarrow> test_bit i b) \<and> bit_set (snd (test_and_set_bit i b)) n = bit_set b n \<union> ({i} \<inter> {..<n}) \<and>
   (fst (test_and_clear_bit i b) \<longleftrightarrow> test_bit i b) \<and> bit_set (snd (test_and_clear_bit i b)) n = bit_set b n - {i}"
proof (intro conjI)
  show "bitmap_empty b n \<longleftrightarrow> bit_set b n = {}" unfolding bitmap_empty_def Let_def bitmap_scan bit_set_empty ..
  have "bit_set b n = {..<n} \<longleftrightarrow> (\<forall>i < n. \<not> bit (NOT (b (i div 32))) (i mod 32))" by (auto simp: bit_set_def bit_not_iff)
  then show "bitmap_full b n \<longleftrightarrow> bit_set b n = {..<n}" unfolding bitmap_full_def Let_def bitmap_scan [where f = "\<lambda>k. NOT (b k)"] by simp
  have "b k = c k \<longleftrightarrow> b k XOR c k = 0" for k by (auto simp: bit_eq_iff bit_xor_iff)
  moreover have "bit_set b n = bit_set c n \<longleftrightarrow> (\<forall>i < n. \<not> bit (b (i div 32) XOR c (i div 32)) (i mod 32))"
    by (auto simp: bit_set_def bit_xor_iff set_eq_iff)
  ultimately show "bitmap_equal b c n \<longleftrightarrow> bit_set b n = bit_set c n"
    unfolding bitmap_equal_def Let_def using bitmap_scan [where f = "\<lambda>k. b k XOR c k" and n = n] by simp
  show "bit_set (bitmap_and d b c n) n = bit_set b n \<inter> bit_set c n" "bit_set (bitmap_or d b c n) n = bit_set b n \<union> bit_set c n"
    "bit_set (bitmap_xor d b c n) n = (bit_set b n - bit_set c n) \<union> (bit_set c n - bit_set b n)"
    "bit_set (bitmap_zero d n) n = {}" "bit_set (bitmap_copy d b n) n = bit_set b n"
    unfolding bitmap_and_def bitmap_or_def bitmap_xor_def bitmap_zero_def bitmap_copy_def bit_set_words
    by (auto simp: bit_set_def bit_simps)
  show "test_bit i b \<longleftrightarrow> i \<in> bit_set b (Suc i)" by (simp add: test_bit_def test_shift bit_set_def)
  show "fst (test_and_set_bit i b) \<longleftrightarrow> test_bit i b" "fst (test_and_clear_bit i b) \<longleftrightarrow> test_bit i b"
    by (simp_all add: test_and_set_bit_def test_and_clear_bit_def Let_def test_mask test_bit_def test_shift)
qed (simp_all add: complement_set fill_set set_range clear_range test_and_set_bit_def test_and_clear_bit_def Let_def bit_set_update)

end
