(* ===== verification/List_Head.thy ===== *)
theory List_Head
  imports Prelude "HOL-Library.Monad_Syntax"
begin

text \<open>
  The doubly linked lists of \<open>include/linux/list.h\<close>.  A list node is a value of any type, the links are two maps from nodes to
  nodes, and NULL is \<open>None\<close>.  An operation that follows a NULL link does not return.  The theorem shows that the operations
  refine those on lists of nodes, and that lists with other nodes stay as they are.
\<close>

record 'n links =
  nxt :: "'n \<Rightarrow> 'n option"
  prv :: "'n \<Rightarrow> 'n option"

definition set_next :: "'n \<Rightarrow> 'n option \<Rightarrow> ('n, 'a) links_scheme \<Rightarrow> ('n, 'a) links_scheme" where
  "set_next x y h = h\<lparr>nxt := (nxt h)(x := y)\<rparr>"

definition set_prev :: "'n \<Rightarrow> 'n option \<Rightarrow> ('n, 'a) links_scheme \<Rightarrow> ('n, 'a) links_scheme" where
  "set_prev x y h = h\<lparr>prv := (prv h)(x := y)\<rparr>"

definition INIT_LIST_HEAD :: "'n \<Rightarrow> ('n, 'a) links_scheme \<Rightarrow> ('n, 'a) links_scheme" where
  "INIT_LIST_HEAD l h = set_prev l (Some l) (set_next l (Some l) h)"

definition list_add_between :: "'n \<Rightarrow> 'n \<Rightarrow> 'n \<Rightarrow> ('n, 'a) links_scheme \<Rightarrow> ('n, 'a) links_scheme" where
  "list_add_between new prev next h =
     set_next prev (Some new) (set_prev new (Some prev) (set_next new (Some next) (set_prev next (Some new) h)))"

definition list_add :: "'n \<Rightarrow> 'n \<Rightarrow> ('n, 'a) links_scheme \<Rightarrow> ('n, 'a) links_scheme option" where
  "list_add new head h = do { n \<leftarrow> nxt h head; Some (list_add_between new head n h) }"

definition list_add_tail :: "'n \<Rightarrow> 'n \<Rightarrow> ('n, 'a) links_scheme \<Rightarrow> ('n, 'a) links_scheme option" where
  "list_add_tail new head h = do { p \<leftarrow> prv h head; Some (list_add_between new p head h) }"

definition list_del_between :: "'n \<Rightarrow> 'n \<Rightarrow> ('n, 'a) links_scheme \<Rightarrow> ('n, 'a) links_scheme" where
  "list_del_between prev next h = set_next prev (Some next) (set_prev next (Some prev) h)"

definition list_del :: "'n \<Rightarrow> ('n, 'a) links_scheme \<Rightarrow> ('n, 'a) links_scheme option" where
  "list_del entry h = do {
     p \<leftarrow> prv h entry;
     n \<leftarrow> nxt h entry;
     Some (set_prev entry None (set_next entry None (list_del_between p n h)))
   }"

definition list_del_init :: "'n \<Rightarrow> ('n, 'a) links_scheme \<Rightarrow> ('n, 'a) links_scheme" where
  "list_del_init entry h =
     (case (nxt h entry, prv h entry) of
        (Some n, Some p) \<Rightarrow> INIT_LIST_HEAD entry (list_del_between p n h)
      | _ \<Rightarrow> INIT_LIST_HEAD entry h)"

definition list_empty :: "'n \<Rightarrow> ('n, 'a) links_scheme \<Rightarrow> bool" where
  "list_empty head h \<longleftrightarrow> nxt h head = Some head"

definition list_splice_tail_init :: "'n \<Rightarrow> 'n \<Rightarrow> ('n, 'a) links_scheme \<Rightarrow> ('n, 'a) links_scheme option" where
  "list_splice_tail_init l head h =
     (if list_empty l h then Some h
      else do {
        first \<leftarrow> nxt h l;
        last \<leftarrow> prv h l;
        let h1 = set_prev first (prv h head) h;
        p \<leftarrow> prv h1 head;
        let h2 = set_next p (Some first) h1;
        let h3 = set_next last (Some head) h2;
        let h4 = set_prev head (Some last) h3;
        Some (INIT_LIST_HEAD l h4)
      })"

subsection \<open>Rings\<close>

fun linked :: "('n, 'a) links_scheme \<Rightarrow> 'n list \<Rightarrow> bool" where
  "linked h (x # y # zs) = (nxt h x = Some y \<and> prv h y = Some x \<and> linked h (y # zs))"
| "linked h _ = True"

text \<open>The ring through the head \<open>l\<close> holds the nodes \<open>xs\<close> in this order.\<close>

definition ring :: "('n, 'a) links_scheme \<Rightarrow> 'n \<Rightarrow> 'n list \<Rightarrow> bool" where
  "ring h l xs \<longleftrightarrow> distinct (l # xs) \<and> linked h (l # xs @ [l])"

lemma linked_split: "linked h (us @ x # vs) \<longleftrightarrow> linked h (us @ [x]) \<and> linked h (x # vs)"
proof (induction us)
  case (Cons u us)
  then show ?case by (cases us) auto
qed simp

lemma linked_cong:
  assumes "\<And>x. x \<in> set (butlast l) \<Longrightarrow> nxt h' x = nxt h x" "\<And>x. x \<in> set (tl l) \<Longrightarrow> prv h' x = prv h x"
  shows "linked h' l = linked h l"
  using assms by (induction h l rule: linked.induct) auto

lemma links_simps [simp]:
  "nxt (set_next x y h) = (nxt h)(x := y)" "prv (set_next x y h) = prv h"
  "prv (set_prev x y h) = (prv h)(x := y)" "nxt (set_prev x y h) = nxt h"
  by (simp_all add: set_next_def set_prev_def)

lemma ring_distinct: "ring h l xs \<Longrightarrow> distinct (l # xs)"
  by (simp add: ring_def)

text \<open>The node before and the node after a cut of the ring.\<close>

definition before :: "'n \<Rightarrow> 'n list \<Rightarrow> 'n" where "before l us = last (l # us)"
definition after :: "'n \<Rightarrow> 'n list \<Rightarrow> 'n" where "after l vs = hd (vs @ [l])"

lemma before_simps [simp]: "before l [] = l" "before l (us @ [x]) = x" "before l [x] = x"
  by (simp_all add: before_def)

lemma after_simps [simp]: "after l [] = l" "after l (x # vs) = x"
  by (simp_all add: after_def)

lemma before_in: "before l us = l \<or> before l us \<in> set us"
  by (simp add: before_def)

lemma after_in: "after l vs = l \<or> after l vs \<in> set vs"
  by (cases vs) simp_all

text \<open>A ring is its two halves: up to the node before a cut and from the node after it.\<close>

lemma linked_Cons_ring:
  "linked h (x # vs @ [l]) \<longleftrightarrow> nxt h x = Some (after l vs) \<and> prv h (after l vs) = Some x \<and> linked h (vs @ [l])"
  by (cases vs) auto

lemma ring_cut:
  "ring h l (us @ vs) \<longleftrightarrow> distinct (l # us @ vs) \<and> linked h (l # us) \<and> linked h (vs @ [l]) \<and>
     nxt h (before l us) = Some (after l vs) \<and> prv h (after l vs) = Some (before l us)"
proof -
  obtain a p where u: "l # us = a @ [p]" by (metis append_butlast_last_id list.distinct(1))
  obtain n r where v: "vs @ [l] = n # r" by (cases vs) auto
  have "l # (us @ vs) @ [l] = (l # us) @ (vs @ [l])" by simp
  also have "\<dots> = a @ p # n # r" unfolding u v by simp
  finally have e: "linked h (l # (us @ vs) @ [l]) \<longleftrightarrow> linked h (a @ [p]) \<and> nxt h p = Some n \<and> prv h n = Some p \<and> linked h (n # r)"
    using linked_split [of h a p "n # r"] by simp
  have "before l us = p" "after l vs = n" unfolding before_def after_def u v by simp_all
  then show ?thesis unfolding ring_def e u [symmetric] v [symmetric] by auto
qed

lemma ring_next:
  assumes "ring h l (us @ vs)"
  shows "nxt h (before l us) = Some (after l vs)" "prv h (after l vs) = Some (before l us)"
  using assms unfolding ring_cut by blast+

lemma linked_frame:
  assumes "linked h xs" "\<And>x. x \<in> set xs \<Longrightarrow> nxt h' x = nxt h x \<and> prv h' x = prv h x"
  shows "linked h' xs"
  using assms by (induction h xs rule: linked.induct) auto

lemma ring_frame:
  assumes "ring h l xs" "\<And>x. x \<in> set (l # xs) \<Longrightarrow> nxt h' x = nxt h x \<and> prv h' x = prv h x"
  shows "ring h' l xs"
  using assms(1) linked_frame [of h "l # xs @ [l]" h'] assms(2) by (auto simp: ring_def)

subsection \<open>Operations on rings\<close>

lemma before_not_butlast: "distinct (l # us) \<Longrightarrow> before l us \<notin> set (butlast (l # us))"
  unfolding before_def by (metis append_butlast_last_id distinct_append distinct.simps(2) list.distinct(1) disjoint_insert(2) list.set(2))

lemma halves_kept:
  assumes "distinct (l # us @ vs)" "linked h (l # us)" "linked h (vs @ [l])"
    and n: "\<And>x. x \<in> set (l # us @ vs) \<Longrightarrow> x \<noteq> before l us \<Longrightarrow> nxt h' x = nxt h x"
    and p: "\<And>x. x \<in> set (l # us @ vs) \<Longrightarrow> x \<noteq> after l vs \<Longrightarrow> prv h' x = prv h x"
  shows "linked h' (l # us)" "linked h' (vs @ [l])"
proof -
  have l: "before l us \<notin> set (butlast (l # us))" using assms(1) by (intro before_not_butlast) simp
  have u: "after l vs \<notin> set us" using assms(1) after_in [of l vs] by auto
  have "nxt h' x = nxt h x" if "x \<in> set (butlast (l # us))" for x
  proof -
    have "x \<noteq> before l us" using that l by blast
    then show ?thesis using in_set_butlastD [OF that] n [of x] by auto
  qed
  moreover have "prv h' x = prv h x" if "x \<in> set (tl (l # us))" for x using that u p [of x] by auto
  ultimately show "linked h' (l # us)" using linked_cong [of "l # us" h' h] assms(2) by blast
  have b: "before l us \<notin> set vs" using assms(1) before_in [of l us] by auto
  have t: "after l vs \<notin> set (tl (vs @ [l]))" "set (tl (vs @ [l])) \<subseteq> set (l # us @ vs)" using assms(1) by (cases vs; auto)+
  have "nxt h' x = nxt h x" if "x \<in> set (butlast (vs @ [l]))" for x using that b n [of x] by auto
  moreover have "prv h' x = prv h x" if "x \<in> set (tl (vs @ [l]))" for x using that t p [of x] by auto
  ultimately show "linked h' (vs @ [l])" using linked_cong [of "vs @ [l]" h' h] assms(3) by blast
qed

lemma ring_add_between:
  assumes r: "ring h l (us @ vs)" and new: "new \<notin> set (l # us @ vs)"
  shows "ring (list_add_between new (before l us) (after l vs) h) l (us @ new # vs)"
proof -
  let ?p = "before l us" and ?n = "after l vs"
  let ?h = "list_add_between new ?p ?n h"
  have d: "distinct (l # us @ vs)" "linked h (l # us)" "linked h (vs @ [l])" using r unfolding ring_cut by blast+
  have ne: "?p \<noteq> new" "?n \<noteq> new" using new before_in [of l us] after_in [of l vs] by auto
  have e: "nxt ?h = (nxt h)(new := Some ?n, ?p := Some new)" "prv ?h = (prv h)(?n := Some new, new := Some ?p)"
    by (simp_all add: list_add_between_def)
  have k: "linked ?h (l # us)" "linked ?h (vs @ [l])" by (rule halves_kept [OF d]; use new in \<open>auto simp: e\<close>)+
  have "linked ?h ((new # vs) @ [l])" using k(2) ne linked_Cons_ring [of ?h new vs l] by (simp add: e)
  then show ?thesis unfolding ring_cut using k(1) d(1) new ne by (auto simp: e)
qed

lemma ring_del_between:
  assumes r: "ring h l (us @ e # vs)"
  shows "prv h e = Some (before l us)" "nxt h e = Some (after l vs)"
    "ring (list_del_between (before l us) (after l vs) h) l (us @ vs)"
proof -
  let ?p = "before l us" and ?n = "after l vs"
  let ?h = "list_del_between ?p ?n h"
  have d: "distinct (l # us @ e # vs)" "linked h (l # us)" "linked h ((e # vs) @ [l])" "prv h e = Some ?p"
    using r unfolding ring_cut by auto
  then show "prv h e = Some ?p" by simp
  have v: "linked h (vs @ [l])" "nxt h e = Some ?n" using d(3) by (cases vs; simp)+
  show "nxt h e = Some ?n" by (rule v)
  have d': "distinct (l # us @ vs)" using d(1) by auto
  have e: "nxt ?h = (nxt h)(?p := Some ?n)" "prv ?h = (prv h)(?n := Some ?p)" by (simp_all add: list_del_between_def)
  have "linked ?h (l # us)" "linked ?h (vs @ [l])" by (rule halves_kept [OF d' d(2) v(1)]; auto simp: e)+
  then show "ring ?h l (us @ vs)" unfolding ring_cut using d' by (auto simp: e)
qed

lemma list_add_ring:
  assumes "ring h l xs" "new \<notin> set (l # xs)"
  shows "\<exists>h'. list_add new l h = Some h' \<and> ring h' l (new # xs) \<and> links.more h' = links.more h \<and>
    (\<forall>x. x \<notin> set (l # new # xs) \<longrightarrow> nxt h' x = nxt h x \<and> prv h' x = prv h x)"
  using ring_add_between [of h l "[]" xs new] ring_next(1) [of h l "[]" xs] assms after_in [of l xs]
  by (auto simp: list_add_def list_add_between_def set_next_def set_prev_def)

lemma list_add_tail_ring:
  assumes "ring h l xs" "new \<notin> set (l # xs)"
  shows "\<exists>h'. list_add_tail new l h = Some h' \<and> ring h' l (xs @ [new]) \<and> links.more h' = links.more h \<and>
    (\<forall>x. x \<notin> set (l # new # xs) \<longrightarrow> nxt h' x = nxt h x \<and> prv h' x = prv h x)"
  using ring_add_between [of h l xs "[]" new] ring_next(2) [of h l xs "[]"] assms before_in [of l xs]
  by (auto simp: list_add_tail_def list_add_between_def set_next_def set_prev_def)

lemma list_del_init_ring:
  assumes "ring h l (us @ e # vs)"
  shows "ring (list_del_init e h) l (us @ vs)" "ring (list_del_init e h) e []" "links.more (list_del_init e h) = links.more h"
    "x \<notin> set (l # us @ e # vs) \<Longrightarrow> nxt (list_del_init e h) x = nxt h x \<and> prv (list_del_init e h) x = prv h x"
proof -
  note d = ring_del_between [OF assms]
  let ?h = "list_del_between (before l us) (after l vs) h"
  have e: "list_del_init e h = INIT_LIST_HEAD e ?h" using d by (simp add: list_del_init_def)
  have "e \<notin> set (l # us @ vs)" using ring_distinct [OF assms] by auto
  then show "ring (list_del_init e h) l (us @ vs)" unfolding e by (intro ring_frame [OF d(3)]) (auto simp: INIT_LIST_HEAD_def)
  show "ring (list_del_init e h) e []" by (simp add: e ring_def INIT_LIST_HEAD_def)
  show "links.more (list_del_init e h) = links.more h" by (simp add: e INIT_LIST_HEAD_def list_del_between_def set_next_def set_prev_def)
  show "nxt (list_del_init e h) x = nxt h x \<and> prv (list_del_init e h) x = prv h x" if "x \<notin> set (l # us @ e # vs)"
    using that before_in [of l us] after_in [of l vs] by (auto simp: e INIT_LIST_HEAD_def list_del_between_def)
qed

lemma list_del_ring:
  assumes "ring h l (us @ e # vs)"
  shows "\<exists>h'. list_del e h = Some h' \<and> ring h' l (us @ vs) \<and> links.more h' = links.more h \<and> nxt h' e = None \<and> prv h' e = None \<and>
    (\<forall>x. x \<notin> set (l # us @ e # vs) \<longrightarrow> nxt h' x = nxt h x \<and> prv h' x = prv h x)"
proof -
  note d = ring_del_between [OF assms]
  let ?h = "list_del_between (before l us) (after l vs) h"
  let ?h' = "set_prev e None (set_next e None ?h)"
  have "e \<notin> set (l # us @ vs)" using ring_distinct [OF assms] by auto
  then have "ring ?h' l (us @ vs)" by (intro ring_frame [OF d(3)]) auto
  moreover have "links.more ?h' = links.more h" by (simp add: list_del_between_def set_next_def set_prev_def)
  moreover have "\<forall>x. x \<notin> set (l # us @ e # vs) \<longrightarrow> nxt ?h' x = nxt h x \<and> prv ?h' x = prv h x"
    using before_in [of l us] after_in [of l vs] by (auto simp: list_del_between_def)
  ultimately show ?thesis using d(1,2) by (simp add: list_del_def)
qed

lemma list_empty_ring: "ring h l xs \<Longrightarrow> list_empty l h \<longleftrightarrow> xs = []"
  by (cases xs) (auto simp: list_empty_def ring_def)

lemma splice_ring:
  assumes l: "ring h l xs" and k: "ring h k ys" and dj: "set (l # xs) \<inter> set (k # ys) = {}"
  shows "\<exists>h'. list_splice_tail_init l k h = Some h' \<and> ring h' k (ys @ xs) \<and> ring h' l []"
proof (cases xs rule: rev_cases)
  case Nil
  then show ?thesis using l k by (simp add: list_splice_tail_init_def list_empty_ring [OF l])
next
  case (snoc zs z)
  define f p where "f = after l xs" and "p = before k ys"
  have fz: "nxt h l = Some f" "prv h l = Some z" using ring_next(1) [of h l "[]" xs] ring_next(2) [of h l xs "[]"] l snoc by (simp_all add: f_def)
  have pk: "prv h k = Some p" using ring_next(2) [of h k ys "[]"] k by (simp add: p_def)
  have f: "f = hd xs" "f \<in> set xs" "f = after k xs" using snoc by (cases zs; simp add: f_def)+
  have ne: "f \<noteq> k" "l \<noteq> k" "z \<noteq> k" "p \<noteq> z" "p \<noteq> l" "f \<noteq> l" "z \<noteq> l" "l \<notin> set xs" "l \<notin> set ys"
    using dj f(2) before_in [of k ys] ring_distinct [OF l] snoc by (auto simp: p_def)
  define h' where "h' = INIT_LIST_HEAD l (set_prev k (Some z) (set_next z (Some k) (set_next p (Some f) (set_prev f (Some p) h))))"
  have e: "nxt h' = (nxt h)(p := Some f, z := Some k, l := Some l)" "prv h' = (prv h)(f := Some p, k := Some z, l := Some l)"
    by (simp_all add: h'_def INIT_LIST_HEAD_def)
  have "list_splice_tail_init l k h = Some h'"
    using list_empty_ring [OF l] snoc fz pk ne by (simp add: list_splice_tail_init_def h'_def Let_def)
  moreover have "ring h' l []" by (simp add: ring_def e)
  moreover have "ring h' k (ys @ xs)"
  proof -
    have d: "distinct (k # ys @ xs)" using ring_distinct [OF l] ring_distinct [OF k] dj by auto
    have b: "p \<notin> set (butlast (k # ys))" unfolding p_def using d by (intro before_not_butlast) simp
    have "nxt h' x = nxt h x" if "x \<in> set (butlast (k # ys))" for x
    proof -
      have "x \<in> set (k # ys)" "x \<noteq> p" using that b in_set_butlastD by fast+
      then show ?thesis using dj snoc by (auto simp: e)
    qed
    moreover have "prv h' x = prv h x" if "x \<in> set (tl (k # ys))" for x using that d dj f(2) by (auto simp: e)
    ultimately have "linked h' (k # ys) = linked h (k # ys)" by (rule linked_cong)
    moreover have "linked h (k # ys)" using k ring_cut [of h k ys "[]"] by simp
    ultimately have one: "linked h' (k # ys)" by simp
    obtain g gs where g: "xs = g # gs" using f(2) by (cases xs) simp_all
    have t: "f \<notin> set (tl xs)" "set (tl xs) \<subseteq> set xs" using d by (auto simp: f(1) g)
    have px: "p \<notin> set xs" using dj before_in [of k ys] by (auto simp: p_def)
    have "nxt h' x = nxt h x" if "x \<in> set (butlast xs)" for x using that px d ne(8) snoc by (auto simp: e)
    moreover have "prv h' x = prv h x" if "x \<in> set (tl xs)" for x using that t d ne(8) by (auto simp: e)
    ultimately have "linked h' xs = linked h xs" by (rule linked_cong)
    moreover have "linked h xs" using l ring_cut [of h l xs "[]"] snoc by (cases zs) auto
    ultimately have "linked h' (xs @ [k])" using linked_split [of h' zs z "[k]"] ne by (simp add: snoc e)
    then show ?thesis unfolding ring_cut using d one ne f(3) by (auto simp: e p_def [symmetric])
  qed
  ultimately show ?thesis by blast
qed

subsection \<open>Properties\<close>

lemma list_head_ops:
  assumes l: "ring h l xs" and k: "ring h k ys" and dj: "set (l # xs) \<inter> set (k # ys) = {}" and new: "new \<notin> set (l # xs) \<union> set (k # ys)"
  shows "\<exists>h'. list_add new l h = Some h' \<and> ring h' l (new # xs) \<and> ring h' k ys"
    and "\<exists>h'. list_add_tail new l h = Some h' \<and> ring h' l (xs @ [new]) \<and> ring h' k ys"
    and "e \<in> set xs \<Longrightarrow> \<exists>h'. list_del e h = Some h' \<and> ring h' l (remove1 e xs) \<and> ring h' k ys"
    and "e \<in> set xs \<Longrightarrow> ring (list_del_init e h) l (remove1 e xs) \<and> ring (list_del_init e h) e [] \<and> ring (list_del_init e h) k ys"
    and "\<exists>h'. list_splice_tail_init l k h = Some h' \<and> ring h' k (ys @ xs) \<and> ring h' l []"
    and "list_empty l h \<longleftrightarrow> xs = []"
proof -
  have fr: "ring h' k ys" if "\<And>x. x \<notin> set (l # new # xs) \<Longrightarrow> nxt h' x = nxt h x \<and> prv h' x = prv h x" for h'
  proof (rule ring_frame [OF k])
    fix x assume "x \<in> set (k # ys)"
    then have "x \<notin> set (l # new # xs)" using dj new by auto
    then show "nxt h' x = nxt h x \<and> prv h' x = prv h x" by (rule that)
  qed
  show "\<exists>h'. list_add new l h = Some h' \<and> ring h' l (new # xs) \<and> ring h' k ys" using list_add_ring [OF l, of new] new fr by auto
  show "\<exists>h'. list_add_tail new l h = Some h' \<and> ring h' l (xs @ [new]) \<and> ring h' k ys" using list_add_tail_ring [OF l, of new] new fr by auto
  have sp: "\<exists>us vs. xs = us @ e # vs \<and> remove1 e xs = us @ vs" if "e \<in> set xs"
    using split_list_first [OF that] by (auto simp: remove1_append) blast
  show "\<exists>h'. list_del e h = Some h' \<and> ring h' l (remove1 e xs) \<and> ring h' k ys" if e: "e \<in> set xs"
  proof -
    obtain us vs where xs: "xs = us @ e # vs" "remove1 e xs = us @ vs" using sp [OF e] by blast
    obtain h' where h': "list_del e h = Some h'" "ring h' l (us @ vs)" "\<forall>x. x \<notin> set (l # us @ e # vs) \<longrightarrow> nxt h' x = nxt h x \<and> prv h' x = prv h x"
      using list_del_ring [OF l [unfolded xs]] by blast
    have "ring h' k ys" using h'(3) by (intro fr) (simp add: xs(1))
    then show ?thesis using h' xs(2) by simp
  qed
  show "ring (list_del_init e h) l (remove1 e xs) \<and> ring (list_del_init e h) e [] \<and> ring (list_del_init e h) k ys" if e: "e \<in> set xs"
  proof -
    obtain us vs where xs: "xs = us @ e # vs" "remove1 e xs = us @ vs" using sp [OF e] by blast
    note d = list_del_init_ring [OF l [unfolded xs]]
    have "ring (list_del_init e h) k ys" using d(4) by (intro fr) (simp add: xs(1))
    then show ?thesis using d(1,2) xs(2) by simp
  qed
qed (rule splice_ring [OF l k dj], rule list_empty_ring [OF l])

text \<open>
  C32: The list operations refine the operations on lists of nodes.  On a ring that holds \<open>xs\<close>, \<open>list_add\<close> gives a ring with the new
  node in front, \<open>list_add_tail\<close> one with the new node at the end, \<open>list_del\<close> and \<open>list_del_init\<close> one without the given node,
  and \<open>list_splice_tail_init\<close> moves all nodes to the end of another ring and leaves an empty one; \<open>list_empty\<close> decides emptiness.  A
  ring with other nodes keeps its content.
\<close>
theorem list_head_refines:
  assumes "ring h l xs" "ring h k ys" "set (l # xs) \<inter> set (k # ys) = {}" "new \<notin> set (l # xs) \<union> set (k # ys)"
  shows "(\<exists>h'. list_add new l h = Some h' \<and> ring h' l (new # xs) \<and> ring h' k ys) \<and>
    (\<exists>h'. list_add_tail new l h = Some h' \<and> ring h' l (xs @ [new]) \<and> ring h' k ys) \<and>
    (\<forall>e \<in> set xs. (\<exists>h'. list_del e h = Some h' \<and> ring h' l (remove1 e xs) \<and> ring h' k ys) \<and>
      ring (list_del_init e h) l (remove1 e xs) \<and> ring (list_del_init e h) e [] \<and> ring (list_del_init e h) k ys) \<and>
    (\<exists>h'. list_splice_tail_init l k h = Some h' \<and> ring h' k (ys @ xs) \<and> ring h' l []) \<and>
    (list_empty l h \<longleftrightarrow> xs = [])"
  using list_head_ops [OF assms] by blast

theorem list_head_refines_witness:
  "\<exists>h'. list_add (2 :: nat) 0 (INIT_LIST_HEAD 1 (INIT_LIST_HEAD 0 \<lparr>nxt = \<lambda>_. None, prv = \<lambda>_. None\<rparr>)) = Some h' \<and> ring h' 0 [2] \<and> ring h' 1 []"
proof -
  let ?h = "INIT_LIST_HEAD 1 (INIT_LIST_HEAD 0 \<lparr>nxt = \<lambda>_. None, prv = \<lambda>_. None\<rparr>) :: nat links"
  have "ring ?h 0 []" "ring ?h 1 []" by (simp_all add: ring_def INIT_LIST_HEAD_def)
  from list_head_refines [OF this, of 2] show ?thesis by simp
qed

end
