(* ===== verification/Sched.thy ===== *)
theory Sched
  imports List_Head
begin

text \<open>
  Tasks, the scheduler and wait queues: \<open>kernel/sched/core.c\<close>, \<open>kernel/sched/wait.c\<close>, \<open>kernel/exit.c\<close>, \<open>kernel/signal.c\<close>,
  \<open>kernel/pid.c\<close>, the timer path of \<open>arch/x86/kernel/irq.c\<close>, and \<open>include/linux/completion.h\<close>.  A task is a number, the
  address of its \<open>task_struct\<close>; the lists are the linked lists of \<open>List_Head\<close>, with one node for every \<open>list_head\<close> that the
  structures embed.  A wait entry is the one that is embedded in a task.  Interrupt flags and spin locks have no
  counterpart: an operation that holds a lock is one step.  Calls into the memory and file code, which share no data with this
  state, are recorded in the order in which they happen.  \<open>None\<close> is a NULL link that is followed, a loop that does
  not end, or a panic.
\<close>

subsection \<open>State\<close>

datatype task_state = TASK_RUNNABLE | TASK_SLEEPING | TASK_BLOCKED | TASK_ZOMBIE

datatype wait_queue_head = Child_exit nat | Wait_queue nat

text \<open>
  The list heads: the task list, the members \<open>tasks\<close>, \<open>children\<close>, \<open>sibling\<close> of a task, the list of a wait queue, the wait entry
  of a task, and the local list of \<open>__wake_up\<close>.
\<close>

datatype node = Task_list | Tasks nat | Children nat | Sibling nat | Queue wait_queue_head | Entry nat | Wake_list

record task_struct =
  usage :: int
  pid :: u32
  real_parent :: "nat option"
  parent :: "nat option"
  thread_regs :: u32
  thread_sp0 :: u32
  wake_jiffies :: u32
  tstate :: task_state
  time_slice :: int
  task_mm :: "nat option"
  exit_code :: int
  exit_state :: int
  exit_info0 :: u32
  exit_info1 :: u32
  comm :: "u8 list"
  fs_pwd :: "nat option"
  fs_root :: "nat option"
  uid :: u32
  gid :: u32
  umask :: u32
  waitq :: "wait_queue_head option"
  wait_flags :: u32
  wait_private :: "nat option"
  wait_func :: bool

datatype call = Files_init nat | Files_clone nat nat | Files_close_all nat | Mm_destroy nat | Dentry_get nat | Dentry_put nat | Kfree nat | Kfree_stack u32

record sched =
  lst :: "node links"
  task :: "nat \<Rightarrow> task_struct"
  rq_tasks :: "node option"
  cpu_current :: "nat option"
  cpu_need_resched :: bool
  current :: "nat option"
  need_resched :: bool
  last_pid :: u32
  sched_switch_count :: u32
  kernel_preempt_count :: int
  jiffies :: u32
  mm_pgd :: "nat \<Rightarrow> u32"
  pgd_current :: u32
  pgd_kernel :: u32
  tss_esp0 :: u32
  calls :: "call list"

definition TASK_TIMESLICE_TICKS :: int where "TASK_TIMESLICE_TICKS = 3"

definition THREAD_SIZE :: u32 where "THREAD_SIZE = 4096"

definition upd_task :: "nat \<Rightarrow> (task_struct \<Rightarrow> task_struct) \<Rightarrow> sched \<Rightarrow> sched" where
  "upd_task t f s = s\<lparr>task := (task s)(t := f (task s t))\<rparr>"

definition on_links :: "(node links \<Rightarrow> node links option) \<Rightarrow> sched \<Rightarrow> sched option" where
  "on_links f s = map_option (\<lambda>h. s\<lparr>lst := h\<rparr>) (f (lst s))"

definition upd_links :: "(node links \<Rightarrow> node links) \<Rightarrow> sched \<Rightarrow> sched" where
  "upd_links f s = s\<lparr>lst := f (lst s)\<rparr>"

definition called :: "call \<Rightarrow> sched \<Rightarrow> sched" where
  "called c s = s\<lparr>calls := calls s @ [c]\<rparr>"

subsection \<open>The current task\<close>

definition sched_sync_compat_globals :: "sched \<Rightarrow> sched" where
  "sched_sync_compat_globals s = s\<lparr>current := cpu_current s, need_resched := cpu_need_resched s\<rparr>"

definition sched_set_current :: "nat option \<Rightarrow> sched \<Rightarrow> sched" where
  "sched_set_current t s = sched_sync_compat_globals (s\<lparr>cpu_current := t\<rparr>)"

definition task_current :: "sched \<Rightarrow> nat option" where
  "task_current s = cpu_current s"

definition task_set_need_resched :: "sched \<Rightarrow> sched" where
  "task_set_need_resched s = sched_sync_compat_globals (s\<lparr>cpu_need_resched := True\<rparr>)"

definition task_clear_need_resched :: "sched \<Rightarrow> sched" where
  "task_clear_need_resched s = sched_sync_compat_globals (s\<lparr>cpu_need_resched := False\<rparr>)"

definition task_need_resched :: "sched \<Rightarrow> bool" where
  "task_need_resched s = cpu_need_resched s"

definition preempt_disable :: "sched \<Rightarrow> sched" where
  "preempt_disable s = s\<lparr>kernel_preempt_count := kernel_preempt_count s + 1\<rparr>"

definition preempt_enable :: "sched \<Rightarrow> sched" where
  "preempt_enable s = (if kernel_preempt_count s > 0 then s\<lparr>kernel_preempt_count := kernel_preempt_count s - 1\<rparr> else s)"

definition preempt_count :: "sched \<Rightarrow> int" where
  "preempt_count s = kernel_preempt_count s"

subsection \<open>The run queue\<close>

definition runqueue_init :: "node \<Rightarrow> sched \<Rightarrow> sched" where
  "runqueue_init tasks s = s\<lparr>rq_tasks := Some tasks\<rparr>"

definition runqueue_empty :: "sched \<Rightarrow> bool" where
  "runqueue_empty s = (case rq_tasks s of None \<Rightarrow> True | Some h \<Rightarrow> list_empty h (lst s))"

partial_function (option) wake_sleepers_loop :: "node \<Rightarrow> node \<Rightarrow> u32 \<Rightarrow> sched \<Rightarrow> sched option" where
  "wake_sleepers_loop head pos now s =
     (if pos = head then Some s
      else case pos of
        Tasks t \<Rightarrow>
          let s1 = (if tstate (task s t) = TASK_SLEEPING \<and> sint (now - wake_jiffies (task s t)) \<ge> 0
                    then upd_task t (\<lambda>x. x\<lparr>tstate := TASK_RUNNABLE\<rparr>) s else s)
          in do { n \<leftarrow> nxt (lst s1) pos; wake_sleepers_loop head n now s1 }
      | _ \<Rightarrow> None)"

definition runqueue_wake_sleepers :: "u32 \<Rightarrow> sched \<Rightarrow> sched option" where
  "runqueue_wake_sleepers now s =
     (if runqueue_empty s then Some s
      else do {
        head \<leftarrow> rq_tasks s;
        n \<leftarrow> nxt (lst s) head;
        wake_sleepers_loop head n now s
      })"

partial_function (option) pick_loop :: "node \<Rightarrow> nat \<Rightarrow> node \<Rightarrow> sched \<Rightarrow> nat option" where
  "pick_loop head cur pos s =
     (if pos = Tasks cur then Some cur
      else case pos of
        Tasks t \<Rightarrow>
          if tstate (task s t) = TASK_RUNNABLE then Some t
          else do {
            n \<leftarrow> nxt (lst s) pos;
            n' \<leftarrow> (if n = head then nxt (lst s) n else Some n);
            pick_loop head cur n' s
          }
      | _ \<Rightarrow> None)"

definition runqueue_pick_next :: "nat \<Rightarrow> sched \<Rightarrow> nat option" where
  "runqueue_pick_next cur s =
     (if runqueue_empty s then Some cur
      else do {
        head \<leftarrow> rq_tasks s;
        n \<leftarrow> nxt (lst s) (Tasks cur);
        n' \<leftarrow> (if n = head then nxt (lst s) n else Some n);
        pick_loop head cur n' s
      })"

definition task_tick :: "sched \<Rightarrow> sched option" where
  "task_tick s =
     (let now = jiffies s
      in if runqueue_empty s then Some s
         else do {
           s1 \<leftarrow> runqueue_wake_sleepers now s;
           Some (case cpu_current s1 of
                   None \<Rightarrow> s1
                 | Some c \<Rightarrow>
                     if tstate (task s1 c) \<noteq> TASK_RUNNABLE then task_set_need_resched s1
                     else
                       let s2 = (if time_slice (task s1 c) > 0 then upd_task c (\<lambda>x. x\<lparr>time_slice := time_slice x - 1\<rparr>) s1 else s1)
                       in if time_slice (task s2 c) \<le> 0 then task_set_need_resched s2 else s2)
         })"

definition load_pgd :: "u32 \<Rightarrow> sched \<Rightarrow> sched" where
  "load_pgd d s = s\<lparr>pgd_current := d\<rparr>"

text \<open>The new value of \<open>regs\<close>, and the state.\<close>

definition task_schedule :: "u32 \<Rightarrow> sched \<Rightarrow> (u32 \<times> sched) option" where
  "task_schedule regs s =
     (case cpu_current s of
        None \<Rightarrow> Some (regs, s)
      | Some c \<Rightarrow>
          let s1 = upd_task c (\<lambda>x. x\<lparr>thread_regs := regs\<rparr>) s
          in if \<not> task_need_resched s1 then Some (thread_regs (task s1 c), s1)
             else
               let s2 = task_clear_need_resched s1
               in do {
                    next \<leftarrow> runqueue_pick_next c s2;
                    let s3 = (if next \<noteq> c then s2\<lparr>sched_switch_count := sched_switch_count s2 + 1\<rparr> else s2);
                    let s4 = sched_set_current (Some next) s3;
                    let pgd = (case task_mm (task s4 next) of None \<Rightarrow> 0 | Some mm \<Rightarrow> mm_pgd s4 mm);
                    let s5 = (if pgd \<noteq> 0 then (if pgd \<noteq> pgd_current s4 then load_pgd pgd s4 else s4)
                              else (if pgd_kernel s4 \<noteq> 0 \<and> pgd_kernel s4 \<noteq> pgd_current s4 then load_pgd (pgd_kernel s4) s4 else s4));
                    let s6 = s5\<lparr>tss_esp0 := thread_sp0 (task s5 next)\<rparr>;
                    let s7 = (if time_slice (task s6 next) \<le> 0 then upd_task next (\<lambda>x. x\<lparr>time_slice := TASK_TIMESLICE_TICKS\<rparr>) s6 else s6);
                    Some (thread_regs (task s7 next), s7)
                  })"

definition task_should_resched :: "sched \<Rightarrow> bool" where
  "task_should_resched s =
     (case cpu_current s of
        None \<Rightarrow> False
      | Some c \<Rightarrow> if tstate (task s c) \<noteq> TASK_RUNNABLE then True else task_need_resched s)"

text \<open>The timer interrupt: \<open>timer_callback\<close> counts the tick, then \<open>irq_handler\<close> may switch tasks.\<close>

definition time_tick :: "sched \<Rightarrow> sched" where
  "time_tick s = s\<lparr>jiffies := jiffies s + 1\<rparr>"

definition irq_handler :: "u32 \<Rightarrow> sched \<Rightarrow> (u32 \<times> sched) option" where
  "irq_handler regs s = do {
     s1 \<leftarrow> task_tick (time_tick s);
     (if preempt_count s1 = 0 \<and> task_should_resched s1 then task_schedule regs s1 else Some (regs, s1))
   }"

text \<open>\<open>task_yield\<close> raises the vector of the timer interrupt.\<close>

definition task_yield :: "u32 \<Rightarrow> sched \<Rightarrow> (u32 \<times> sched) option" where
  "task_yield regs s = irq_handler regs (task_set_need_resched s)"

definition task_sleep :: "u32 \<Rightarrow> u32 \<Rightarrow> sched \<Rightarrow> (u32 \<times> sched) option" where
  "task_sleep ticks regs s =
     (case task_current s of
        None \<Rightarrow> Some (regs, s)
      | Some t \<Rightarrow>
          if ticks = 0 then Some (regs, s)
          else
            let s1 = upd_task t (\<lambda>x. x\<lparr>wake_jiffies := jiffies s + ticks, tstate := TASK_SLEEPING\<rparr>) s
            in task_yield regs (task_set_need_resched s1))"

definition wake_up_process :: "nat \<Rightarrow> sched \<Rightarrow> bool \<times> sched" where
  "wake_up_process t s =
     (if tstate (task s t) = TASK_SLEEPING \<or> tstate (task s t) = TASK_BLOCKED then
        let s1 = (if tstate (task s t) = TASK_SLEEPING
                  then upd_task t (\<lambda>x. x\<lparr>wake_jiffies := 0, tstate := TASK_RUNNABLE\<rparr>) s
                  else upd_task t (\<lambda>x. x\<lparr>tstate := TASK_RUNNABLE\<rparr>) s);
            s2 = (if time_slice (task s1 t) \<le> 0 then upd_task t (\<lambda>x. x\<lparr>time_slice := TASK_TIMESLICE_TICKS\<rparr>) s1 else s1)
        in (True, task_set_need_resched s2)
      else (False, s))"

subsection \<open>Wait queues\<close>

definition init_waitqueue_head :: "wait_queue_head \<Rightarrow> sched \<Rightarrow> sched" where
  "init_waitqueue_head q s = upd_links (INIT_LIST_HEAD (Queue q)) s"

definition init_waitqueue_entry :: "nat \<Rightarrow> sched \<Rightarrow> sched" where
  "init_waitqueue_entry t s =
     upd_links (INIT_LIST_HEAD (Entry t)) (upd_task t (\<lambda>x. x\<lparr>wait_flags := 0, wait_private := Some t, wait_func := True\<rparr>) s)"

definition default_wake_function :: "nat \<Rightarrow> sched \<Rightarrow> bool \<times> sched" where
  "default_wake_function entry s =
     (case wait_private (task s entry) of
        None \<Rightarrow> (False, s)
      | Some t \<Rightarrow> wake_up_process t (upd_task t (\<lambda>x. x\<lparr>waitq := None\<rparr>) s))"

definition add_wait_queue :: "wait_queue_head \<Rightarrow> nat \<Rightarrow> sched \<Rightarrow> sched option" where
  "add_wait_queue q wait s = on_links (list_add (Entry wait) (Queue q)) s"

definition add_wait_queue_exclusive :: "wait_queue_head \<Rightarrow> nat \<Rightarrow> sched \<Rightarrow> sched option" where
  "add_wait_queue_exclusive q wait s =
     on_links (list_add_tail (Entry wait) (Queue q)) (upd_task wait (\<lambda>x. x\<lparr>wait_flags := wait_flags x OR 1\<rparr>) s)"

definition remove_wait_queue :: "nat \<Rightarrow> sched \<Rightarrow> sched" where
  "remove_wait_queue wait s = (if \<not> list_empty (Entry wait) (lst s) then upd_links (list_del_init (Entry wait)) s else s)"

definition wait_queue_block_locked :: "wait_queue_head \<Rightarrow> sched \<Rightarrow> sched option" where
  "wait_queue_block_locked q s =
     (case task_current s of
        None \<Rightarrow> Some s
      | Some t \<Rightarrow>
          if waitq (task s t) = Some q then Some s
          else if tstate (task s t) = TASK_ZOMBIE then Some s
          else do {
            s1 \<leftarrow> add_wait_queue q t (init_waitqueue_entry t (upd_task t (\<lambda>x. x\<lparr>waitq := Some q\<rparr>) s));
            Some (upd_task t (\<lambda>x. x\<lparr>tstate := TASK_BLOCKED\<rparr>) s1)
          })"

definition wait_queue_block :: "wait_queue_head \<Rightarrow> sched \<Rightarrow> sched option" where
  "wait_queue_block q s = wait_queue_block_locked q s"

partial_function (option) take_waiters :: "wait_queue_head \<Rightarrow> sched \<Rightarrow> sched option" where
  "take_waiters q s =
     (if list_empty (Queue q) (lst s) then Some s
      else do {
        entry \<leftarrow> nxt (lst s) (Queue q);
        s1 \<leftarrow> on_links (list_add_tail entry Wake_list) (upd_links (list_del_init entry) s);
        take_waiters q s1
      })"

partial_function (option) wake_loop :: "node \<Rightarrow> node \<Rightarrow> int \<Rightarrow> int \<Rightarrow> sched \<Rightarrow> (int \<times> sched) option" where
  "wake_loop pos n nr woke s =
     (if pos = Wake_list then Some (woke, s)
      else case pos of
        Entry t \<Rightarrow>
          let s1 = upd_links (list_del_init pos) s;
              (r, s2) = (if wait_func (task s1 t) then default_wake_function t s1 else (False, s1));
              woke1 = (if r then 1 else woke)
          in if nr > 0 \<and> woke1 \<ge> nr then Some (woke1, s2)
             else do { n' \<leftarrow> nxt (lst s2) n; wake_loop n n' nr woke1 s2 }
      | _ \<Rightarrow> None)"

text \<open>\<open>__wake_up\<close>\<close>

definition wake_up_queue :: "wait_queue_head \<Rightarrow> int \<Rightarrow> sched \<Rightarrow> sched option" where
  "wake_up_queue q nr s = do {
     s1 \<leftarrow> take_waiters q (upd_links (INIT_LIST_HEAD Wake_list) s);
     pos \<leftarrow> nxt (lst s1) Wake_list;
     n \<leftarrow> nxt (lst s1) pos;
     (woke, s2) \<leftarrow> wake_loop pos n nr 0 s1;
     Some (if woke \<noteq> 0 then task_set_need_resched s2 else s2)
   }"

definition wake_up_all :: "wait_queue_head \<Rightarrow> sched \<Rightarrow> sched option" where "wake_up_all q s = wake_up_queue q 0 s"
definition wake_up :: "wait_queue_head \<Rightarrow> sched \<Rightarrow> sched option" where "wake_up q s = wake_up_queue q 1 s"
definition wake_up_nr :: "wait_queue_head \<Rightarrow> int \<Rightarrow> sched \<Rightarrow> sched option" where "wake_up_nr q nr s = wake_up_queue q nr s"

definition waitqueue_active :: "wait_queue_head \<Rightarrow> sched \<Rightarrow> bool" where
  "waitqueue_active q s \<longleftrightarrow> \<not> list_empty (Queue q) (lst s)"

definition wait_queue_remove :: "nat \<Rightarrow> sched \<Rightarrow> sched" where
  "wait_queue_remove t s = upd_task t (\<lambda>x. x\<lparr>waitq := None\<rparr>) (remove_wait_queue t s)"

subsection \<open>Looking up and releasing tasks\<close>

partial_function (option) find_task_loop :: "u32 \<Rightarrow> node \<Rightarrow> sched \<Rightarrow> nat option option" where
  "find_task_loop vpid pos s =
     (if pos = Task_list then Some None
      else case pos of
        Tasks t \<Rightarrow> if pid (task s t) = vpid then Some (Some t) else do { n \<leftarrow> nxt (lst s) pos; find_task_loop vpid n s }
      | _ \<Rightarrow> None)"

definition find_task_by_vpid :: "u32 \<Rightarrow> sched \<Rightarrow> nat option option" where
  "find_task_by_vpid vpid s =
     (if list_empty Task_list (lst s) then Some None
      else do { n \<leftarrow> nxt (lst s) Task_list; find_task_loop vpid n s })"

definition is_idle_task :: "nat \<Rightarrow> sched \<Rightarrow> bool" where
  "is_idle_task t s \<longleftrightarrow> pid (task s t) = 0"

definition is_global_init :: "nat \<Rightarrow> sched \<Rightarrow> bool" where
  "is_global_init t s \<longleftrightarrow> pid (task s t) = 1"

definition task_release_invariant_holds :: "nat \<Rightarrow> sched \<Rightarrow> bool" where
  "task_release_invariant_holds t s \<longleftrightarrow>
     \<not> is_idle_task t s \<and> tstate (task s t) = TASK_ZOMBIE \<and> real_parent (task s t) = None \<and> parent (task s t) = None \<and>
     list_empty (Tasks t) (lst s) \<and> list_empty (Sibling t) (lst s) \<and> list_empty (Children t) (lst s) \<and> waitq (task s t) = None"

definition get_task_struct :: "nat \<Rightarrow> sched \<Rightarrow> sched" where
  "get_task_struct t s = upd_task t (\<lambda>x. x\<lparr>usage := usage x + 1\<rparr>) s"

text \<open>\<open>put_task_struct\<close> with \<open>__put_task_struct\<close>, which panics when the task is still reachable.\<close>

definition put_task_struct_final :: "nat \<Rightarrow> sched \<Rightarrow> sched option" where
  "put_task_struct_final t s =
     (if \<not> task_release_invariant_holds t s then None
      else if usage (task s t) \<noteq> 0 then None
      else Some (called (Kfree t) (if thread_sp0 (task s t) \<noteq> 0 then called (Kfree_stack (thread_sp0 (task s t) - THREAD_SIZE)) s else s)))"

definition put_task_struct :: "nat \<Rightarrow> sched \<Rightarrow> sched option" where
  "put_task_struct t s =
     (let s1 = upd_task t (\<lambda>x. x\<lparr>usage := usage x - 1\<rparr>) s
      in if usage (task s1 t) = 0 then put_task_struct_final t s1 else Some s1)"

definition release_task :: "nat \<Rightarrow> sched \<Rightarrow> sched option" where
  "release_task t s =
     (if is_idle_task t s then Some s
      else
        let s1 = (if \<not> list_empty (Sibling t) (lst s) then upd_links (list_del_init (Sibling t)) s else s);
            s2 = (if \<not> list_empty (Tasks t) (lst s1) then upd_links (list_del_init (Tasks t)) s1 else s1);
            s3 = upd_task t (\<lambda>x. x\<lparr>real_parent := None, parent := None\<rparr>) s2
        in put_task_struct t s3)"

subsection \<open>Exit\<close>

definition task_release_resources :: "nat \<Rightarrow> sched \<Rightarrow> sched" where
  "task_release_resources t s =
     (let s1 = called (Files_close_all t) s;
          s2 = (case task_mm (task s1 t) of None \<Rightarrow> s1 | Some mm \<Rightarrow> upd_task t (\<lambda>x. x\<lparr>task_mm := None\<rparr>) (called (Mm_destroy mm) s1));
          s3 = (case fs_pwd (task s2 t) of None \<Rightarrow> s2 | Some d \<Rightarrow> upd_task t (\<lambda>x. x\<lparr>fs_pwd := None\<rparr>) (called (Dentry_put d) s2))
      in case fs_root (task s3 t) of None \<Rightarrow> s3 | Some d \<Rightarrow> upd_task t (\<lambda>x. x\<lparr>fs_root := None\<rparr>) (called (Dentry_put d) s3))"

partial_function (option) reparent_loop :: "nat \<Rightarrow> nat \<Rightarrow> node \<Rightarrow> node \<Rightarrow> bool \<Rightarrow> sched \<Rightarrow> (bool \<times> sched) option" where
  "reparent_loop par reaper pos n wake s =
     (if pos = Children par then Some (wake, s)
      else case pos of
        Sibling t \<Rightarrow> do {
          s1 \<leftarrow> on_links (list_del (Sibling t)) s;
          s2 \<leftarrow> on_links (list_add_tail (Sibling t) (Children reaper))
                  (upd_task t (\<lambda>x. x\<lparr>real_parent := Some reaper, parent := Some reaper\<rparr>) s1);
          n' \<leftarrow> nxt (lst s2) n;
          reparent_loop par reaper n n' (wake \<or> tstate (task s2 t) = TASK_ZOMBIE) s2
        }
      | _ \<Rightarrow> None)"

definition reparent_children :: "nat \<Rightarrow> nat \<Rightarrow> sched \<Rightarrow> (bool \<times> sched) option" where
  "reparent_children par reaper s =
     (if list_empty (Children par) (lst s) then Some (False, s)
      else do {
        pos \<leftarrow> nxt (lst s) (Children par);
        n \<leftarrow> nxt (lst s) pos;
        reparent_loop par reaper pos n False s
      })"

definition task_reaper_locked :: "sched \<Rightarrow> (nat option \<times> sched) option" where
  "task_reaper_locked s = do {
     found \<leftarrow> find_task_by_vpid 1 s;
     (case found of
        Some r \<Rightarrow> Some (Some r, get_task_struct r s)
      | None \<Rightarrow>
          if \<not> list_empty Task_list (lst s) then do {
            n \<leftarrow> nxt (lst s) Task_list;
            (case n of Tasks r \<Rightarrow> Some (Some r, get_task_struct r s) | _ \<Rightarrow> None)
          }
          else Some (None, s))
   }"

definition task_zombify :: "nat \<Rightarrow> int \<Rightarrow> int \<Rightarrow> u32 \<Rightarrow> u32 \<Rightarrow> sched \<Rightarrow> sched" where
  "task_zombify t code reason info0 info1 s =
     (if is_idle_task t s then s
      else if tstate (task s t) = TASK_ZOMBIE then s
      else upd_task t (\<lambda>x. x\<lparr>exit_code := code, exit_state := reason, exit_info0 := info0, exit_info1 := info1, tstate := TASK_ZOMBIE\<rparr>)
             (task_release_resources t s))"

definition signal_notify_exit :: "nat \<Rightarrow> sched \<Rightarrow> sched option" where
  "signal_notify_exit child s =
     (case parent (task s child) of
        None \<Rightarrow> Some s
      | Some p \<Rightarrow> wake_up_all (Child_exit p) (snd (wake_up_process p s)))"

definition exit_notify :: "nat \<Rightarrow> int \<Rightarrow> int \<Rightarrow> u32 \<Rightarrow> u32 \<Rightarrow> sched \<Rightarrow> sched option" where
  "exit_notify t code reason info0 info1 s =
     (if is_idle_task t s then Some s
      else if tstate (task s t) = TASK_ZOMBIE then Some s
      else
        let s1 = (if tstate (task s t) = TASK_BLOCKED \<and> waitq (task s t) \<noteq> None then wait_queue_remove t s else s);
            par = parent (task s1 t);
            s2 = (case par of None \<Rightarrow> s1 | Some p \<Rightarrow> get_task_struct p s1)
        in do {
             (found, s3) \<leftarrow> task_reaper_locked s2;
             let reaper = (case found of None \<Rightarrow> t | Some r \<Rightarrow> r);
             (wake, s4) \<leftarrow> reparent_children t reaper s3;
             let s5 = task_zombify t code reason info0 info1 s4;
             s6 \<leftarrow> signal_notify_exit t s5;
             s7 \<leftarrow> (case par of None \<Rightarrow> Some s6 | Some p \<Rightarrow> wake_up_all (Child_exit p) s6);
             s8 \<leftarrow> (if wake then wake_up_all (Child_exit reaper) s7 else Some s7);
             s9 \<leftarrow> (case par of None \<Rightarrow> Some s8 | Some p \<Rightarrow> put_task_struct p s8);
             s10 \<leftarrow> (if reaper \<noteq> t then put_task_struct reaper s9 else Some s9);
             Some (task_set_need_resched s10)
           })"

definition TASK_EXIT_NORMAL :: int where "TASK_EXIT_NORMAL = 0"
definition TASK_EXIT_SIGNAL :: int where "TASK_EXIT_SIGNAL = 3"

definition do_exit_reason :: "int \<Rightarrow> int \<Rightarrow> u32 \<Rightarrow> u32 \<Rightarrow> sched \<Rightarrow> sched option" where
  "do_exit_reason code reason info0 info1 s =
     (case task_current s of
        None \<Rightarrow> Some s
      | Some t \<Rightarrow> if is_idle_task t s then Some s else exit_notify t code reason info0 info1 s)"

definition do_exit :: "int \<Rightarrow> sched \<Rightarrow> sched option" where
  "do_exit code s =
     (case task_current s of
        None \<Rightarrow> Some s
      | Some t \<Rightarrow> if is_idle_task t s then Some s else do_exit_reason code TASK_EXIT_NORMAL 0 0 s)"

definition sys_exit :: "int \<Rightarrow> sched \<Rightarrow> sched option" where "sys_exit code s = do_exit code s"

subsection \<open>Signals\<close>

definition SIGINT :: int where "SIGINT = 2"
definition SIGKILL :: int where "SIGKILL = 9"
definition SIGTERM :: int where "SIGTERM = 15"
definition SIGCHLD :: int where "SIGCHLD = 17"

definition signal_wake_up_state :: "nat \<Rightarrow> sched \<Rightarrow> sched" where
  "signal_wake_up_state t s =
     (if tstate (task s t) = TASK_SLEEPING then snd (wake_up_process t s)
      else if tstate (task s t) = TASK_BLOCKED \<and> waitq (task s t) \<noteq> None then snd (wake_up_process t (wait_queue_remove t s))
      else s)"

definition sys_kill :: "u32 \<Rightarrow> int \<Rightarrow> sched \<Rightarrow> (int \<times> sched) option" where
  "sys_kill vpid sig s =
     (if \<not> (sig = 0 \<or> sig = SIGCHLD \<or> sig = SIGINT \<or> sig = SIGKILL \<or> sig = SIGTERM) then Some (-1, s)
      else if vpid = 0 then Some (-1, s)
      else if list_empty Task_list (lst s) then Some (-1, s)
      else do {
        found \<leftarrow> find_task_by_vpid vpid s;
        (case found of
           None \<Rightarrow> Some (-1, s)
         | Some t \<Rightarrow>
             if is_idle_task t s then Some (-1, s)
             else if sig = 0 then Some (0, s)
             else if sig = SIGCHLD then
               (case parent (task s t) of None \<Rightarrow> Some (-1, s) | Some p \<Rightarrow> Some (0, signal_wake_up_state p s))
             else if tstate (task s t) = TASK_ZOMBIE then Some (0, s)
             else if task_mm (task s t) = None then Some (-1, s)
             else if task_current s = Some t then
               map_option (\<lambda>s'. (0, s')) (do_exit_reason (128 + sig) TASK_EXIT_SIGNAL (of_int sig) 0 s)
             else if is_global_init t s then Some (-1, s)
             else map_option (\<lambda>s'. (0, s')) (exit_notify t (128 + sig) TASK_EXIT_SIGNAL (of_int sig) 0 s))
      })"

subsection \<open>Waiting for a child\<close>

text \<open>
  One round of the loop of \<open>do_waitpid\<close>, up to \<open>task_yield\<close>: it returns a child that was reaped with its exit values, an
  error, or it has blocked.
\<close>

datatype wait_round = Reaped u32 int int u32 u32 | Wait_error | Wait_blocked

partial_function (option) find_child :: "nat \<Rightarrow> u32 \<Rightarrow> node \<Rightarrow> bool \<Rightarrow> sched \<Rightarrow> (nat option \<times> bool) option" where
  "find_child par vpid pos has_target s =
     (if pos = Children par then Some (None, has_target)
      else case pos of
        Sibling t \<Rightarrow>
          if \<not> (vpid = -1 \<or> pid (task s t) = vpid) then do { n \<leftarrow> nxt (lst s) pos; find_child par vpid n has_target s }
          else if tstate (task s t) = TASK_ZOMBIE then Some (Some t, True)
          else if vpid \<noteq> -1 then Some (None, True)
          else do { n \<leftarrow> nxt (lst s) pos; find_child par vpid n True s }
      | _ \<Rightarrow> None)"

definition do_waitpid :: "u32 \<Rightarrow> sched \<Rightarrow> (wait_round \<times> sched) option" where
  "do_waitpid vpid s =
     (if vpid = 0 then Some (Wait_error, s)
      else case task_current s of
        None \<Rightarrow> Some (Wait_error, s)
      | Some me \<Rightarrow>
          if vpid \<noteq> -1 \<and> pid (task s me) = vpid then Some (Wait_error, s)
          else do {
            first \<leftarrow> nxt (lst s) (Children me);
            (found, has_target) \<leftarrow> find_child me vpid first False s;
            (case found of
               Some t \<Rightarrow>
                 let s1 = upd_links (list_del_init (Sibling t)) (get_task_struct t s); x = task s1 t
                 in do {
                      s2 \<leftarrow> release_task t s1;
                      s3 \<leftarrow> put_task_struct t s2;
                      Some (Reaped (pid x) (exit_code x) (exit_state x) (exit_info0 x) (exit_info1 x), s3)
                    }
             | None \<Rightarrow>
                 if list_empty (Children me) (lst s) \<or> \<not> has_target then Some (Wait_error, s)
                 else do { s1 \<leftarrow> wait_queue_block_locked (Child_exit me) s; Some (Wait_blocked, s1) })
          })"

subsection \<open>Creating tasks\<close>

fun comm_chars :: "nat \<Rightarrow> u8 list \<Rightarrow> u8 list" where
  "comm_chars (Suc n) (c # cs) = (if c = 0 then [] else c # comm_chars n cs)"
| "comm_chars _ _ = []"

definition set_task_comm :: "nat \<Rightarrow> u8 list option \<Rightarrow> sched \<Rightarrow> sched" where
  "set_task_comm t program s =
     upd_task t (\<lambda>x. x\<lparr>comm := (case program of None \<Rightarrow> [] | Some cs \<Rightarrow> comm_chars 31 cs)\<rparr>) s"

definition inc_dentry :: "nat option \<Rightarrow> sched \<Rightarrow> sched" where
  "inc_dentry d s = (case d of None \<Rightarrow> s | Some x \<Rightarrow> called (Dentry_get x) s)"

text \<open>
  The end of \<open>sys_fork\<close> and \<open>task_create_internal\<close>: initialise the lists of the new task and link it.
\<close>

definition link_task :: "nat \<Rightarrow> nat option \<Rightarrow> sched \<Rightarrow> sched option" where
  "link_task t par s =
     (let s1 = init_waitqueue_entry t (upd_task t (\<lambda>x. x\<lparr>waitq := None\<rparr>) s);
          s2 = upd_links (\<lambda>h. INIT_LIST_HEAD (Sibling t) (INIT_LIST_HEAD (Children t) (INIT_LIST_HEAD (Tasks t) h))) s1;
          s3 = init_waitqueue_head (Child_exit t) s2
      in do {
           s4 \<leftarrow> (case par of None \<Rightarrow> Some s3 | Some p \<Rightarrow> on_links (list_add_tail (Sibling t) (Children p)) s3);
           on_links (list_add_tail (Tasks t) Task_list) s4
         })"

text \<open>
  \<open>sys_fork\<close>: the arguments are the results of the two calls of \<open>kmalloc\<close>, of \<open>dup_mm\<close>, and the address of the
  registers that \<open>copy_thread\<close> builds on the new stack.
\<close>

definition sys_fork :: "nat option \<Rightarrow> u32 option \<Rightarrow> nat option \<Rightarrow> u32 \<Rightarrow> sched \<Rightarrow> (int \<times> sched) option" where
  "sys_fork new_task new_stack child_mm child_regs s =
     (case task_current s of
        None \<Rightarrow> Some (-1, s)
      | Some par \<Rightarrow>
          if task_mm (task s par) = None then Some (-1, s)
          else case (new_task, new_stack, child_mm) of
            (Some t, Some stack, Some mm) \<Rightarrow>
              let new_pid = last_pid s + 1; x = task s par;
                  s1 = upd_task t (\<lambda>y. y\<lparr>usage := 1, pid := new_pid, real_parent := Some par, parent := Some par, thread_regs := child_regs,
                         thread_sp0 := stack + THREAD_SIZE, wake_jiffies := 0, tstate := TASK_RUNNABLE, time_slice := TASK_TIMESLICE_TICKS,
                         task_mm := Some mm, exit_code := 0, exit_state := 0, exit_info0 := 0, exit_info1 := 0\<rparr>) (s\<lparr>last_pid := new_pid\<rparr>);
                  s2 = set_task_comm t (Some (comm x)) s1;
                  s3 = inc_dentry (fs_pwd x) (upd_task t (\<lambda>y. y\<lparr>fs_pwd := fs_pwd x\<rparr>) s2);
                  s4 = inc_dentry (fs_root x) (upd_task t (\<lambda>y. y\<lparr>fs_root := fs_root x\<rparr>) s3);
                  s5 = upd_task t (\<lambda>y. y\<lparr>uid := uid x, gid := gid x, umask := umask x\<rparr>) s4;
                  s6 = called (Files_clone t par) (called (Files_init t) s5)
              in do { s7 \<leftarrow> link_task t (Some par) s6; Some (sint new_pid, s7) }
          | (Some t, Some stack, None) \<Rightarrow> Some (-1, called (Kfree t) (called (Kfree_stack stack) s))
          | (Some t, None, _) \<Rightarrow> Some (-1, called (Kfree t) s)
          | (None, Some stack, _) \<Rightarrow> Some (-1, called (Kfree_stack stack) s)
          | (None, None, _) \<Rightarrow> Some (-1, s))"

text \<open>
  \<open>task_create_internal\<close>: the arguments are the results of \<open>kmalloc\<close> and \<open>mm_create\<close>, the registers that \<open>copy_thread\<close> builds, and
  the root directory of the file system.  A failing second allocation leaves the first one allocated.
\<close>

definition task_create_internal ::
  "nat option \<Rightarrow> u32 option \<Rightarrow> u8 list option \<Rightarrow> nat option \<Rightarrow> u32 \<Rightarrow> nat option \<Rightarrow> sched \<Rightarrow> (int \<times> sched) option" where
  "task_create_internal new_task new_stack program new_mm new_regs vfs_root_dentry s =
     (let par = task_current s
      in case (new_task, new_stack) of
           (Some t, Some stack) \<Rightarrow>
             let new_pid = last_pid s + 1;
                 s1 = upd_task t (\<lambda>y. y\<lparr>usage := 1, pid := new_pid, real_parent := par, parent := par, thread_regs := new_regs,
                        thread_sp0 := stack + THREAD_SIZE, wake_jiffies := 0, tstate := TASK_RUNNABLE, time_slice := TASK_TIMESLICE_TICKS,
                        task_mm := None\<rparr>) (s\<lparr>last_pid := new_pid\<rparr>)
             in if program \<noteq> None \<and> new_mm = None then Some (-1, called (Kfree t) (called (Kfree_stack stack) s1))
                else
                  let s2 = upd_task t (\<lambda>y. y\<lparr>task_mm := (if program \<noteq> None then new_mm else None),
                             exit_code := 0, exit_state := 0, exit_info0 := 0, exit_info1 := 0,
                             uid := (case par of None \<Rightarrow> 0 | Some p \<Rightarrow> uid (task s1 p)),
                             gid := (case par of None \<Rightarrow> 0 | Some p \<Rightarrow> gid (task s1 p)),
                             umask := (case par of None \<Rightarrow> 18 | Some p \<Rightarrow> umask (task s1 p))\<rparr>) s1;
                      s3 = set_task_comm t program s2;
                      pwd = (case par of None \<Rightarrow> vfs_root_dentry | Some p \<Rightarrow> fs_pwd (task s3 p));
                      root = (case par of None \<Rightarrow> vfs_root_dentry | Some p \<Rightarrow> fs_root (task s3 p));
                      s4 = inc_dentry root (inc_dentry pwd (upd_task t (\<lambda>y. y\<lparr>fs_pwd := pwd, fs_root := root\<rparr>) s3));
                      s5 = called (Files_init t) s4
                  in do { s6 \<leftarrow> link_task t par s5; Some (sint new_pid, s6) }
         | _ \<Rightarrow> Some (-1, s))"

text \<open>\<open>init_task\<close>: NULL from \<open>kmalloc\<close> is a panic.\<close>

definition init_task :: "nat option \<Rightarrow> u32 option \<Rightarrow> u32 \<Rightarrow> nat option \<Rightarrow> sched \<Rightarrow> sched option" where
  "init_task new_task new_stack new_regs vfs_root_dentry s =
     (case (new_task, new_stack) of
        (Some t, Some stack) \<Rightarrow>
          let s1 = upd_task t (\<lambda>y. y\<lparr>usage := 1, pid := 0, real_parent := None, parent := None, thread_regs := new_regs,
                     thread_sp0 := stack + THREAD_SIZE\<rparr>) s;
              s2 = upd_links (\<lambda>h. INIT_LIST_HEAD (Sibling t) (INIT_LIST_HEAD (Children t) (INIT_LIST_HEAD (Tasks t) h))) s1;
              s3 = upd_task t (\<lambda>y. y\<lparr>wake_jiffies := 0, tstate := TASK_RUNNABLE, time_slice := TASK_TIMESLICE_TICKS, task_mm := None,
                     exit_code := 0, exit_state := 0, exit_info0 := 0, exit_info1 := 0, comm := [],
                     fs_pwd := vfs_root_dentry, fs_root := vfs_root_dentry, uid := 0, gid := 0, umask := 18\<rparr>)
                     (init_waitqueue_head (Child_exit t) s2);
              s4 = called (Files_init t) (inc_dentry vfs_root_dentry (inc_dentry vfs_root_dentry s3));
              s5 = init_waitqueue_entry t (upd_task t (\<lambda>y. y\<lparr>waitq := None\<rparr>) s4)
          in do {
               s6 \<leftarrow> on_links (list_add (Tasks t) Task_list) (runqueue_init Task_list s5);
               let s7 = task_clear_need_resched (sched_set_current (Some t) s6);
               Some (s7\<lparr>tss_esp0 := thread_sp0 (task s7 t)\<rparr>)
             }
      | _ \<Rightarrow> None)"

subsection \<open>Completions\<close>

text \<open>
  The counter \<open>done\<close> of a completion whose queue is \<open>q\<close>.  The test of \<open>wait_for_completion\<close> is one step, with interrupts
  off; the call of \<open>wait_queue_block\<close> comes later, with interrupts on.
\<close>

definition complete :: "wait_queue_head \<Rightarrow> u32 \<times> sched \<Rightarrow> (u32 \<times> sched) option" where
  "complete q = (\<lambda>(d, s). map_option (\<lambda>s'. (d + 1, s')) (wake_up_all q s))"

definition complete_all :: "wait_queue_head \<Rightarrow> u32 \<times> sched \<Rightarrow> (u32 \<times> sched) option" where
  "complete_all q = (\<lambda>(d, s). map_option (\<lambda>s'. (d + 0x7FFFFFFF, s')) (wake_up_all q s))"

definition try_wait_for_completion :: "u32 \<Rightarrow> bool \<times> u32" where
  "try_wait_for_completion d = (if d = 0 then (False, d) else (True, d - 1))"

definition wait_test :: "u32 \<Rightarrow> (bool \<times> u32)" where
  "wait_test d = (if d \<noteq> 0 then (True, d - 1) else (False, d))"

definition wait_block :: "wait_queue_head \<Rightarrow> u32 \<times> sched \<Rightarrow> (u32 \<times> sched) option" where
  "wait_block q = (\<lambda>(d, s). map_option (\<lambda>s'. (d, s')) (wait_queue_block q s))"

subsection \<open>Selectors of updated states\<close>

lemma sched_simps [simp]:
  "lst (upd_task t f s) = lst s" "task (upd_task t f s) = (task s)(t := f (task s t))" "rq_tasks (upd_task t f s) = rq_tasks s"
  "cpu_current (upd_task t f s) = cpu_current s" "cpu_need_resched (upd_task t f s) = cpu_need_resched s"
  "kernel_preempt_count (upd_task t f s) = kernel_preempt_count s" "jiffies (upd_task t f s) = jiffies s"
  "lst (upd_links g s) = g (lst s)" "task (upd_links g s) = task s" "rq_tasks (upd_links g s) = rq_tasks s"
  "cpu_current (upd_links g s) = cpu_current s" "cpu_need_resched (upd_links g s) = cpu_need_resched s"
  "kernel_preempt_count (upd_links g s) = kernel_preempt_count s"
  by (simp_all add: upd_task_def upd_links_def)

lemma resched_simps [simp]:
  "lst (task_set_need_resched s) = lst s" "task (task_set_need_resched s) = task s" "rq_tasks (task_set_need_resched s) = rq_tasks s"
  "cpu_current (task_set_need_resched s) = cpu_current s" "cpu_need_resched (task_set_need_resched s)"
  "kernel_preempt_count (task_set_need_resched s) = kernel_preempt_count s"
  "lst (task_clear_need_resched s) = lst s" "task (task_clear_need_resched s) = task s" "rq_tasks (task_clear_need_resched s) = rq_tasks s"
  "cpu_current (task_clear_need_resched s) = cpu_current s" "kernel_preempt_count (task_clear_need_resched s) = kernel_preempt_count s"
  "lst (sched_set_current c s) = lst s" "task (sched_set_current c s) = task s" "rq_tasks (sched_set_current c s) = rq_tasks s"
  "cpu_current (sched_set_current c s) = c" "kernel_preempt_count (sched_set_current c s) = kernel_preempt_count s"
  by (simp_all add: task_set_need_resched_def task_clear_need_resched_def sched_set_current_def sched_sync_compat_globals_def)

subsection \<open>Walking the task list\<close>

definition run_list :: "sched \<Rightarrow> nat list \<Rightarrow> bool" where
  "run_list s ts \<longleftrightarrow> rq_tasks s = Some Task_list \<and> ring (lst s) Task_list (map Tasks ts)"

definition wake_sleeper :: "u32 \<Rightarrow> nat \<Rightarrow> sched \<Rightarrow> sched" where
  "wake_sleeper now t s =
     (if tstate (task s t) = TASK_SLEEPING \<and> sint (now - wake_jiffies (task s t)) \<ge> 0
      then upd_task t (\<lambda>x. x\<lparr>tstate := TASK_RUNNABLE\<rparr>) s else s)"

lemma wake_sleeper_keeps:
  "lst (wake_sleeper now t s) = lst s" "rq_tasks (wake_sleeper now t s) = rq_tasks s" "cpu_current (wake_sleeper now t s) = cpu_current s"
  "kernel_preempt_count (wake_sleeper now t s) = kernel_preempt_count s" "time_slice (task (wake_sleeper now t s) x) = time_slice (task s x)"
  "tstate (task s x) = TASK_RUNNABLE \<Longrightarrow> tstate (task (wake_sleeper now t s) x) = TASK_RUNNABLE"
  by (simp_all add: wake_sleeper_def)

lemma wake_sleepers_keeps:
  "lst (fold (wake_sleeper now) ts s) = lst s" "rq_tasks (fold (wake_sleeper now) ts s) = rq_tasks s"
  "cpu_current (fold (wake_sleeper now) ts s) = cpu_current s" "kernel_preempt_count (fold (wake_sleeper now) ts s) = kernel_preempt_count s"
  "time_slice (task (fold (wake_sleeper now) ts s) x) = time_slice (task s x)"
  "tstate (task s x) = TASK_RUNNABLE \<Longrightarrow> tstate (task (fold (wake_sleeper now) ts s) x) = TASK_RUNNABLE"
  by (induction ts arbitrary: s) (simp_all add: wake_sleeper_keeps)

lemma wake_sleepers_loop_fold:
  "ring (lst s) Task_list (map Tasks (us @ vs)) \<Longrightarrow>
   wake_sleepers_loop Task_list (after Task_list (map Tasks vs)) now s = Some (fold (wake_sleeper now) vs s)"
proof (induction vs arbitrary: us s)
  case Nil
  then show ?case by (subst wake_sleepers_loop.simps) simp
next
  case (Cons v vs)
  let ?s = "wake_sleeper now v s"
  have "nxt (lst s) (Tasks v) = Some (after Task_list (map Tasks vs))"
    using ring_next(1) [of "lst s" Task_list "map Tasks (us @ [v])" "map Tasks vs"] Cons.prems by simp
  moreover have "wake_sleepers_loop Task_list (after Task_list (map Tasks vs)) now ?s = Some (fold (wake_sleeper now) vs ?s)"
    using Cons.prems by (intro Cons.IH [of _ "us @ [v]"]) (simp add: wake_sleeper_keeps)
  ultimately show ?case
    by (subst wake_sleepers_loop.simps) (simp add: wake_sleeper_def [symmetric] wake_sleeper_keeps Let_def)
qed

lemma wake_sleepers_run:
  assumes "run_list s ts"
  shows "runqueue_wake_sleepers now s = Some (fold (wake_sleeper now) ts s)"
  using assms wake_sleepers_loop_fold [of s "[]" ts now] ring_next(1) [of "lst s" Task_list "[]" "map Tasks ts"]
    list_empty_ring [of "lst s" Task_list "map Tasks ts"]
  by (auto simp: runqueue_wake_sleepers_def run_list_def runqueue_empty_def)

subsection \<open>Choosing the next task\<close>

definition skip_next :: "node links \<Rightarrow> nat \<Rightarrow> node option" where
  "skip_next h t = do { n \<leftarrow> nxt h (Tasks t); (if n = Task_list then nxt h n else Some n) }"

fun skip_chain :: "node links \<Rightarrow> nat list \<Rightarrow> bool" where
  "skip_chain h (x # y # zs) = (skip_next h x = Some (Tasks y) \<and> skip_chain h (y # zs))"
| "skip_chain h _ = True"

lemma skip_chain_join:
  "skip_chain h (xs @ [x]) \<Longrightarrow> skip_chain h (y # ys) \<Longrightarrow> skip_next h x = Some (Tasks y) \<Longrightarrow> skip_chain h (xs @ x # y # ys)"
proof (induction xs)
  case (Cons z zs)
  then show ?case by (cases zs) auto
qed simp

lemma linked_skip_chain: "linked h (map Tasks xs) \<Longrightarrow> skip_chain h xs"
  by (induction h xs rule: skip_chain.induct) (auto simp: skip_next_def)

lemma linked_sublist: "linked h (as @ bs @ cs) \<Longrightarrow> linked h bs"
proof -
  assume a: "linked h (as @ bs @ cs)"
  show ?thesis
  proof (cases bs)
    case (Cons b bs')
    then have "linked h (b # bs' @ cs)" using a linked_split [of h as b "bs' @ cs"] by simp
    then show ?thesis using linked_split [of h "butlast bs" "last bs" cs] Cons by (metis append.assoc append_Cons append_Nil append_butlast_last_id list.distinct(1))
  qed simp
qed

lemma ring_skip_chain:
  assumes r: "ring h Task_list (map Tasks (us @ c # vs))"
  shows "skip_chain h (c # vs @ us @ [c])"
proof -
  have "linked h ((Task_list # map Tasks us) @ map Tasks (c # vs) @ [Task_list])"
    "linked h ([Task_list] @ map Tasks (us @ [c]) @ (map Tasks vs @ [Task_list]))"
    using r by (simp_all add: ring_def)
  from linked_sublist [OF this(1)] linked_sublist [OF this(2)]
  have l: "linked h (map Tasks (c # vs))" "linked h (map Tasks (us @ [c]))" .
  obtain xs x where x: "c # vs = xs @ [x]" by (metis append_butlast_last_id list.distinct(1))
  obtain y ys where y: "us @ [c] = y # ys" by (cases us) auto
  have "us @ c # vs = (us @ xs) @ [x]" using x by simp
  then have "ring h Task_list ((map Tasks (us @ xs) @ [Tasks x]) @ [])" using r by simp
  from ring_next(1) [OF this] have "nxt h (Tasks x) = Some Task_list" by (simp only: before_simps after_simps)
  moreover have "nxt h Task_list = Some (Tasks y)" using ring_next(1) [of h Task_list "[]" "map Tasks (us @ c # vs)"] r y by (cases us) auto
  ultimately have "skip_next h x = Some (Tasks y)" by (simp add: skip_next_def)
  then have "skip_chain h (xs @ x # y # ys)"
    using skip_chain_join linked_skip_chain [OF l(1)] linked_skip_chain [OF l(2)] x y by simp
  then show ?thesis using x y by (metis append.assoc append_Cons append_Nil)
qed

definition next_runnable :: "nat \<Rightarrow> nat list \<Rightarrow> sched \<Rightarrow> nat" where
  "next_runnable c ws s = (case find (\<lambda>t. tstate (task s t) = TASK_RUNNABLE) ws of None \<Rightarrow> c | Some t \<Rightarrow> t)"

lemma pick_loop_chain:
  assumes "skip_chain (lst s) (w # ws @ [c])" "c \<notin> set (w # ws)"
  shows "pick_loop Task_list c (Tasks w) s = Some (next_runnable c (w # ws) s)"
  using assms
proof (induction ws arbitrary: w)
  case Nil
  have "pick_loop Task_list c (Tasks c) s = Some c" by (subst pick_loop.simps) simp
  then show ?case using Nil by (subst pick_loop.simps) (auto simp: skip_next_def next_runnable_def split: bind_splits)
next
  case (Cons v ws)
  have "pick_loop Task_list c (Tasks v) s = Some (next_runnable c (v # ws) s)" using Cons by simp
  then show ?case using Cons.prems by (subst pick_loop.simps) (auto simp: skip_next_def next_runnable_def split: bind_splits)
qed

lemma pick_next_run:
  assumes "run_list s (us @ c # vs)"
  shows "runqueue_pick_next c s = Some (next_runnable c (vs @ us) s)"
proof -
  have r: "ring (lst s) Task_list (map Tasks (us @ c # vs))" "rq_tasks s = Some Task_list" using assms by (simp_all add: run_list_def)
  have ne: "\<not> runqueue_empty s" using list_empty_ring [OF r(1)] r(2) by (simp add: runqueue_empty_def)
  have ch: "skip_chain (lst s) (c # vs @ us @ [c])" by (rule ring_skip_chain [OF r(1)])
  have c: "c \<notin> set (vs @ us)" using ring_distinct [OF r(1)] by (auto simp: distinct_map)
  have e: "runqueue_pick_next c s = do { n \<leftarrow> skip_next (lst s) c; pick_loop Task_list c n s }"
    using ne r(2) by (simp add: runqueue_pick_next_def skip_next_def)
  show ?thesis
  proof (cases "vs @ us")
    case Nil
    have "pick_loop Task_list c (Tasks c) s = Some c" by (subst pick_loop.simps) simp
    then show ?thesis using e ch Nil by (simp add: next_runnable_def)
  next
    case (Cons w ws)
    then have k: "skip_chain (lst s) (c # w # ws @ [c])" using ch by (metis append.assoc append_Cons)
    then show ?thesis using e pick_loop_chain [of s w ws c] c Cons by simp
  qed
qed

subsection \<open>Round robin\<close>

text \<open>The tasks after \<open>c\<close> in the order of the list, and the number of tasks before \<open>t\<close> among them.\<close>

definition tasks_after :: "nat list \<Rightarrow> nat \<Rightarrow> nat list" where
  "tasks_after ts c = tl (dropWhile (\<lambda>x. x \<noteq> c) ts) @ takeWhile (\<lambda>x. x \<noteq> c) ts"

definition turn :: "nat list \<Rightarrow> nat \<Rightarrow> nat \<Rightarrow> nat" where
  "turn ts c t = length (takeWhile (\<lambda>x. x \<noteq> t) (tasks_after ts c))"

lemma tasks_after_split: "distinct (us @ c # vs) \<Longrightarrow> tasks_after (us @ c # vs) c = vs @ us"
proof -
  assume "distinct (us @ c # vs)"
  then have "c \<notin> set us" by simp
  then have "takeWhile (\<lambda>x. x \<noteq> c) (us @ c # vs) = us" "dropWhile (\<lambda>x. x \<noteq> c) (us @ c # vs) = c # vs" by (induction us) auto
  then show ?thesis by (simp add: tasks_after_def)
qed

lemma tasks_after_distinct: "distinct ts \<Longrightarrow> c \<in> set ts \<Longrightarrow> distinct (tasks_after ts c) \<and> set (tasks_after ts c) = set ts - {c}"
  using split_list [of c ts] tasks_after_split by force

lemma find_split: "find P xs = Some y \<Longrightarrow> \<exists>p q. xs = p @ y # q \<and> (\<forall>z \<in> set p. \<not> P z)"
proof (induction xs)
  case (Cons x xs)
  show ?case
  proof (cases "P x")
    case True
    then have "x # xs = [] @ y # xs" "\<forall>z \<in> set []. \<not> P z" using Cons.prems by auto
    then show ?thesis by blast
  next
    case False
    with Cons obtain p q where "xs = p @ y # q" "\<forall>z \<in> set p. \<not> P z" by auto
    with False have "x # xs = (x # p) @ y # q" "\<forall>z \<in> set (x # p). \<not> P z" by auto
    then show ?thesis by blast
  qed
qed simp

lemma tasks_after_next:
  assumes "distinct ts" "c \<in> set ts" "tasks_after ts c = p @ x # q"
  shows "tasks_after ts x = q @ c # p"
proof -
  obtain us vs where ts: "ts = us @ c # vs" using assms(2) split_list by fastforce
  have e: "vs @ us = p @ x # q" using assms(1,3) tasks_after_split [of us c vs] ts by simp
  then consider (1) w where "vs = p @ x # w" "q = w @ us" | (2) w where "us = w @ x # q" "p = vs @ w"
    by (auto simp: append_eq_append_conv2 append_eq_Cons_conv Cons_eq_append_conv)
  then show ?thesis
  proof cases
    case 1
    then have "ts = (us @ c # p) @ x # w" using ts by simp
    then show ?thesis using tasks_after_split [of "us @ c # p" x w] assms(1) 1 by simp
  next
    case 2
    then have "ts = w @ x # (q @ c # vs)" using ts by simp
    then show ?thesis using tasks_after_split [of w x "q @ c # vs"] assms(1) 2 by simp
  qed
qed

lemma turn_decreases:
  assumes "distinct ts" "c \<in> set ts" "tasks_after ts c = p @ x # q" "t \<in> set q"
  shows "turn ts x t < turn ts c t"
proof -
  have "distinct (p @ x # q)" using tasks_after_distinct [OF assms(1,2)] assms(3) by simp
  then have "t \<notin> set p" "t \<noteq> x" using assms(4) by auto
  then have "turn ts c t = length p + Suc (length (takeWhile (\<lambda>y. y \<noteq> t) q))"
    unfolding turn_def assms(3) by (subst takeWhile_append2) auto
  moreover have "turn ts x t = length (takeWhile (\<lambda>y. y \<noteq> t) q)"
    unfolding turn_def tasks_after_next [OF assms(1-3)] using assms(4) by (subst takeWhile_append1) auto
  ultimately show ?thesis by simp
qed

lemma turn_bound: "turn ts c t \<le> length ts"
proof -
  have "length (tasks_after ts c) \<le> length (dropWhile (\<lambda>x. x \<noteq> c) ts) + length (takeWhile (\<lambda>x. x \<noteq> c) ts)"
    by (simp add: tasks_after_def)
  also have "\<dots> = length ts" by (metis add.commute length_append takeWhile_dropWhile_id)
  finally show ?thesis unfolding turn_def using length_takeWhile_le le_trans by blast
qed

text \<open>The next task comes no later than a given runnable task.\<close>

lemma next_runnable_turn:
  assumes "distinct ts" "c \<in> set ts" "t \<in> set ts" "t \<noteq> c" "tstate (task s t) = TASK_RUNNABLE"
  defines "x \<equiv> next_runnable c (tasks_after ts c) s"
  shows "x \<in> set ts" "x \<noteq> c" "x = t \<or> turn ts x t < turn ts c t"
proof -
  note d = tasks_after_distinct [OF assms(1,2)]
  have tin: "t \<in> set (tasks_after ts c)" using assms(3,4) d by auto
  then obtain y where y: "find (\<lambda>t. tstate (task s t) = TASK_RUNNABLE) (tasks_after ts c) = Some y"
    using assms(5) by (cases "find (\<lambda>t. tstate (task s t) = TASK_RUNNABLE) (tasks_after ts c)") (auto simp: find_None_iff)
  then have x: "x = y" by (simp add: x_def next_runnable_def)
  obtain p q where pq: "tasks_after ts c = p @ y # q" "\<forall>z \<in> set p. tstate (task s z) \<noteq> TASK_RUNNABLE" using find_split [OF y] by blast
  have "y \<in> set (tasks_after ts c)" by (simp add: pq(1))
  then show "x \<in> set ts" "x \<noteq> c" using d x by auto
  have "t \<in> set (y # q)" using tin pq assms(5) by auto
  then show "x = t \<or> turn ts x t < turn ts c t" using turn_decreases [OF assms(1,2) pq(1)] x by auto
qed

subsection \<open>Timer interrupts\<close>

definition sched_ok :: "sched \<Rightarrow> nat list \<Rightarrow> bool" where
  "sched_ok s ts \<longleftrightarrow> run_list s ts \<and> (\<exists>c \<in> set ts. cpu_current s = Some c) \<and> kernel_preempt_count s = 0 \<and>
     (\<forall>t. time_slice (task s t) \<le> TASK_TIMESLICE_TICKS)"

lemma run_list_distinct: "run_list s ts \<Longrightarrow> distinct ts"
  using ring_distinct [of "lst s" Task_list "map Tasks ts"] by (simp add: run_list_def distinct_map)

lemma run_list_cong: "run_list s ts \<Longrightarrow> lst s' = lst s \<Longrightarrow> rq_tasks s' = rq_tasks s \<Longrightarrow> run_list s' ts"
  by (simp add: run_list_def)

lemma run_list_not_empty: "run_list s ts \<Longrightarrow> c \<in> set ts \<Longrightarrow> \<not> runqueue_empty s"
  using list_empty_ring [of "lst s" Task_list "map Tasks ts"] by (auto simp: run_list_def runqueue_empty_def)

lemma tick_run:
  assumes r: "run_list s ts" "c \<in> set ts" "cpu_current s = Some c"
  shows "\<exists>s1. task_tick (time_tick s) = Some s1 \<and> run_list s1 ts \<and> cpu_current s1 = Some c \<and> kernel_preempt_count s1 = kernel_preempt_count s \<and>
    (\<forall>x. tstate (task s x) = TASK_RUNNABLE \<longrightarrow> tstate (task s1 x) = TASK_RUNNABLE) \<and>
    (\<forall>x. time_slice (task s1 x) \<le> max (time_slice (task s x)) 0) \<and>
    (cpu_need_resched s1 \<or> tstate (task s1 c) = TASK_RUNNABLE \<and> 0 < time_slice (task s1 c) \<and> time_slice (task s1 c) < time_slice (task s c))"
proof -
  let ?s0 = "time_tick s"
  define s1 where "s1 = fold (wake_sleeper (jiffies ?s0)) ts ?s0"
  have s0: "run_list ?s0 ts" "cpu_current ?s0 = Some c" "task ?s0 = task s" "kernel_preempt_count ?s0 = kernel_preempt_count s"
    using r by (simp_all add: run_list_def time_tick_def)
  note w = wake_sleepers_keeps [where now = "jiffies ?s0" and ts = ts and s = ?s0, folded s1_def]
    and ws = wake_sleepers_run [OF s0(1), of "jiffies ?s0", folded s1_def]
  have ne: "\<not> runqueue_empty ?s0" by (rule run_list_not_empty [OF s0(1) r(2)])
  have r1: "run_list s1 ts" using s0(1) w(1,2) by (rule run_list_cong)
  let ?s2 = "upd_task c (\<lambda>x. x\<lparr>time_slice := time_slice x - 1\<rparr>) s1"
  define s' where "s' = (if tstate (task s1 c) \<noteq> TASK_RUNNABLE then task_set_need_resched s1
    else let s2 = (if time_slice (task s1 c) > 0 then ?s2 else s1) in if time_slice (task s2 c) \<le> 0 then task_set_need_resched s2 else s2)"
  have "task_tick ?s0 = Some s'" using ne ws w(3) s0(2) by (simp add: task_tick_def s'_def Let_def)
  moreover have "run_list s' ts" using run_list_cong [OF r1, of s'] by (auto simp: s'_def Let_def)
  moreover have "cpu_current s' = Some c" "kernel_preempt_count s' = kernel_preempt_count s" using w(3,4) s0 by (simp_all add: s'_def Let_def)
  moreover have "tstate (task s x) = TASK_RUNNABLE \<longrightarrow> tstate (task s' x) = TASK_RUNNABLE" for x using w(6) [of x] s0(3) by (simp add: s'_def Let_def)
  moreover have "time_slice (task s' x) \<le> max (time_slice (task s x)) 0" for x using w(5) [of x] s0(3) by (auto simp: s'_def Let_def)
  moreover have "cpu_need_resched s' \<or> tstate (task s' c) = TASK_RUNNABLE \<and> 0 < time_slice (task s' c) \<and> time_slice (task s' c) < time_slice (task s c)"
    using w(5) [of c] s0(3) by (simp add: s'_def Let_def)
  ultimately show ?thesis by blast
qed

lemma next_runnable_cong: "(\<And>t. tstate (task s' t) = tstate (task s t)) \<Longrightarrow> next_runnable c ws s' = next_runnable c ws s"
  by (simp add: next_runnable_def)

lemma schedule_run:
  assumes r: "run_list s ts" "c \<in> set ts" "cpu_current s = Some c" and n: "cpu_need_resched s"
  defines "x \<equiv> next_runnable c (tasks_after ts c) s"
  shows "\<exists>r s'. task_schedule regs s = Some (r, s') \<and> run_list s' ts \<and> cpu_current s' = Some x \<and> kernel_preempt_count s' = kernel_preempt_count s \<and>
    (\<forall>y. tstate (task s' y) = tstate (task s y)) \<and>
    (\<forall>y. time_slice (task s' y) = (if y = x \<and> time_slice (task s y) \<le> 0 then TASK_TIMESLICE_TICKS else time_slice (task s y)))"
proof -
  obtain us vs where ts: "ts = us @ c # vs" using r(2) split_list by fastforce
  have af: "tasks_after ts c = vs @ us" using tasks_after_split [of us c vs] run_list_distinct [OF r(1)] ts by simp
  let ?s2 = "task_clear_need_resched (upd_task c (\<lambda>x. x\<lparr>thread_regs := regs\<rparr>) s)"
  have "run_list ?s2 (us @ c # vs)" using run_list_cong [OF r(1), of ?s2] ts by simp
  from pick_next_run [OF this] have p: "runqueue_pick_next c ?s2 = Some x"
    using af next_runnable_cong [of ?s2 s c "vs @ us"] by (simp add: x_def)
  define s4 where "s4 = sched_set_current (Some x) (if x \<noteq> c then ?s2\<lparr>sched_switch_count := sched_switch_count ?s2 + 1\<rparr> else ?s2)"
  define pgd where "pgd = (case task_mm (task s4 x) of None \<Rightarrow> 0 | Some mm \<Rightarrow> mm_pgd s4 mm)"
  define s5 where "s5 = (if pgd \<noteq> 0 then (if pgd \<noteq> pgd_current s4 then load_pgd pgd s4 else s4)
    else (if pgd_kernel s4 \<noteq> 0 \<and> pgd_kernel s4 \<noteq> pgd_current s4 then load_pgd (pgd_kernel s4) s4 else s4))"
  define s6 where "s6 = s5\<lparr>tss_esp0 := thread_sp0 (task s5 x)\<rparr>"
  define s7 where "s7 = (if time_slice (task s6 x) \<le> 0 then upd_task x (\<lambda>x. x\<lparr>time_slice := TASK_TIMESLICE_TICKS\<rparr>) s6 else s6)"
  have "task_schedule regs s = Some (thread_regs (task s7 x), s7)"
    unfolding task_schedule_def r(3) option.case Let_def task_need_resched_def using n p
    by (simp only: sched_simps not_True_eq_False if_False bind.bind_lunit s4_def [symmetric] pgd_def [symmetric] s5_def [symmetric] s6_def [symmetric] s7_def [symmetric])
  moreover have f6: "lst s6 = lst s" "rq_tasks s6 = rq_tasks s" "cpu_current s6 = Some x" "kernel_preempt_count s6 = kernel_preempt_count s"
      "task s6 = (task s)(c := (task s c)\<lparr>thread_regs := regs\<rparr>)"
    by (simp_all add: s6_def s5_def s4_def load_pgd_def)
  then have "run_list s7 ts" by (intro run_list_cong [OF r(1)]) (simp_all add: s7_def)
  moreover have "cpu_current s7 = Some x" "kernel_preempt_count s7 = kernel_preempt_count s" "tstate (task s7 y) = tstate (task s y)"
    "time_slice (task s7 y) = (if y = x \<and> time_slice (task s y) \<le> 0 then TASK_TIMESLICE_TICKS else time_slice (task s y))" for y
    using f6 by (auto simp: s7_def)
  ultimately show ?thesis by blast
qed

text \<open>
  The time until \<open>t\<close> runs: four interrupts for every task before it, and what is left of the time slice of the current task.
\<close>

definition potential :: "nat list \<Rightarrow> nat \<Rightarrow> sched \<Rightarrow> nat" where
  "potential ts t s = (case cpu_current s of None \<Rightarrow> 0 | Some c \<Rightarrow> 4 * turn ts c t + nat (time_slice (task s c)))"

lemma irq_progress:
  assumes ok: "sched_ok s ts" and t: "t \<in> set ts" "tstate (task s t) = TASK_RUNNABLE" "cpu_current s \<noteq> Some t"
  shows "\<exists>r s'. irq_handler regs s = Some (r, s') \<and> sched_ok s' ts \<and> tstate (task s' t) = TASK_RUNNABLE \<and>
    (cpu_current s' = Some t \<or> potential ts t s' < potential ts t s)"
proof -
  obtain c where c: "c \<in> set ts" "cpu_current s = Some c" "run_list s ts" "kernel_preempt_count s = 0"
      "\<And>x. time_slice (task s x) \<le> TASK_TIMESLICE_TICKS"
    using ok by (auto simp: sched_ok_def)
  obtain s1 where s1: "task_tick (time_tick s) = Some s1" "run_list s1 ts" "cpu_current s1 = Some c" "kernel_preempt_count s1 = 0"
      "\<And>x. tstate (task s x) = TASK_RUNNABLE \<Longrightarrow> tstate (task s1 x) = TASK_RUNNABLE"
      "\<And>x. time_slice (task s1 x) \<le> max (time_slice (task s x)) 0"
      "cpu_need_resched s1 \<or> tstate (task s1 c) = TASK_RUNNABLE \<and> 0 < time_slice (task s1 c) \<and> time_slice (task s1 c) < time_slice (task s c)"
    using tick_run [OF c(3,1,2)] c(4) by auto
  have sl: "time_slice (task s1 x) \<le> TASK_TIMESLICE_TICKS" for x using s1(6) [of x] c(5) [of x] by (simp add: TASK_TIMESLICE_TICKS_def)
  show ?thesis
  proof (cases "cpu_need_resched s1")
    case False
    then have "irq_handler regs s = Some (regs, s1)"
      using s1(1,3,7) by (simp add: irq_handler_def task_should_resched_def task_need_resched_def)
    moreover have "sched_ok s1 ts" using s1(2,3,4) c(1) sl by (auto simp: sched_ok_def)
    moreover have "potential ts t s1 < potential ts t s" using False s1(3,7) c(2) by (simp add: potential_def)
    ultimately show ?thesis using s1(5) t(2) by blast
  next
    case True
    define x where "x = next_runnable c (tasks_after ts c) s1"
    have tc: "t \<noteq> c" using t(3) c(2) by auto
    note nx = next_runnable_turn [OF run_list_distinct [OF c(3)] c(1) t(1) tc s1(5) [OF t(2)], folded x_def]
    obtain r s' where s': "task_schedule regs s1 = Some (r, s')" "run_list s' ts" "cpu_current s' = Some x" "kernel_preempt_count s' = 0"
        "\<And>y. tstate (task s' y) = tstate (task s1 y)"
        "\<And>y. time_slice (task s' y) = (if y = x \<and> time_slice (task s1 y) \<le> 0 then TASK_TIMESLICE_TICKS else time_slice (task s1 y))"
      using schedule_run [OF s1(2) c(1) s1(3) True, folded x_def, of regs] s1(4) by auto
    have "irq_handler regs s = Some (r, s')"
      using s1(1,3,4) True s'(1) by (simp add: irq_handler_def task_should_resched_def task_need_resched_def preempt_count_def)
    moreover have sl': "time_slice (task s' y) \<le> TASK_TIMESLICE_TICKS" for y using s'(6) [of y] sl [of y] by simp
    then have "sched_ok s' ts" using s'(2,3,4) nx(1) by (auto simp: sched_ok_def)
    moreover have "x = t \<or> potential ts t s' < potential ts t s"
      using nx(3) s'(3) c(2) sl' [of x] by (auto simp: potential_def TASK_TIMESLICE_TICKS_def)
    ultimately show ?thesis using s'(3,5) s1(5) t(2) by auto
  qed
qed

text \<open>
  Between two interrupts, other code may change the state in any way that keeps the task list and the current task, does not
  prolong the time slice of the current task, and leaves \<open>t\<close> runnable.
\<close>

definition between_ticks :: "nat \<Rightarrow> sched \<Rightarrow> sched \<Rightarrow> bool" where
  "between_ticks t s s' \<longleftrightarrow> lst s' = lst s \<and> rq_tasks s' = rq_tasks s \<and> cpu_current s' = cpu_current s \<and>
     kernel_preempt_count s' = kernel_preempt_count s \<and>
     (\<forall>x. time_slice (task s' x) \<le> max (time_slice (task s x)) TASK_TIMESLICE_TICKS) \<and>
     (\<forall>c. cpu_current s = Some c \<longrightarrow> time_slice (task s' c) \<le> time_slice (task s c)) \<and>
     (tstate (task s t) = TASK_RUNNABLE \<longrightarrow> tstate (task s' t) = TASK_RUNNABLE)"

fun ticks :: "((sched \<Rightarrow> sched) \<times> u32) list \<Rightarrow> sched \<Rightarrow> sched option" where
  "ticks [] s = Some s"
| "ticks ((other, regs) # es) s = do { (r, s1) \<leftarrow> irq_handler regs (other s); ticks es s1 }"

lemma between_ticks_ok:
  assumes "sched_ok s ts" "between_ticks t s s'"
  shows "sched_ok s' ts" "potential ts t s' \<le> potential ts t s"
proof -
  have "time_slice (task s' x) \<le> TASK_TIMESLICE_TICKS" for x
  proof -
    have "time_slice (task s' x) \<le> max (time_slice (task s x)) TASK_TIMESLICE_TICKS" using assms(2) by (simp add: between_ticks_def)
    moreover have "time_slice (task s x) \<le> TASK_TIMESLICE_TICKS" using assms(1) by (simp add: sched_ok_def)
    ultimately show ?thesis by simp
  qed
  then show "sched_ok s' ts" using assms by (auto simp: sched_ok_def between_ticks_def intro: run_list_cong)
  show "potential ts t s' \<le> potential ts t s" using assms by (auto simp: potential_def between_ticks_def split: option.splits intro: nat_mono)
qed

lemma ticks_reach:
  assumes "sched_ok s ts" "t \<in> set ts" "tstate (task s t) = TASK_RUNNABLE"
    and "\<forall>e \<in> set es. \<forall>s. between_ticks t s (fst e s)" "potential ts t s < length es"
  shows "\<exists>k \<le> Suc (potential ts t s). \<exists>s'. ticks (take k es) s = Some s' \<and> cpu_current s' = Some t"
  using assms
proof (induction es arbitrary: s)
  case Nil
  then show ?case by simp
next
  case (Cons e es)
  show ?case
  proof (cases "cpu_current s = Some t")
    case True
    then show ?thesis by (intro exI [of _ 0]) simp
  next
    case False
    obtain other regs where e: "e = (other, regs)" by (cases e)
    have bt: "between_ticks t s (other s)" using Cons.prems(4) e by simp
    note b = between_ticks_ok [OF Cons.prems(1) bt]
    have "tstate (task (other s) t) = TASK_RUNNABLE" "cpu_current (other s) \<noteq> Some t" using bt Cons.prems(3) False by (simp_all add: between_ticks_def)
    from irq_progress [OF b(1) Cons.prems(2) this] obtain r s1 where s1: "irq_handler regs (other s) = Some (r, s1)" "sched_ok s1 ts"
      "tstate (task s1 t) = TASK_RUNNABLE" "cpu_current s1 = Some t \<or> potential ts t s1 < potential ts t (other s)" by blast
    show ?thesis
    proof (cases "cpu_current s1 = Some t")
      case True
      then show ?thesis using s1(1) e by (intro exI [of _ 1]) simp
    next
      case False
      then have less: "potential ts t s1 < potential ts t s" using s1(4) b(2) by simp
      with Cons.IH [OF s1(2) Cons.prems(2) s1(3)] Cons.prems(4,5)
      obtain k s' where "k \<le> Suc (potential ts t s1)" "ticks (take k es) s1 = Some s'" "cpu_current s' = Some t" by auto
      then show ?thesis using less s1(1) e by (intro exI [of _ "Suc k"]) simp
    qed
  qed
qed


subsection \<open>Waking the waiters of a queue\<close>

definition wake_task :: "task_struct \<Rightarrow> task_struct" where
  "wake_task x =
     (if tstate x = TASK_SLEEPING \<or> tstate x = TASK_BLOCKED
      then x\<lparr>waitq := None, wake_jiffies := (if tstate x = TASK_SLEEPING then 0 else wake_jiffies x), tstate := TASK_RUNNABLE,
             time_slice := (if time_slice x \<le> 0 then TASK_TIMESLICE_TICKS else time_slice x)\<rparr>
      else x\<lparr>waitq := None\<rparr>)"

lemma default_wake_effect:
  assumes "wait_private (task s w) = Some w"
  shows "task (snd (default_wake_function w s)) = (task s)(w := wake_task (task s w))" "lst (snd (default_wake_function w s)) = lst s"
    "fst (default_wake_function w s) \<longleftrightarrow> tstate (task s w) = TASK_SLEEPING \<or> tstate (task s w) = TASK_BLOCKED"
    "cpu_current (snd (default_wake_function w s)) = cpu_current s"
  using assms by (auto simp: default_wake_function_def wake_up_process_def wake_task_def Let_def)

lemma ring_list_nodes: "ring h l (map Entry ws) \<Longrightarrow> distinct ws"
  using ring_distinct [of h l "map Entry ws"] by (simp add: distinct_map)

lemma take_waiters_run:
  assumes "ring (lst s) (Queue q) (map Entry ws)" "ring (lst s) Wake_list (map Entry as)" "set ws \<inter> set as = {}"
  shows "\<exists>h. take_waiters q s = Some (s\<lparr>lst := h\<rparr>) \<and> ring h (Queue q) [] \<and> ring h Wake_list (map Entry (as @ ws)) \<and>
    (\<forall>x. x \<notin> set (Queue q # Wake_list # map Entry (as @ ws)) \<longrightarrow> nxt h x = nxt (lst s) x \<and> prv h x = prv (lst s) x)"
  using assms
proof (induction ws arbitrary: s as)
  case Nil
  then show ?case using list_empty_ring [OF Nil(1)] by (subst take_waiters.simps) (auto intro!: exI [of _ "lst s"])
next
  case (Cons w ws)
  let ?h1 = "list_del_init (Entry w) (lst s)"
  have r: "ring (lst s) (Queue q) ([] @ Entry w # map Entry ws)" using Cons.prems(1) by simp
  note d = list_del_init_ring [OF r]
  have nw: "w \<notin> set as" "w \<notin> set ws" using Cons.prems(3) ring_list_nodes [OF Cons.prems(1)] by auto
  have "ring ?h1 Wake_list (map Entry as)"
  proof (rule ring_frame [OF Cons.prems(2)])
    fix x assume "x \<in> set (Wake_list # map Entry as)"
    then have "x \<notin> set (Queue q # [] @ Entry w # map Entry ws)" using Cons.prems(3) by auto
    then show "nxt ?h1 x = nxt (lst s) x \<and> prv ?h1 x = prv (lst s) x" by (rule d(4))
  qed
  from list_add_tail_ring [OF this, of "Entry w"] nw obtain h2 where h2: "list_add_tail (Entry w) Wake_list ?h1 = Some h2"
    "ring h2 Wake_list (map Entry as @ [Entry w])"
    "\<forall>x. x \<notin> set (Wake_list # Entry w # map Entry as) \<longrightarrow> nxt h2 x = nxt ?h1 x \<and> prv h2 x = prv ?h1 x" by auto
  have q2: "ring h2 (Queue q) (map Entry ws)" 
  proof (rule ring_frame)
    show "ring ?h1 (Queue q) (map Entry ws)" using d(1) by simp
    show "nxt h2 x = nxt ?h1 x \<and> prv h2 x = prv ?h1 x" if "x \<in> set (Queue q # map Entry ws)" for x
      using that h2(3) nw Cons.prems(3) by auto
  qed
  have ne: "\<not> list_empty (Queue q) (lst s)" "nxt (lst s) (Queue q) = Some (Entry w)"
    using list_empty_ring [OF Cons.prems(1)] ring_next(1) [of "lst s" "Queue q" "[]" "map Entry (w # ws)"] Cons.prems(1) by simp_all
  let ?s2 = "s\<lparr>lst := h2\<rparr>"
  have step: "take_waiters q s = take_waiters q ?s2"
    using ne h2(1) by (subst take_waiters.simps) (simp add: on_links_def upd_links_def)
  have "ring (lst ?s2) (Queue q) (map Entry ws)" "ring (lst ?s2) Wake_list (map Entry (as @ [w]))" "set ws \<inter> set (as @ [w]) = {}"
    using q2 h2(2) nw Cons.prems(3) by auto
  from Cons.IH [OF this] obtain h where h: "take_waiters q ?s2 = Some (s\<lparr>lst := h\<rparr>)" "ring h (Queue q) []" "ring h Wake_list (map Entry (as @ w # ws))"
    "\<forall>x. x \<notin> set (Queue q # Wake_list # map Entry (as @ w # ws)) \<longrightarrow> nxt h x = nxt h2 x \<and> prv h x = prv h2 x" by auto
  have "\<forall>x. x \<notin> set (Queue q # Wake_list # map Entry (as @ w # ws)) \<longrightarrow> nxt h x = nxt (lst s) x \<and> prv h x = prv (lst s) x"
    using h(4) h2(3) d(4) by simp
  then show ?case using step h by auto
qed

text \<open>The loop over the local list, when it goes through to the end.\<close>

lemma wake_loop_all:
  assumes "ring (lst s) Wake_list (map Entry ws)" "nr \<le> 0" "nxt (lst s) (after Wake_list (map Entry ws)) = Some n"
    and "\<forall>w \<in> set ws. wait_private (task s w) = Some w \<and> wait_func (task s w)"
  shows "\<exists>woke' s'. wake_loop (after Wake_list (map Entry ws)) n nr woke s = Some (woke', s') \<and>
    task s' = (\<lambda>x. if x \<in> set ws then wake_task (task s x) else task s x) \<and> cpu_current s' = cpu_current s \<and>
    (woke' \<noteq> 0 \<longleftrightarrow> woke \<noteq> 0 \<or> (\<exists>w \<in> set ws. tstate (task s w) = TASK_SLEEPING \<or> tstate (task s w) = TASK_BLOCKED)) \<and>
    (\<forall>w \<in> set ws. ring (lst s') (Entry w) []) \<and>
    (\<forall>x. x \<notin> set (Wake_list # map Entry ws) \<longrightarrow> nxt (lst s') x = nxt (lst s) x \<and> prv (lst s') x = prv (lst s) x)"
  using assms
proof (induction ws arbitrary: s n woke)
  case Nil
  then show ?case by (subst wake_loop.simps) simp
next
  case (Cons w ws)
  have r: "ring (lst s) Wake_list ([] @ Entry w # map Entry ws)" using Cons.prems(1) by simp
  note d = list_del_init_ring [OF r]
  let ?s1 = "upd_links (list_del_init (Entry w)) s"
  define s2 where "s2 = snd (default_wake_function w ?s1)"
  have wp: "wait_private (task ?s1 w) = Some w" "wait_func (task ?s1 w)" using Cons.prems(4) by simp_all
  note e = default_wake_effect [OF wp(1), folded s2_def]
  have dw: "distinct (w # ws)" using ring_list_nodes [OF Cons.prems(1)] .
  have n: "n = after Wake_list (map Entry ws)" using ring_del_between(2) [OF r] Cons.prems(3) by simp
  obtain n' where n': "nxt (lst s2) (after Wake_list (map Entry ws)) = Some n'"
    using ring_next(1) [of "lst s2" Wake_list "[]" "map Entry ws"] ring_next(1) [of "lst s2" Wake_list "[Entry (hd ws)]" "map Entry (tl ws)"] d(1) e(2)
    by (cases ws) (auto simp: before_def)
  define woke1 where "woke1 = (if fst (default_wake_function w ?s1) then 1 else woke)"
  have r2: "ring (lst s2) Wake_list (map Entry ws)" "\<forall>v \<in> set ws. wait_private (task s2 v) = Some v \<and> wait_func (task s2 v)"
    using d(1) e(1,2) Cons.prems(4) dw by auto
  from Cons.IH [OF r2(1) Cons.prems(2) n' r2(2), of woke1]
  obtain woke' s' where s': "wake_loop (after Wake_list (map Entry ws)) n' nr woke1 s2 = Some (woke', s')"
    "task s' = (\<lambda>x. if x \<in> set ws then wake_task (task s2 x) else task s2 x)" "cpu_current s' = cpu_current s2"
    "woke' \<noteq> 0 \<longleftrightarrow> woke1 \<noteq> 0 \<or> (\<exists>v \<in> set ws. tstate (task s2 v) = TASK_SLEEPING \<or> tstate (task s2 v) = TASK_BLOCKED)"
    "\<forall>v \<in> set ws. ring (lst s') (Entry v) []"
    "\<forall>x. x \<notin> set (Wake_list # map Entry ws) \<longrightarrow> nxt (lst s') x = nxt (lst s2) x \<and> prv (lst s') x = prv (lst s2) x" by blast
  have "wake_loop (after Wake_list (map Entry (w # ws))) n nr woke s = Some (woke', s')"
    using s'(1) wp(2) Cons.prems(2) n' n by (subst wake_loop.simps) (simp add: s2_def [symmetric] woke1_def [symmetric] split_beta Let_def)
  moreover have "task s' = (\<lambda>x. if x \<in> set (w # ws) then wake_task (task s x) else task s x)" using s'(2) e(1) dw by (auto simp: fun_eq_iff)
  moreover have "ring (lst s') (Entry w) []" 
  proof (rule ring_frame)
    show "ring (lst s2) (Entry w) []" using d(2) e(2) by simp
    show "nxt (lst s') x = nxt (lst s2) x \<and> prv (lst s') x = prv (lst s2) x" if "x \<in> set [Entry w]" for x using that s'(6) dw by auto
  qed
  moreover have "\<forall>x. x \<notin> set (Wake_list # map Entry (w # ws)) \<longrightarrow> nxt (lst s') x = nxt (lst s) x \<and> prv (lst s') x = prv (lst s) x"
    using s'(6) d(4) e(2) by simp
  moreover have "woke' \<noteq> 0 \<longleftrightarrow> woke \<noteq> 0 \<or> (\<exists>v \<in> set (w # ws). tstate (task s v) = TASK_SLEEPING \<or> tstate (task s v) = TASK_BLOCKED)"
    using s'(4) e(1,3) dw by (auto simp: woke1_def)
  ultimately show ?case using s'(3,5) e(4) by auto
qed

text \<open>The tasks \<open>ws\<close> are blocked on the queue \<open>q\<close>, in the order of its list.\<close>

definition waiting :: "sched \<Rightarrow> wait_queue_head \<Rightarrow> nat list \<Rightarrow> bool" where
  "waiting s q ws \<longleftrightarrow> ring (lst s) (Queue q) (map Entry ws) \<and>
     (\<forall>w \<in> set ws. wait_private (task s w) = Some w \<and> wait_func (task s w) \<and> tstate (task s w) = TASK_BLOCKED \<and> waitq (task s w) = Some q)"

lemma taken_waiters:
  assumes "waiting s q ws"
  obtains h where "take_waiters q (upd_links (INIT_LIST_HEAD Wake_list) s) = Some (s\<lparr>lst := h\<rparr>)" "ring h (Queue q) []"
    "ring h Wake_list (map Entry ws)"
    "\<And>x. x \<notin> set (Queue q # Wake_list # map Entry ws) \<Longrightarrow> nxt h x = nxt (lst s) x \<and> prv h x = prv (lst s) x"
proof -
  let ?s = "upd_links (INIT_LIST_HEAD Wake_list) s"
  have q: "ring (lst s) (Queue q) (map Entry ws)" using assms by (simp add: waiting_def)
  have "ring (lst ?s) (Queue q) (map Entry ws)" by (rule ring_frame [OF q]) (auto simp: INIT_LIST_HEAD_def)
  moreover have "ring (lst ?s) Wake_list (map Entry [])" by (simp add: ring_def INIT_LIST_HEAD_def)
  ultimately obtain h where h: "take_waiters q ?s = Some (?s\<lparr>lst := h\<rparr>)" "ring h (Queue q) []" "ring h Wake_list (map Entry ws)"
    "\<forall>x. x \<notin> set (Queue q # Wake_list # map Entry ws) \<longrightarrow> nxt h x = nxt (lst ?s) x \<and> prv h x = prv (lst ?s) x"
    using take_waiters_run [of ?s q ws "[]"] by auto
  show thesis
  proof (rule that [of h])
    show "take_waiters q ?s = Some (s\<lparr>lst := h\<rparr>)" using h(1) by (simp add: upd_links_def)
    show "nxt h x = nxt (lst s) x \<and> prv h x = prv (lst s) x" if "x \<notin> set (Queue q # Wake_list # map Entry ws)" for x
      using that h(4) by (simp add: INIT_LIST_HEAD_def)
  qed (rule h(2,3))+
qed

text \<open>
  C33: \<open>wake_up_all\<close> wakes every waiter.  When the tasks \<open>ws\<close> are blocked on a queue, the call returns, the queue is
  empty, each of them is runnable with a positive time slice and attached to no queue, its wait entry is free for the next
  queue, no other task changes, and a reschedule is requested if there was a waiter.
\<close>
theorem wake_up_all_spec:
  assumes "waiting s q ws"
  shows "\<exists>s'. wake_up_all q s = Some s' \<and> waiting s' q [] \<and>
    (\<forall>w \<in> set ws. tstate (task s' w) = TASK_RUNNABLE \<and> 0 < time_slice (task s' w) \<and> waitq (task s' w) = None \<and> ring (lst s') (Entry w) []) \<and>
    (\<forall>x. x \<notin> set ws \<longrightarrow> task s' x = task s x) \<and> (ws \<noteq> [] \<longrightarrow> cpu_need_resched s')"
proof -
  obtain h where h: "take_waiters q (upd_links (INIT_LIST_HEAD Wake_list) s) = Some (s\<lparr>lst := h\<rparr>)" "ring h (Queue q) []"
      "ring h Wake_list (map Entry ws)"
    using taken_waiters [OF assms] by metis
  let ?s1 = "s\<lparr>lst := h\<rparr>"
  have w: "\<forall>w \<in> set ws. wait_private (task ?s1 w) = Some w \<and> wait_func (task ?s1 w)" "\<forall>w \<in> set ws. tstate (task s w) = TASK_BLOCKED"
    using assms by (simp_all add: waiting_def)
  have p: "nxt (lst ?s1) Wake_list = Some (after Wake_list (map Entry ws))" using ring_next(1) [of h Wake_list "[]" "map Entry ws"] h(3) by simp
  obtain n where n: "nxt (lst ?s1) (after Wake_list (map Entry ws)) = Some n"
    using h(3) ring_next(1) [of h Wake_list "[Entry (hd ws)]" "map Entry (tl ws)"] ring_next(1) [of h Wake_list "[]" "map Entry ws"] by (cases ws) (auto simp: before_def)
  have r: "ring (lst ?s1) Wake_list (map Entry ws)" using h(3) by simp
  obtain woke' s' where s': "wake_loop (after Wake_list (map Entry ws)) n 0 0 ?s1 = Some (woke', s')"
    "task s' = (\<lambda>x. if x \<in> set ws then wake_task (task s x) else task s x)"
    "woke' \<noteq> 0 \<longleftrightarrow> (\<exists>w \<in> set ws. tstate (task s w) = TASK_SLEEPING \<or> tstate (task s w) = TASK_BLOCKED)"
    "\<forall>w \<in> set ws. ring (lst s') (Entry w) []"
    "\<forall>x. x \<notin> set (Wake_list # map Entry ws) \<longrightarrow> nxt (lst s') x = nxt h x \<and> prv (lst s') x = prv h x"
    using wake_loop_all [OF r order_refl n w(1), where woke = 0, simplified] by (elim exE conjE) (rule that, simp_all cong: if_cong)
  let ?s2 = "if woke' \<noteq> 0 then task_set_need_resched s' else s'"
  have "wake_up_all q s = Some ?s2" using h(1) p n s'(1) by (simp add: wake_up_all_def wake_up_queue_def)
  moreover have "ring (lst s') (Queue q) []" by (rule ring_frame [OF h(2)]) (use s'(5) in auto)
  then have "waiting ?s2 q []" by (simp add: waiting_def)
  moreover have "woke' \<noteq> 0 \<longleftrightarrow> ws \<noteq> []" using s'(3) w(2) by (cases ws) auto
  ultimately show ?thesis using s'(2,4) w(2) by (auto simp: wake_task_def TASK_TIMESLICE_TICKS_def)
qed

text \<open>
  C35: \<open>wake_up\<close> strands all waiters but the first.  It takes the whole list of waiters off the queue, wakes the
  first one and stops; the others stay blocked and marked as waiting on the queue, but the queue is empty, so no
  later call on that queue, of whatever kind, wakes any of them.
\<close>
theorem wake_up_strands:
  assumes "waiting s q (w # ws)"
  shows "\<exists>s'. wake_up q s = Some s' \<and> tstate (task s' w) = TASK_RUNNABLE \<and> \<not> waitqueue_active q s' \<and>
    (\<forall>v \<in> set ws. tstate (task s' v) = TASK_BLOCKED \<and> waitq (task s' v) = Some q) \<and>
    (\<forall>nr. \<exists>s''. wake_up_queue q nr s' = Some s'' \<and> (\<forall>v \<in> set ws. tstate (task s'' v) = TASK_BLOCKED))"
proof -
  obtain h where h: "take_waiters q (upd_links (INIT_LIST_HEAD Wake_list) s) = Some (s\<lparr>lst := h\<rparr>)" "ring h (Queue q) []"
      "ring h Wake_list (map Entry (w # ws))"
    using taken_waiters [OF assms] by metis
  have wp: "wait_private (task s w) = Some w" "wait_func (task s w)" "tstate (task s w) = TASK_BLOCKED"
    "\<forall>v \<in> set ws. tstate (task s v) = TASK_BLOCKED \<and> waitq (task s v) = Some q"
    using assms by (simp_all add: waiting_def)
  have nw: "w \<notin> set ws" using ring_list_nodes [OF h(3)] by simp
  let ?s1 = "upd_links (list_del_init (Entry w)) (s\<lparr>lst := h\<rparr>)"
  define s2 where "s2 = snd (default_wake_function w ?s1)"
  have wp1: "wait_private (task ?s1 w) = Some w" using wp by simp
  note e = default_wake_effect [OF wp1, folded s2_def]
  have p: "nxt h Wake_list = Some (Entry w)" "nxt h (Entry w) = Some (after Wake_list (map Entry ws))"
    using ring_next(1) [of h Wake_list "[]" "map Entry (w # ws)"] ring_del_between(2) [of h Wake_list "[]" "Entry w" "map Entry ws"] h(3) by simp_all
  have "wake_loop (Entry w) (after Wake_list (map Entry ws)) 1 0 (s\<lparr>lst := h\<rparr>) = Some (1, s2)"
    using wp e(3) by (subst wake_loop.simps) (simp add: s2_def [symmetric] split_beta Let_def)
  then have "wake_up q s = Some (task_set_need_resched s2)" using h(1) p by (simp add: wake_up_def wake_up_queue_def)
  moreover have q2: "ring (lst s2) (Queue q) []"
    using list_del_init_ring(4) [of h Wake_list "[]" "Entry w" "map Entry ws" "Queue q"] h(3)
    by (intro ring_frame [OF h(2)]) (auto simp: e(2))
  then have "\<not> waitqueue_active q (task_set_need_resched s2)" using list_empty_ring by (fastforce simp: waitqueue_active_def)
  moreover have "\<exists>s''. wake_up_queue q nr (task_set_need_resched s2) = Some s'' \<and> (\<forall>v \<in> set ws. tstate (task s'' v) = TASK_BLOCKED)" for nr
  proof -
    let ?t = "task_set_need_resched s2"
    have "waiting ?t q []" using q2 by (simp add: waiting_def)
    then obtain g where g: "take_waiters q (upd_links (INIT_LIST_HEAD Wake_list) ?t) = Some (?t\<lparr>lst := g\<rparr>)" "ring g Wake_list []"
      using taken_waiters [of ?t q "[]"] by (metis list.map(1))
    then have "nxt g Wake_list = Some Wake_list" by (simp add: ring_def)
    moreover have "wake_loop Wake_list Wake_list nr 0 (?t\<lparr>lst := g\<rparr>) = Some (0, ?t\<lparr>lst := g\<rparr>)" by (subst wake_loop.simps) simp
    ultimately have "wake_up_queue q nr ?t = Some (?t\<lparr>lst := g\<rparr>)" using g(1) by (simp add: wake_up_queue_def)
    then show ?thesis using e(1) wp(4) nw by auto
  qed
  ultimately show ?thesis using e(1) wp nw by (auto simp: wake_task_def)
qed

subsection \<open>Handing over children\<close>

text \<open>The children of \<open>p\<close> in the order of its list.\<close>

definition children_of :: "sched \<Rightarrow> nat \<Rightarrow> nat list \<Rightarrow> bool" where
  "children_of s p cs \<longleftrightarrow> ring (lst s) (Children p) (map Sibling cs)"

lemma children_distinct: "children_of s p cs \<Longrightarrow> distinct cs"
  using ring_distinct [of "lst s" "Children p" "map Sibling cs"] by (simp add: children_of_def distinct_map)

text \<open>One turn of the loop moves the first child to the end of the other list.\<close>

lemma reparent_step:
  assumes "children_of s p (c # cs)" "children_of s r ds" "p \<noteq> r" "set (c # cs) \<inter> set ds = {}"
  shows "\<exists>s1 s2. on_links (list_del (Sibling c)) s = Some s1 \<and>
    on_links (list_add_tail (Sibling c) (Children r)) (upd_task c (\<lambda>x. x\<lparr>real_parent := Some r, parent := Some r\<rparr>) s1) = Some s2 \<and>
    children_of s2 p cs \<and> children_of s2 r (ds @ [c]) \<and> task s2 = (task s)(c := (task s c)\<lparr>real_parent := Some r, parent := Some r\<rparr>)"
proof -
  have r: "ring (lst s) (Children p) ([] @ Sibling c # map Sibling cs)" "ring (lst s) (Children r) (map Sibling ds)"
    using assms(1,2) by (simp_all add: children_of_def)
  obtain h1 where h1: "list_del (Sibling c) (lst s) = Some h1" "ring h1 (Children p) (map Sibling cs)"
    "\<forall>x. x \<notin> set (Children p # Sibling c # map Sibling cs) \<longrightarrow> nxt h1 x = nxt (lst s) x \<and> prv h1 x = prv (lst s) x"
    using list_del_ring [OF r(1)] by auto
  have cd: "c \<notin> set cs" "c \<notin> set ds" using children_distinct [OF assms(1)] assms(4) by auto
  have "ring h1 (Children r) (map Sibling ds)" by (rule ring_frame [OF r(2)]) (use h1(3) assms(3,4) in auto)
  from list_add_tail_ring [OF this, of "Sibling c"] cd obtain h2 where h2: "list_add_tail (Sibling c) (Children r) h1 = Some h2"
    "ring h2 (Children r) (map Sibling (ds @ [c]))"
    "\<forall>x. x \<notin> set (Children r # Sibling c # map Sibling ds) \<longrightarrow> nxt h2 x = nxt h1 x \<and> prv h2 x = prv h1 x" by auto
  have "ring h2 (Children p) (map Sibling cs)" by (rule ring_frame [OF h1(2)]) (use h2(3) assms(3,4) cd in auto)
  then show ?thesis using h1(1) h2(1,2) by (simp add: on_links_def children_of_def upd_task_def)
qed

lemma reparent_loop_run:
  assumes "children_of s p cs" "children_of s r ds" "p \<noteq> r" "set cs \<inter> set ds = {}" "nxt (lst s) (after (Children p) (map Sibling cs)) = Some n"
  shows "\<exists>s'. reparent_loop p r (after (Children p) (map Sibling cs)) n wake s = Some (wake \<or> (\<exists>c \<in> set cs. tstate (task s c) = TASK_ZOMBIE), s') \<and>
    children_of s' p [] \<and> children_of s' r (ds @ cs) \<and>
    task s' = (\<lambda>x. if x \<in> set cs then (task s x)\<lparr>real_parent := Some r, parent := Some r\<rparr> else task s x)"
  using assms
proof (induction cs arbitrary: s ds n wake)
  case Nil
  then show ?case by (subst reparent_loop.simps) simp
next
  case (Cons c cs)
  obtain s1 s2 where s2: "on_links (list_del (Sibling c)) s = Some s1"
    "on_links (list_add_tail (Sibling c) (Children r)) (upd_task c (\<lambda>x. x\<lparr>real_parent := Some r, parent := Some r\<rparr>) s1) = Some s2"
    "children_of s2 p cs" "children_of s2 r (ds @ [c])" "task s2 = (task s)(c := (task s c)\<lparr>real_parent := Some r, parent := Some r\<rparr>)"
    using reparent_step [OF Cons.prems(1-4)] by blast
  have n: "n = after (Children p) (map Sibling cs)"
    using ring_del_between(2) [of "lst s" "Children p" "[]" "Sibling c" "map Sibling cs"] Cons.prems(1,5) by (simp add: children_of_def)
  obtain n' where n': "nxt (lst s2) n = Some n'"
    using s2(3) ring_next(1) [of "lst s2" "Children p" "[Sibling (hd cs)]" "map Sibling (tl cs)"] ring_next(1) [of "lst s2" "Children p" "[]" "map Sibling cs"]
    unfolding n by (cases cs) (auto simp: children_of_def)
  have d: "c \<notin> set cs" "set cs \<inter> set (ds @ [c]) = {}" using children_distinct [OF Cons.prems(1)] Cons.prems(4) by auto
  define wake1 where "wake1 = (wake \<or> tstate (task s2 c) = TASK_ZOMBIE)"
  from Cons.IH [OF s2(3,4) Cons.prems(3) d(2) n' [unfolded n], of wake1]
  obtain s' where s': "reparent_loop p r n n' wake1 s2 = Some (wake1 \<or> (\<exists>c \<in> set cs. tstate (task s2 c) = TASK_ZOMBIE), s')"
    "children_of s' p []" "children_of s' r (ds @ c # cs)"
    "task s' = (\<lambda>x. if x \<in> set cs then (task s2 x)\<lparr>real_parent := Some r, parent := Some r\<rparr> else task s2 x)" using n by auto
  have "reparent_loop p r (after (Children p) (map Sibling (c # cs))) n wake s = reparent_loop p r n n' wake1 s2"
    using s2(1,2) n' by (subst reparent_loop.simps) (simp add: wake1_def)
  moreover have "(wake1 \<or> (\<exists>c \<in> set cs. tstate (task s2 c) = TASK_ZOMBIE)) = (wake \<or> (\<exists>c \<in> set (c # cs). tstate (task s c) = TASK_ZOMBIE))"
    using d(1) by (auto simp: wake1_def s2(5))
  moreover have "task s' = (\<lambda>x. if x \<in> set (c # cs) then (task s x)\<lparr>real_parent := Some r, parent := Some r\<rparr> else task s x)"
    using s'(4) d(1) by (auto simp: s2(5) fun_eq_iff)
  ultimately show ?case using s' by auto
qed

text \<open>
  When a task hands its children over to itself, every turn moves the first of them to the end of the same list, and the loop
  does not reach the head of the list.
\<close>

lemma reparent_step_self:
  assumes "children_of s p (c # cs)"
  shows "\<exists>s1 s2. on_links (list_del (Sibling c)) s = Some s1 \<and>
    on_links (list_add_tail (Sibling c) (Children p)) (upd_task c (\<lambda>x. x\<lparr>real_parent := Some p, parent := Some p\<rparr>) s1) = Some s2 \<and>
    children_of s2 p (cs @ [c])"
proof -
  have r: "ring (lst s) (Children p) ([] @ Sibling c # map Sibling cs)" using assms by (simp add: children_of_def)
  obtain h1 where h1: "list_del (Sibling c) (lst s) = Some h1" "ring h1 (Children p) (map Sibling cs)" using list_del_ring [OF r] by auto
  have "c \<notin> set cs" using children_distinct [OF assms] by simp
  then obtain h2 where "list_add_tail (Sibling c) (Children p) h1 = Some h2" "ring h2 (Children p) (map Sibling cs @ [Sibling c])"
    using list_add_tail_ring [OF h1(2), of "Sibling c"] by auto
  then show ?thesis using h1(1) by (simp add: on_links_def children_of_def upd_task_def)
qed

lemma reparent_loop_self:
  assumes "reparent_loop p r pos n wake s = Some res" "r = p" "children_of s p (c # d # cs)" "pos = Sibling c" "n = Sibling d"
  shows False
  using assms(2-5)
proof (induction arbitrary: c d cs rule: reparent_loop.raw_induct [OF _ assms(1), case_names 1])
  case (1 f p r pos n wake s res)
  obtain s1 s2 where s2: "on_links (list_del (Sibling c)) s = Some s1"
    "on_links (list_add_tail (Sibling c) (Children p)) (upd_task c (\<lambda>x. x\<lparr>real_parent := Some p, parent := Some p\<rparr>) s1) = Some s2"
    "children_of s2 p (d # cs @ [c])"
    using reparent_step_self [OF "1.prems"(2)] by auto
  obtain e es where e: "cs @ [c] = e # es" by (cases cs) auto
  have "nxt (lst s2) (Sibling d) = Some (Sibling e)"
    using s2(3) ring_next(1) [of "lst s2" "Children p" "[Sibling d]" "map Sibling (cs @ [c])"] by (simp add: children_of_def e)
  then have "f p p (Sibling d) (Sibling e) (wake \<or> tstate (task s2 c) = TASK_ZOMBIE) s2 = Some res"
    using "1.prems" "1.hyps" s2(1,2) by simp
  then show False using "1.IH" [of p p "Sibling d" "Sibling e" _ s2 res d e es] s2(3) e by simp
qed

lemma find_task_loop_find:
  "ring (lst s) Task_list (map Tasks (us @ vs)) \<Longrightarrow>
   find_task_loop v (after Task_list (map Tasks vs)) s = Some (find (\<lambda>t. pid (task s t) = v) vs)"
proof (induction vs arbitrary: us)
  case Nil
  then show ?case by (subst find_task_loop.simps) simp
next
  case (Cons t vs)
  have "nxt (lst s) (Tasks t) = Some (after Task_list (map Tasks vs))"
    using ring_next(1) [of "lst s" Task_list "map Tasks (us @ [t])" "map Tasks vs"] Cons.prems by simp
  then show ?case using Cons.IH [of "us @ [t]"] Cons.prems by (subst find_task_loop.simps) simp
qed

lemma find_task_find:
  assumes "ring (lst s) Task_list (map Tasks ts)"
  shows "find_task_by_vpid v s = Some (find (\<lambda>t. pid (task s t) = v) ts)"
  using find_task_loop_find [of s "[]" ts v] assms list_empty_ring [OF assms] ring_next(1) [of "lst s" Task_list "[]" "map Tasks ts"]
  by (auto simp: find_task_by_vpid_def)

text \<open>
  C34: When a task exits, \<open>reparent_children\<close> gives all its children to the reaper: for two different tasks it returns, the list
  of children of the first is empty, that of the reaper has them at its end in their order, their parent is the reaper, no other
  task has changed, and the result says whether one of them is a zombie.
\<close>
theorem reparent_children_spec:
  assumes "children_of s p cs" "children_of s r ds" "p \<noteq> r" "set cs \<inter> set ds = {}"
  shows "\<exists>s'. reparent_children p r s = Some (\<exists>c \<in> set cs. tstate (task s c) = TASK_ZOMBIE, s') \<and>
    children_of s' p [] \<and> children_of s' r (ds @ cs) \<and>
    task s' = (\<lambda>x. if x \<in> set cs then (task s x)\<lparr>real_parent := Some r, parent := Some r\<rparr> else task s x)"
proof (cases cs)
  case Nil
  then show ?thesis using assms list_empty_ring [of "lst s" "Children p" "[]"] by (simp add: reparent_children_def children_of_def)
next
  case (Cons c cs')
  have r: "ring (lst s) (Children p) (map Sibling (c # cs'))" using assms(1) Cons by (simp add: children_of_def)
  have ne: "\<not> list_empty (Children p) (lst s)" using list_empty_ring [OF r] by simp
  have p: "nxt (lst s) (Children p) = Some (after (Children p) (map Sibling cs))"
    using ring_next(1) [of "lst s" "Children p" "[]" "map Sibling cs"] r Cons by simp
  have n: "nxt (lst s) (after (Children p) (map Sibling cs)) = Some (after (Children p) (map Sibling cs'))"
    using ring_next(1) [of "lst s" "Children p" "[Sibling c]" "map Sibling cs'"] r Cons by simp
  from reparent_loop_run [OF assms n, of False] show ?thesis using ne p n by (simp add: reparent_children_def)
qed

text \<open>
  C36: The kernel hangs when the first user task exits with two children or more.  The task with process id 1 is its own reaper;
  \<open>reparent_children\<close> then moves children from the front of a list to the end of the same list, for ever, with
  interrupts off: \<open>do_exit\<close> does not return.
\<close>
theorem init_exit_hangs:
  assumes "run_list s ts" "t \<in> set ts" "cpu_current s = Some t" "tstate (task s t) = TASK_RUNNABLE"
    and "\<forall>x \<in> set ts. pid (task s x) = 1 \<longleftrightarrow> x = t" "children_of s t (c # d # cs)"
  shows "do_exit code s = None"
proof -
  have pid: "pid (task s t) = 1" using assms(2,5) by simp
  define s2 where "s2 = (case parent (task s t) of None \<Rightarrow> s | Some p \<Rightarrow> get_task_struct p s)"
  have k: "lst s2 = lst s" "pid (task s2 x) = pid (task s x)" for x
    by (auto simp: s2_def get_task_struct_def split: option.splits)
  have r: "ring (lst s2) Task_list (map Tasks ts)" using assms(1) k(1) by (simp add: run_list_def)
  have "find (\<lambda>x. pid (task s2 x) = 1) ts = Some t"
  proof (cases "find (\<lambda>x. pid (task s2 x) = 1) ts")
    case None
    then show ?thesis using assms(2) pid k(2) by (auto simp: find_None_iff)
  next
    case (Some x)
    then show ?thesis using assms(5) k(2) by (auto simp: find_Some_iff)
  qed
  then have reaper: "task_reaper_locked s2 = Some (Some t, get_task_struct t s2)"
    using find_task_find [OF r, of 1] by (simp add: task_reaper_locked_def)
  let ?s3 = "get_task_struct t s2"
  have ch: "children_of ?s3 t (c # d # cs)" using assms(6) k(1) by (simp add: children_of_def get_task_struct_def)
  have n: "nxt (lst ?s3) (Children t) = Some (Sibling c)" "nxt (lst ?s3) (Sibling c) = Some (Sibling d)" "\<not> list_empty (Children t) (lst ?s3)"
    using ch ring_next(1) [of "lst ?s3" "Children t" "[]" "map Sibling (c # d # cs)"]
      ring_next(1) [of "lst ?s3" "Children t" "[Sibling c]" "map Sibling (d # cs)"] list_empty_ring [of "lst ?s3" "Children t" "map Sibling (c # d # cs)"]
    by (simp_all add: children_of_def)
  have "reparent_loop t t (Sibling c) (Sibling d) False ?s3 = None"
    using reparent_loop_self [of t t "Sibling c" "Sibling d" False ?s3 _ c d cs] ch by (cases "reparent_loop t t (Sibling c) (Sibling d) False ?s3") auto
  then have "reparent_children t t ?s3 = None" using n by (simp add: reparent_children_def)
  then have "exit_notify t code TASK_EXIT_NORMAL 0 0 s = None"
    using pid assms(4) reaper by (simp add: exit_notify_def is_idle_task_def s2_def [symmetric] Let_def)
  then show ?thesis using assms(3) pid by (simp add: do_exit_def do_exit_reason_def task_current_def is_idle_task_def)
qed

subsection \<open>The race in \<open>wait_for_completion\<close>\<close>

text \<open>
  The waiting task \<open>w\<close> tests the counter, blocks when it is 0, and sleeps until it is scheduled again.  An interrupt may
  complete at any moment between these steps, as long as completions are pending.  The state is the position of the
  waiter, the counter, the number of pending completions, and the scheduler.
\<close>

datatype waiter = Testing | Blocking | Sleeping | Returned

inductive completion_step :: "wait_queue_head \<Rightarrow> nat \<Rightarrow> waiter \<times> u32 \<times> nat \<times> sched \<Rightarrow> waiter \<times> u32 \<times> nat \<times> sched \<Rightarrow> bool" for q w where
  test_done: "wait_test d = (True, d') \<Longrightarrow> completion_step q w (Testing, d, n, s) (Returned, d', n, s)"
| test_zero: "wait_test d = (False, d') \<Longrightarrow> completion_step q w (Testing, d, n, s) (Blocking, d', n, s)"
| block: "wait_block q (d, s) = Some (d', s') \<Longrightarrow> completion_step q w (Blocking, d, n, s) (Sleeping, d', n, s')"
| resume: "tstate (task s w) = TASK_RUNNABLE \<Longrightarrow> completion_step q w (Sleeping, d, n, s) (Testing, d, n, s)"
| interrupt: "complete q (d, s) = Some (d', s') \<Longrightarrow> completion_step q w (pc, d, Suc n, s) (pc, d', n, s')"

inductive_cases completion_stepE: "completion_step q w (Sleeping, d, n, s) x"

lemma block_current:
  assumes "waiting s q ws" "cpu_current s = Some w" "tstate (task s w) \<noteq> TASK_ZOMBIE" "waitq (task s w) \<noteq> Some q"
  shows "\<exists>s'. wait_queue_block q s = Some s' \<and> tstate (task s' w) = TASK_BLOCKED"
proof -
  let ?h = "INIT_LIST_HEAD (Entry w) (lst s)"
  have "nxt (lst s) (Queue q) = Some (after (Queue q) (map Entry ws))" using assms(1) ring_next(1) [of "lst s" "Queue q" "[]" "map Entry ws"] by (simp add: waiting_def)
  then have "nxt ?h (Queue q) = Some (after (Queue q) (map Entry ws))" by (simp add: INIT_LIST_HEAD_def)
  then show ?thesis using assms
    by (simp add: wait_queue_block_def wait_queue_block_locked_def task_current_def add_wait_queue_def on_links_def list_add_def init_waitqueue_entry_def)
qed

text \<open>
  C37: \<open>wait_for_completion\<close> can lose a wake-up.  The counter is tested with interrupts off, but the waiter blocks after they are on
  again.  When the only completion comes in between, the waiter ends up blocked with the counter at 1, nothing pending and no step left: it
  sleeps for ever although the event has happened.
\<close>
theorem completion_lost_wakeup:
  assumes "waiting s q []" "cpu_current s = Some w" "tstate (task s w) = TASK_RUNNABLE" "waitq (task s w) = None"
  shows "\<exists>s'. (completion_step q w)\<^sup>*\<^sup>* (Testing, 0, 1, s) (Sleeping, 1, 0, s') \<and> tstate (task s' w) = TASK_BLOCKED \<and>
    (\<forall>x. \<not> completion_step q w (Sleeping, 1, 0, s') x)"
proof -
  obtain h where h: "take_waiters q (upd_links (INIT_LIST_HEAD Wake_list) s) = Some (s\<lparr>lst := h\<rparr>)" "ring h (Queue q) []" "ring h Wake_list []"
    using taken_waiters [OF assms(1)] by (metis list.map(1))
  then have "nxt h Wake_list = Some Wake_list" by (simp add: ring_def)
  moreover have "wake_loop Wake_list Wake_list 0 0 (s\<lparr>lst := h\<rparr>) = Some (0, s\<lparr>lst := h\<rparr>)" by (subst wake_loop.simps) simp
  ultimately have "complete q (0, s) = Some (1, s\<lparr>lst := h\<rparr>)" using h(1) by (simp add: complete_def wake_up_all_def wake_up_queue_def)
  note intr = completion_step.interrupt [OF this, of w Blocking 0]
  have "waiting (s\<lparr>lst := h\<rparr>) q []" using h(2) by (simp add: waiting_def)
  from block_current [OF this, of w] assms obtain s' where s': "wait_queue_block q (s\<lparr>lst := h\<rparr>) = Some s'" "tstate (task s' w) = TASK_BLOCKED" by auto
  have "completion_step q w (Testing, 0, 1, s) (Blocking, 0, 1, s)" by (rule test_zero) (simp add: wait_test_def)
  moreover have "completion_step q w (Blocking, 0, 1, s) (Blocking, 1, 0, s\<lparr>lst := h\<rparr>)" using intr by simp
  moreover have "completion_step q w (Blocking, 1, 0, s\<lparr>lst := h\<rparr>) (Sleeping, 1, 0, s')" by (rule block) (simp add: wait_block_def s'(1))
  ultimately have "(completion_step q w)\<^sup>*\<^sup>* (Testing, 0, 1, s) (Sleeping, 1, 0, s')" by (meson rtranclp.rtrancl_into_rtrancl rtranclp.rtrancl_refl)
  moreover have "\<not> completion_step q w (Sleeping, 1, 0, s') x" for x using s'(2) by (auto elim: completion_stepE)
  ultimately show ?thesis using s'(2) by blast
qed

subsection \<open>A concrete state\<close>

text \<open>
  Task 1 runs; it is the first task and has the children 2 and 3, which block on wait queue 0; task 4 is runnable.
\<close>

definition demo_links :: "node links" where
  "demo_links = \<lparr>
     nxt = (\<lambda>_. None)(Task_list \<mapsto> Tasks 1, Tasks 1 \<mapsto> Tasks 2, Tasks 2 \<mapsto> Tasks 3, Tasks 3 \<mapsto> Tasks 4, Tasks 4 \<mapsto> Task_list,
       Children 1 \<mapsto> Sibling 2, Sibling 2 \<mapsto> Sibling 3, Sibling 3 \<mapsto> Children 1, Children 4 \<mapsto> Children 4,
       Queue (Wait_queue 0) \<mapsto> Entry 2, Entry 2 \<mapsto> Entry 3, Entry 3 \<mapsto> Queue (Wait_queue 0), Queue (Wait_queue 1) \<mapsto> Queue (Wait_queue 1)),
     prv = (\<lambda>_. None)(Tasks 1 \<mapsto> Task_list, Tasks 2 \<mapsto> Tasks 1, Tasks 3 \<mapsto> Tasks 2, Tasks 4 \<mapsto> Tasks 3, Task_list \<mapsto> Tasks 4,
       Sibling 2 \<mapsto> Children 1, Sibling 3 \<mapsto> Sibling 2, Children 1 \<mapsto> Sibling 3, Children 4 \<mapsto> Children 4,
       Entry 2 \<mapsto> Queue (Wait_queue 0), Entry 3 \<mapsto> Entry 2, Queue (Wait_queue 0) \<mapsto> Entry 3, Queue (Wait_queue 1) \<mapsto> Queue (Wait_queue 1))\<rparr>"

definition demo_task :: "nat \<Rightarrow> task_struct" where
  "demo_task t = \<lparr>usage = 1, pid = word_of_nat t, real_parent = (if t = 1 then None else Some 1), parent = (if t = 1 then None else Some 1),
     thread_regs = 0, thread_sp0 = 0, wake_jiffies = 0, tstate = (if t = 2 \<or> t = 3 then TASK_BLOCKED else TASK_RUNNABLE), time_slice = 3,
     task_mm = None, exit_code = 0, exit_state = 0, exit_info0 = 0, exit_info1 = 0, comm = [], fs_pwd = None, fs_root = None,
     uid = 0, gid = 0, umask = 18, waitq = (if t = 2 \<or> t = 3 then Some (Wait_queue 0) else None), wait_flags = 0, wait_private = Some t, wait_func = True\<rparr>"

definition demo_sched :: sched where
  "demo_sched = \<lparr>lst = demo_links, task = demo_task, rq_tasks = Some Task_list, cpu_current = Some 1, cpu_need_resched = False,
     current = Some 1, need_resched = False, last_pid = 5, sched_switch_count = 0, kernel_preempt_count = 0, jiffies = 0,
     mm_pgd = \<lambda>_. 0, pgd_current = 0, pgd_kernel = 0, tss_esp0 = 0, calls = []\<rparr>"

lemma demo_sched:
  "run_list demo_sched [1, 2, 3, 4]" "waiting demo_sched (Wait_queue 0) [2, 3]" "waiting demo_sched (Wait_queue 1) []"
  "children_of demo_sched 1 [2, 3]" "children_of demo_sched 4 []" "cpu_current demo_sched = Some 1" "task demo_sched = demo_task"
  "kernel_preempt_count demo_sched = 0"
  by (simp_all add: run_list_def waiting_def children_of_def ring_def demo_sched_def demo_links_def demo_task_def)

lemma demo_sched_ok: "sched_ok demo_sched [1, 2, 3, 4]"
  using demo_sched by (simp add: sched_ok_def demo_task_def TASK_TIMESLICE_TICKS_def)


theorem wake_up_all_spec_witness:
  "\<exists>s'. wake_up_all (Wait_queue 0) demo_sched = Some s' \<and> waiting s' (Wait_queue 0) [] \<and>
    (\<forall>w \<in> {2, 3}. tstate (task s' w) = TASK_RUNNABLE)"
  using wake_up_all_spec [OF demo_sched(2)] by auto

theorem wake_up_strands_witness:
  "\<exists>s'. wake_up (Wait_queue 0) demo_sched = Some s' \<and> tstate (task s' 2) = TASK_RUNNABLE \<and> tstate (task s' 3) = TASK_BLOCKED \<and>
    \<not> waitqueue_active (Wait_queue 0) s'"
  using wake_up_strands [OF demo_sched(2)] by auto

theorem reparent_children_spec_witness:
  "\<exists>s'. reparent_children 1 4 demo_sched = Some (False, s') \<and> children_of s' 1 [] \<and> children_of s' 4 [2, 3]"
  using reparent_children_spec [OF demo_sched(4,5)] demo_sched(7) by (auto simp: demo_task_def)

theorem init_exit_hangs_witness: "do_exit 0 demo_sched = None"
  using init_exit_hangs [OF demo_sched(1) _ demo_sched(6) _ _ demo_sched(4)] demo_sched(7) by (simp add: demo_task_def)

theorem completion_lost_wakeup_witness:
  "\<exists>s'. (completion_step (Wait_queue 1) 1)\<^sup>*\<^sup>* (Testing, 0, 1, demo_sched) (Sleeping, 1, 0, s') \<and> tstate (task s' 1) = TASK_BLOCKED"
  using completion_lost_wakeup [OF demo_sched(3,6)] demo_sched(7) by (auto simp: demo_task_def)

end
