(* ===== verification/Spec2Isabelle.thy ===== *)
theory Spec2Isabelle
  imports Prelude Mmzone Bootmem Page_Alloc Idr Vma Rmap Paging Swap Mmap Fault Kstring Parser Bitmap List_Head Sched
begin

text \<open>
  A verification library for the kernel in \<open>src/\<close>, a 32-bit x86 kernel in the style of Linux 2.6.

  \<^bold>\<open>The program.\<close>  At boot \<open>mm/bootmem.c\<close> reads the memory map and hands out the first ranges; \<open>mm/mmzone.c\<close> describes
  the frames and zones; \<open>mm/page_alloc.c\<close> then takes over with a buddy allocator behind watermarks and reclaim.  On top of it
  \<open>mm/memory.c\<close> keeps two-level page tables, \<open>mm/rmap.c\<close> records who maps a page, \<open>mm/swap.c\<close> moves pages
  to slots and back, \<open>mm/mmap.c\<close> keeps the areas of an address space, and the page fault handler of \<open>mm/memory.c\<close> joins them.
  \<open>lib/radix-tree.c\<close> and \<open>lib/idr.c\<close> are libraries the rest of the kernel uses.

  \<^bold>\<open>The theories.\<close>
  \<^item> \<open>Prelude\<close>: machine words, error codes, allocation outcomes, flag bits, rounding, linked chains.
  \<^item> \<open>Bootmem\<close> (\<open>mm/bootmem.c\<close>): region tables, first fit, sorting and coalescing.  The lemmas show that an allocation is an aligned
    free range when there is one above the cursor, that successive allocations are disjoint, and that the initialisation keeps
    the memory the map describes.
  \<^item> \<open>Mmzone\<close> (\<open>mm/mmzone.c\<close>, \<open>include/linux/mmzone.h\<close>): the record \<open>mm_state\<close> of all globals of the memory
    code, zones, frames, and the inactive list.
  \<^item> \<open>Buddy\<close> and \<open>Page_Alloc\<close> (\<open>mm/page_alloc.c\<close>): the free lists as chains through \<open>buddy_next\<close>, splitting, merging, the
    watermark passes, reference counts, and the start-up.  The lemmas show the free-list invariant, full merging, that freeing undoes
    allocating, and that reclaimed memory is not retried.  The locale \<open>reclaimer\<close> is the contract between the allocator and the
    code that reclaims pages.
  \<^item> \<open>Radix_Tree\<close> (\<open>lib/radix-tree.c\<close>) and \<open>Idr\<close> (\<open>lib/idr.c\<close>): the tree refines a map; the locale \<open>item_index\<close>
    states that contract, and the id allocator rests on its interpretation.
  \<^item> \<open>Vma\<close> and \<open>Mmap\<close> (\<open>mm/mmap.c\<close>): the sorted list of areas, searching for room, mapping, the break, unmapping, protection, resizing,
    duplicating and destroying an address space.
  \<^item> \<open>Rmap\<close> (\<open>mm/rmap.c\<close>): the record of the mappings of a page refines a set of pairs.
  \<^item> \<open>Paging\<close> (\<open>mm/memory.c\<close>, \<open>arch/x86/include/asm/pgtable.h\<close>): physical memory as words of frames, tables in frames, and the view
    of a directory as a function of the address; \<open>map_page_ex\<close> refines the update of that function.
  \<^item> \<open>Swap\<close> (\<open>mm/swap.c\<close>): swapping out and in again restores a page.
  \<^item> \<open>Fault\<close> (\<open>mm/memory.c\<close>): user ranges, copy on write, the fault handler, copies to and from user memory.  A copy-on-write fault
    isolates the writer.

  \<^bold>\<open>Conventions.\<close>  The state is a record that grows from \<open>mm_state\<close> to \<open>vm_state\<close>; operations are polymorphic in the rest of the
  record.  An allocation with \<open>kmalloc\<close> takes its outcome from a list of outcomes, so every failure path is a case of the
  theorems.  A result \<open>None\<close> of an operation means that the code does not return (a panic or an endless loop).  Loops are
  structural recursions or functions with a termination proof; none of them needs fuel.

  \<^bold>\<open>Not modelled.\<close>  The device drivers, the file systems above the page cache, the scheduler and the entry code are dominated by
  port and memory-mapped input and output, by assembly, and by tables of function pointers; the user programs of \<open>usr/\<close> are
  test programs.  Functions that only print or return a counter are left out of the modelled parts.
\<close>

end
